(* ===== verification/Prelude.thy ===== *)
theory Prelude
  imports Main "HOL-Library.Word" "HOL-Library.Multiset"
begin

text \<open>
  Shared material of the development: the machine-integer type of the Go sources, the
  named collections of simplification rules that the component theories extend, and the
  generic facts on lists, strict orders and words that more than one component needs.
\<close>

section \<open>Types and rule collections\<close>

type_synonym u64 = "64 word"

text \<open>\<open>math.MaxUint64\<close>, the all-ones word.\<close>

abbreviation MaxUint64 :: u64 where
  "MaxUint64 \<equiv> - 1"

text \<open>Rules that compute the state of a component after one of its primitive updates.\<close>

named_theorems state_simps

text \<open>Rules that rewrite a concrete container to its abstract contents.\<close>

named_theorems contents_simps

section \<open>Words\<close>

lemma word_pred_less_iff:
  fixes x a :: u64
  assumes "a < b"
  shows "x \<le> b - 1 \<longleftrightarrow> x < b"
  using assms by uint_arith

lemma word_succ_le_iff:
  fixes x a :: u64
  assumes "a < b"
  shows "a + 1 \<le> x \<longleftrightarrow> a < x"
  using assms by uint_arith

lemma word_succ_le_iff_max:
  fixes x a :: u64
  assumes "a \<noteq> MaxUint64"
  shows "a + 1 \<le> x \<longleftrightarrow> a < x"
  using assms by (metis not_less_iff_gr_or_eq word_order.not_eq_extremum word_succ_le_iff)

lemma word_less_succ:
  fixes a :: u64
  assumes "a \<noteq> MaxUint64"
  shows "a < a + 1"
  using word_succ_le_iff_max [OF assms, of "a + 1"] by simp

lemma word_not_max_iff:
  fixes a :: u64
  shows "a \<noteq> MaxUint64 \<longleftrightarrow> (\<exists>b. a < b)"
  by (metis leD word_order.extremum word_order.not_eq_extremum)

section \<open>Lists\<close>

lemma filter_id_if_all: "(\<And>x. x \<in> set xs \<Longrightarrow> P x) \<Longrightarrow> filter P xs = xs"
  by (simp add: filter_id_conv)

lemma filter_none_if: "(\<And>x. x \<in> set xs \<Longrightarrow> \<not> P x) \<Longrightarrow> filter P xs = []"
  by (simp add: filter_empty_conv)

lemma length_filter_neq_key:
  assumes "distinct (map f xs)" "k \<in> f ` set xs"
  shows "length (filter (\<lambda>x. f x \<noteq> k) xs) = length xs - 1"
  using assms
proof (induction xs)
  case Nil
  then show ?case by simp
next
  case (Cons x xs)
  show ?case
  proof (cases "f x = k")
    case True
    then have "filter (\<lambda>x. f x \<noteq> k) xs = xs"
      using Cons.prems by (intro filter_id_if_all) (auto simp: image_iff)
    with True show ?thesis by simp
  next
    case False
    then have "k \<in> f ` set xs" using Cons.prems by auto
    moreover from this have "xs \<noteq> []" by auto
    ultimately show ?thesis using False Cons by (simp add: Suc_diff_Suc)
  qed
qed

text \<open>A traversal that stops as soon as the visitor says so.\<close>

fun fold_until :: "('a \<Rightarrow> 's \<Rightarrow> bool \<times> 's) \<Rightarrow> 'a list \<Rightarrow> 's \<Rightarrow> bool \<times> 's" where
  "fold_until f [] s = (True, s)"
| "fold_until f (x # xs) s =
     (let (go_on, s') = f x s in if go_on then fold_until f xs s' else (False, s'))"

lemma fold_until_append:
  "fold_until f (xs @ ys) s =
     (let (go_on, s') = fold_until f xs s in if go_on then fold_until f ys s' else (False, s'))"
  by (induction xs arbitrary: s) (auto simp: Let_def split: prod.splits)

lemma fold_until_collect:
  "fold_until (\<lambda>x acc. (True, if P x then acc @ [f x] else acc)) xs acc =
     (True, acc @ map f (filter P xs))"
  by (induction xs arbitrary: acc) auto

lemma fold_until_find:
  "snd (fold_until (\<lambda>x found. if P x then (False, Some (f x)) else (True, found)) xs None) =
     map_option f (find P xs)"
  by (induction xs) auto

lemma sorted_wrt_pairwise:
  assumes "distinct xs" "\<And>x y. x \<in> set xs \<Longrightarrow> y \<in> set xs \<Longrightarrow> x \<noteq> y \<Longrightarrow> R x y"
  shows "sorted_wrt R xs"
  using assms by (induction xs) auto

lemma sorted_wrt_concat:
  assumes "\<And>xs. xs \<in> set xss \<Longrightarrow> sorted_wrt R xs"
    "sorted_wrt (\<lambda>xs ys. \<forall>x \<in> set xs. \<forall>y \<in> set ys. R x y) xss"
  shows "sorted_wrt R (concat xss)"
  using assms by (induction xss) (auto simp: sorted_wrt_append)

lemma sorted_wrt_symD:
  assumes "sorted_wrt R xs" "\<And>x y. R x y \<Longrightarrow> R y x" "x \<in> set xs" "y \<in> set xs" "x \<noteq> y"
  shows "R x y"
  using assms by (induction xs) auto

end
