(* ===== verification/Lock_Range.thy ===== *)
theory Lock_Range
  imports Prelude
begin

text \<open>
  The data of the byte-range lock table, \<^verbatim>\<open>src/vcs/internal/volumeserver/locks.go\<close> lines 28-101:
  lock owners, inclusive 64-bit byte ranges, locks, and the pure range operations
  (\<open>overlaps\<close>, \<open>adjacent\<close>, \<open>coverRange\<close>, \<open>conflicts\<close>, \<open>satisfies\<close>, \<open>subtractLock\<close>).
  Ranges keep their width: \<open>End = MaxUint64\<close> is POSIX "to end of file", and the code's
  \<open>End + 1\<close> and \<open>Start - 1\<close> are word operations. The lemmas read every operation as an
  operation on the set of bytes a range covers.
\<close>

section \<open>Data\<close>

text \<open>Sixteen-byte identities are only compared here, so they are 128-bit words.\<close>

type_synonym ObjectKey = "128 word"
type_synonym SessionID = "128 word"

record LockOwner =
  ow_Session :: SessionID
  ow_Kernel :: u64
  ow_Flock :: bool

text \<open>The lock type is a byte in the code; a value without a declared constant is an \<open>UndeclaredLockType\<close>.\<close>

datatype LockType = LockRead | LockWrite | UndeclaredLockType "8 word"

record LockRange =
  lr_Start :: u64
  lr_End :: u64

record Lock =
  lk_Object :: ObjectKey
  lk_Owner :: LockOwner
  lk_Type :: LockType
  lk_Range :: LockRange

definition ToEOF :: "u64 \<Rightarrow> LockRange" where
  "ToEOF start = \<lparr>lr_Start = start, lr_End = MaxUint64\<rparr>"

section \<open>Range operations\<close>

definition validLock :: "Lock \<Rightarrow> bool" where
  "validLock lock \<longleftrightarrow>
     (lk_Type lock = LockRead \<or> lk_Type lock = LockWrite) \<and>
     lr_Start (lk_Range lock) \<le> lr_End (lk_Range lock)"

definition overlaps :: "LockRange \<Rightarrow> LockRange \<Rightarrow> bool" where
  "overlaps a b \<longleftrightarrow> lr_Start a \<le> lr_End b \<and> lr_Start b \<le> lr_End a"

definition adjacent :: "LockRange \<Rightarrow> LockRange \<Rightarrow> bool" where
  "adjacent a b \<longleftrightarrow>
     (lr_End a \<noteq> MaxUint64 \<and> lr_End a + 1 = lr_Start b) \<or>
     (lr_End b \<noteq> MaxUint64 \<and> lr_End b + 1 = lr_Start a)"

definition coverRange :: "LockRange \<Rightarrow> LockRange \<Rightarrow> LockRange" where
  "coverRange a b =
     (let a1 = (if lr_Start b < lr_Start a then a\<lparr>lr_Start := lr_Start b\<rparr> else a)
      in if lr_End b > lr_End a1 then a1\<lparr>lr_End := lr_End b\<rparr> else a1)"

definition conflicts :: "Lock \<Rightarrow> Lock \<Rightarrow> bool" where
  "conflicts a b \<longleftrightarrow>
     ow_Flock (lk_Owner a) = ow_Flock (lk_Owner b) \<and> lk_Owner a \<noteq> lk_Owner b \<and>
     overlaps (lk_Range a) (lk_Range b) \<and> (lk_Type a = LockWrite \<or> lk_Type b = LockWrite)"

definition satisfies :: "LockType \<Rightarrow> LockType \<Rightarrow> bool" where
  "satisfies held want \<longleftrightarrow> held = LockWrite \<or> want = LockRead"

definition subtractLock :: "Lock \<Rightarrow> LockRange \<Rightarrow> Lock list" where
  "subtractLock held hole =
     (if lr_Start hole > lr_Start (lk_Range held)
      then [held\<lparr>lk_Range := (lk_Range held)\<lparr>lr_End := lr_Start hole - 1\<rparr>\<rparr>] else []) @
     (if lr_End hole < lr_End (lk_Range held)
      then [held\<lparr>lk_Range := (lk_Range held)\<lparr>lr_Start := lr_End hole + 1\<rparr>\<rparr>] else [])"

section \<open>Ranges as sets of bytes\<close>

definition bytes :: "LockRange \<Rightarrow> u64 set" where
  "bytes r = {lr_Start r .. lr_End r}"

definition valid_range :: "LockRange \<Rightarrow> bool" where
  "valid_range r \<longleftrightarrow> lr_Start r \<le> lr_End r"

lemma mem_bytes: "x \<in> bytes r \<longleftrightarrow> lr_Start r \<le> x \<and> x \<le> lr_End r"
  by (simp add: bytes_def)

lemma bytes_nonempty: "valid_range r \<Longrightarrow> bytes r \<noteq> {}"
  by (simp add: valid_range_def bytes_def)

lemma validLock_range: "validLock l \<Longrightarrow> valid_range (lk_Range l)"
  by (simp add: validLock_def valid_range_def)

lemma overlaps_sym: "overlaps a b \<longleftrightarrow> overlaps b a"
  by (auto simp: overlaps_def)

lemma conflicts_sym: "conflicts a b \<longleftrightarrow> conflicts b a"
  by (auto simp: conflicts_def overlaps_sym)

lemma adjacent_sym: "adjacent a b \<longleftrightarrow> adjacent b a"
  by (auto simp: adjacent_def)

lemma overlaps_bytes:
  assumes "valid_range a" "valid_range b"
  shows "overlaps a b \<longleftrightarrow> bytes a \<inter> bytes b \<noteq> {}"
proof
  assume "overlaps a b"
  then have "max (lr_Start a) (lr_Start b) \<in> bytes a \<inter> bytes b"
    using assms by (auto simp: overlaps_def bytes_def valid_range_def max_def)
  then show "bytes a \<inter> bytes b \<noteq> {}" by blast
next
  assume "bytes a \<inter> bytes b \<noteq> {}"
  then show "overlaps a b" by (auto simp: overlaps_def bytes_def)
qed

lemma adjacent_not_overlaps:
  assumes "valid_range a" "valid_range b" "adjacent a b"
  shows "\<not> overlaps a b"
  using assms(3) unfolding adjacent_def overlaps_def
  by (auto simp: not_le dest!: word_less_succ)

lemma coverRange_Start: "lr_Start (coverRange a b) = min (lr_Start a) (lr_Start b)"
  by (auto simp: coverRange_def Let_def min_def)

lemma coverRange_End: "lr_End (coverRange a b) = max (lr_End a) (lr_End b)"
  by (auto simp: coverRange_def Let_def max_def)

lemmas coverRange_simps = coverRange_Start coverRange_End

lemma valid_coverRange: "valid_range a \<Longrightarrow> valid_range (coverRange a b)"
  by (auto simp: valid_range_def coverRange_simps min_def max_def)

text \<open>Two ranges that touch or overlap are covered exactly, with no byte added in between.\<close>

lemma bytes_coverRange:
  assumes "valid_range a" "valid_range b" "overlaps a b \<or> adjacent a b"
  shows "bytes (coverRange a b) = bytes a \<union> bytes b"
proof -
  have gap: "lr_Start b \<le> x" if "lr_End a < x" "overlaps a b \<or> adjacent a b" "valid_range a"
    "valid_range b" for a b x
  proof -
    have "lr_Start b \<le> lr_End a + 1 \<or> lr_Start b \<le> lr_End a" if "adjacent a b" "lr_End a < x"
      using that \<open>valid_range a\<close> \<open>valid_range b\<close> unfolding adjacent_def valid_range_def
      by (force dest!: word_less_succ)
    moreover have "lr_End a + 1 \<le> x" using \<open>lr_End a < x\<close> word_succ_le_iff by blast
    ultimately show ?thesis using that unfolding overlaps_def by force
  qed
  have "overlaps b a \<or> adjacent b a" using assms(3) overlaps_sym adjacent_sym by blast
  then have "lr_Start a \<le> x" if "lr_End b < x" for x using gap[OF that] assms by blast
  moreover have "lr_Start b \<le> x" if "lr_End a < x" for x using gap[OF that] assms by blast
  ultimately show ?thesis
    unfolding bytes_def coverRange_simps
    by (auto simp: min_le_iff_disj le_max_iff_disj) (metis leI)+
qed

lemma subtractLock_same:
  assumes "l \<in> set (subtractLock held hole)"
  shows "lk_Owner l = lk_Owner held" "lk_Type l = lk_Type held" "lk_Object l = lk_Object held"
  using assms by (auto simp: subtractLock_def split: if_splits)

lemma subtractLock_valid:
  "l \<in> set (subtractLock held hole) \<Longrightarrow> valid_range (lk_Range l)"
  by (auto simp: subtractLock_def valid_range_def word_pred_less_iff word_succ_le_iff split: if_splits)

text \<open>What remains of a held lock is exactly its bytes outside the cut.\<close>

lemma bytes_subtractLock:
  assumes "valid_range hole" "overlaps (lk_Range held) hole"
  shows "(\<Union>l \<in> set (subtractLock held hole). bytes (lk_Range l)) =
           bytes (lk_Range held) - bytes hole"
proof (rule set_eqI)
  fix x
  have 1: "x \<le> lr_Start hole - 1 \<longleftrightarrow> x < lr_Start hole" if "lr_Start (lk_Range held) < lr_Start hole"
    using that by (rule word_pred_less_iff)
  have 2: "lr_End hole + 1 \<le> x \<longleftrightarrow> lr_End hole < x" if "lr_End hole < lr_End (lk_Range held)"
    using that by (rule word_succ_le_iff)
  show "x \<in> (\<Union>l \<in> set (subtractLock held hole). bytes (lk_Range l)) \<longleftrightarrow>
          x \<in> bytes (lk_Range held) - bytes hole"
    using assms 1 2 unfolding subtractLock_def bytes_def overlaps_def valid_range_def
    by (auto simp: not_le not_less)
qed

end
