(* ===== verification/Interval_Tree.thy ===== *)
theory Interval_Tree
  imports Lock_Range
begin

text \<open>
  The interval index of the lock table, \<^verbatim>\<open>src/vcs/internal/volumeserver/locks.go\<close> lines 107-274: a treap
  ordered by (start, end, id) in which every node also stores the largest end of its
  subtree, so that the entries meeting a range are found without visiting the others.
  The theory proves that insertion, removal and merging keep the tree ordered, the
  augmentation exact and the priorities heap-ordered, and that the pruned traversal
  visits exactly the entries that meet the range, in key order, up to the point where the
  visitor stops it. The locale \<open>interval_index\<close> is the contract the lock table
  relies on; it is interpreted here on the treap.

  Nodes are values instead of heap cells: the code never shares a node between two trees
  and always stores the returned root back. Ids are natural numbers; the code draws them
  from counters that only grow.
\<close>

section \<open>Keys\<close>

definition intervalKeyLess :: "u64 \<Rightarrow> u64 \<Rightarrow> nat \<Rightarrow> u64 \<Rightarrow> u64 \<Rightarrow> nat \<Rightarrow> bool" where
  "intervalKeyLess aStart aEnd aID bStart bEnd bID =
     (if aStart \<noteq> bStart then aStart < bStart
      else if aEnd \<noteq> bEnd then aEnd < bEnd
      else aID < bID)"

datatype ikey = IKey (key_start: u64) (key_end: u64) (key_id: nat)

text \<open>The key comparison of the code is a linear order on keys.\<close>

instantiation ikey :: linorder
begin

definition less_ikey :: "ikey \<Rightarrow> ikey \<Rightarrow> bool" where
  "less_ikey a b =
     intervalKeyLess (key_start a) (key_end a) (key_id a) (key_start b) (key_end b) (key_id b)"

definition less_eq_ikey :: "ikey \<Rightarrow> ikey \<Rightarrow> bool" where
  "less_eq_ikey a b = (a = b \<or> a < b)"

instance
proof
  fix x y z :: ikey
  show "(x < y) = (x \<le> y \<and> \<not> y \<le> x)"
    by (cases x; cases y) (auto simp: less_eq_ikey_def less_ikey_def intervalKeyLess_def split: if_splits)
  show "x \<le> x" by (simp add: less_eq_ikey_def)
  show "x \<le> z" if "x \<le> y" "y \<le> z"
    using that by (cases x; cases y; cases z)
      (auto simp: less_eq_ikey_def less_ikey_def intervalKeyLess_def split: if_splits)
  show "x = y" if "x \<le> y" "y \<le> x"
    using that by (cases x; cases y)
      (auto simp: less_eq_ikey_def less_ikey_def intervalKeyLess_def split: if_splits)
  show "x \<le> y \<or> y \<le> x"
    by (cases x; cases y) (auto simp: less_eq_ikey_def less_ikey_def intervalKeyLess_def)
qed

end

lemma ikey_less_start: "a < b \<Longrightarrow> key_start a \<le> key_start b"
  by (auto simp: less_ikey_def intervalKeyLess_def split: if_splits)

section \<open>Nodes and trees\<close>

record 'a ientry =
  ie_start :: u64
  ie_end :: u64
  ie_id :: nat
  ie_priority :: u64
  ie_value :: 'a

datatype 'a intervalNode =
    INil
  | INode (ileft: "'a intervalNode") (ientry_of: "'a ientry") (maxEnd: u64) (iright: "'a intervalNode")

record 'a intervalTree =
  it_root :: "'a intervalNode"
  it_size :: int

definition empty_tree :: "'a intervalTree" where
  "empty_tree = \<lparr>it_root = INil, it_size = 0\<rparr>"

definition ekey :: "'a ientry \<Rightarrow> ikey" where
  "ekey e = IKey (ie_start e) (ie_end e) (ie_id e)"

definition splitmix64 :: "u64 \<Rightarrow> u64" where
  "splitmix64 x0 =
     (let x1 = x0 + 0x9e3779b97f4a7c15;
          x2 = xor x1 (drop_bit 30 x1) * 0xbf58476d1ce4e5b9;
          x3 = xor x2 (drop_bit 27 x2) * 0x94d049bb133111eb
      in xor x3 (drop_bit 31 x3))"

text \<open>\<open>update\<close> recomputes the augmentation of one node from its children.\<close>

fun iupdate :: "'a intervalNode \<Rightarrow> 'a intervalNode" where
  "iupdate INil = INil"
| "iupdate (INode l e m r) =
     (let m0 = ie_end e;
          m1 = (case l of INil \<Rightarrow> m0 | INode _ _ ml _ \<Rightarrow> if ml > m0 then ml else m0);
          m2 = (case r of INil \<Rightarrow> m1 | INode _ _ mr _ \<Rightarrow> if mr > m1 then mr else m1)
      in INode l e m2 r)"

text \<open>
  The rotations dereference a child the caller has just built; on a missing child the code
  would fault, a case that \<open>insertInterval\<close> never reaches (\<open>insertInterval_not_nil\<close>).
\<close>

fun rotateIntervalRight :: "'a intervalNode \<Rightarrow> 'a intervalNode" where
  "rotateIntervalRight (INode (INode a p mp b) e m r) =
     iupdate (INode a p mp (iupdate (INode b e m r)))"
| "rotateIntervalRight n = n"

fun rotateIntervalLeft :: "'a intervalNode \<Rightarrow> 'a intervalNode" where
  "rotateIntervalLeft (INode l e m (INode a p mp b)) =
     iupdate (INode (iupdate (INode l e m a)) p mp b)"
| "rotateIntervalLeft n = n"

fun ipriority :: "'a intervalNode \<Rightarrow> u64" where
  "ipriority INil = 0"
| "ipriority (INode l e m r) = ie_priority e"

fun insertInterval :: "'a intervalNode \<Rightarrow> 'a ientry \<Rightarrow> 'a intervalNode" where
  "insertInterval INil fresh = INode INil fresh (ie_end fresh) INil"
| "insertInterval (INode l e m r) fresh =
     (if intervalKeyLess (ie_start fresh) (ie_end fresh) (ie_id fresh) (ie_start e) (ie_end e) (ie_id e)
      then let l' = insertInterval l fresh; n = INode l' e m r
           in iupdate (if ipriority l' > ie_priority e then rotateIntervalRight n else n)
      else let r' = insertInterval r fresh; n = INode l e m r'
           in iupdate (if ipriority r' > ie_priority e then rotateIntervalLeft n else n))"

definition fresh_entry :: "u64 \<Rightarrow> u64 \<Rightarrow> nat \<Rightarrow> 'a \<Rightarrow> 'a ientry" where
  "fresh_entry start en nid v =
     \<lparr>ie_start = start, ie_end = en, ie_id = nid, ie_priority = splitmix64 (of_nat nid), ie_value = v\<rparr>"

definition tree_insert :: "u64 \<Rightarrow> u64 \<Rightarrow> nat \<Rightarrow> 'a \<Rightarrow> 'a intervalTree \<Rightarrow> 'a intervalTree" where
  "tree_insert start en nid v t =
     t\<lparr>it_root := insertInterval (it_root t) (fresh_entry start en nid v), it_size := it_size t + 1\<rparr>"

fun mergeIntervals :: "'a intervalNode \<Rightarrow> 'a intervalNode \<Rightarrow> 'a intervalNode" where
  "mergeIntervals INil b = b"
| "mergeIntervals a INil = a"
| "mergeIntervals (INode la ea ma ra) (INode lb eb mb rb) =
     (if ie_priority ea > ie_priority eb
      then iupdate (INode la ea ma (mergeIntervals ra (INode lb eb mb rb)))
      else iupdate (INode (mergeIntervals (INode la ea ma ra) lb) eb mb rb))"

fun removeInterval :: "'a intervalNode \<Rightarrow> u64 \<Rightarrow> u64 \<Rightarrow> nat \<Rightarrow> 'a intervalNode \<times> bool" where
  "removeInterval INil start en nid = (INil, False)"
| "removeInterval (INode l e m r) start en nid =
     (if ie_start e = start \<and> ie_end e = en \<and> ie_id e = nid then (mergeIntervals l r, True)
      else if intervalKeyLess start en nid (ie_start e) (ie_end e) (ie_id e)
      then let (child, removed) = removeInterval l start en nid
           in (iupdate (INode child e m r), removed)
      else let (child, removed) = removeInterval r start en nid
           in (iupdate (INode l e m child), removed))"

definition tree_remove :: "u64 \<Rightarrow> u64 \<Rightarrow> nat \<Rightarrow> 'a intervalTree \<Rightarrow> 'a intervalTree \<times> bool" where
  "tree_remove start en nid t =
     (let (root, removed) = removeInterval (it_root t) start en nid
      in (t\<lparr>it_root := root, it_size := (if removed then it_size t - 1 else it_size t)\<rparr>, removed))"

text \<open>
  The traversal takes the visitor's captured variables as an explicit state \<open>'s\<close>: a
  visit returns whether to go on and the new state.
\<close>

fun overlapWalk ::
  "'a intervalNode \<Rightarrow> LockRange \<Rightarrow> ('a ientry \<Rightarrow> 's \<Rightarrow> bool \<times> 's) \<Rightarrow> 's \<Rightarrow> bool \<times> 's" where
  "overlapWalk INil rg visit s = (True, s)"
| "overlapWalk (INode l e m r) rg visit s =
     (if m < lr_Start rg then (True, s)
      else case overlapWalk l rg visit s of
        (False, s1) \<Rightarrow> (False, s1)
      | (True, s1) \<Rightarrow>
          if ie_start e > lr_End rg then (False, s1)
          else if ie_end e \<ge> lr_Start rg
          then (case visit e s1 of
                  (False, s2) \<Rightarrow> (False, s2)
                | (True, s2) \<Rightarrow> overlapWalk r rg visit s2)
          else overlapWalk r rg visit s1)"

definition tree_overlap ::
  "'a intervalTree \<Rightarrow> LockRange \<Rightarrow> ('a ientry \<Rightarrow> 's \<Rightarrow> bool \<times> 's) \<Rightarrow> 's \<Rightarrow> 's" where
  "tree_overlap t rg visit s = snd (overlapWalk (it_root t) rg visit s)"

definition tree_all :: "'a intervalTree \<Rightarrow> ('a ientry \<Rightarrow> 's \<Rightarrow> bool \<times> 's) \<Rightarrow> 's \<Rightarrow> 's" where
  "tree_all t visit s = tree_overlap t \<lparr>lr_Start = 0, lr_End = MaxUint64\<rparr> visit s"

section \<open>Contents and invariants\<close>

fun ientries :: "'a intervalNode \<Rightarrow> 'a ientry list" where
  "ientries INil = []"
| "ientries (INode l e m r) = ientries l @ e # ientries r"

fun maxE :: "'a intervalNode \<Rightarrow> u64" where
  "maxE INil = 0"
| "maxE (INode l e m r) = m"

text \<open>Key order, exact augmentation, heap order of the priorities.\<close>

definition key_ordered :: "'a ientry list \<Rightarrow> bool" where
  "key_ordered es \<longleftrightarrow> sorted_wrt (<) (map ekey es)"

fun augmented :: "'a intervalNode \<Rightarrow> bool" where
  "augmented INil = True"
| "augmented (INode l e m r) =
     (m = max (ie_end e) (max (maxE l) (maxE r)) \<and> augmented l \<and> augmented r)"

fun heap_ordered :: "'a intervalNode \<Rightarrow> bool" where
  "heap_ordered INil = True"
| "heap_ordered (INode l e m r) =
     (ipriority l \<le> ie_priority e \<and> ipriority r \<le> ie_priority e \<and> heap_ordered l \<and> heap_ordered r)"

definition tree_entries :: "'a intervalTree \<Rightarrow> 'a ientry list" where
  "tree_entries t = ientries (it_root t)"

definition tree_invar :: "'a intervalTree \<Rightarrow> bool" where
  "tree_invar t \<longleftrightarrow>
     key_ordered (tree_entries t) \<and> augmented (it_root t) \<and> heap_ordered (it_root t) \<and>
     it_size t = int (length (tree_entries t))"

definition entry_range :: "'a ientry \<Rightarrow> LockRange" where
  "entry_range e = \<lparr>lr_Start = ie_start e, lr_End = ie_end e\<rparr>"

lemma key_ordered_append:
  "key_ordered (xs @ e # ys) \<longleftrightarrow>
     key_ordered xs \<and> key_ordered ys \<and>
     (\<forall>x \<in> set xs. ekey x < ekey e) \<and> (\<forall>y \<in> set ys. ekey e < ekey y)"
  by (auto simp: key_ordered_def sorted_wrt_append) (meson less_trans)

lemma key_ordered_distinct_keys: "key_ordered es \<Longrightarrow> distinct (map ekey es)"
  by (simp add: key_ordered_def strict_sorted_iff)

lemma key_ordered_distinct: "key_ordered es \<Longrightarrow> distinct es"
  using key_ordered_distinct_keys distinct_map by blast

lemma key_ordered_inj: "key_ordered es \<Longrightarrow> inj_on ekey (set es)"
  using key_ordered_distinct_keys distinct_map by blast

section \<open>Updates keep the invariants\<close>

lemma ientries_iupdate [simp]: "ientries (iupdate n) = ientries n"
  by (cases n) (auto simp: Let_def)

lemma ipriority_iupdate [simp]: "ipriority (iupdate n) = ipriority n"
  by (cases n) (auto simp: Let_def)

lemma maxE_iupdate [simp]:
  "maxE (iupdate (INode l e m r)) = max (ie_end e) (max (maxE l) (maxE r))"
  by (cases l; cases r) (auto simp: Let_def max_def)

lemma augmented_iupdate [simp]:
  "augmented (iupdate (INode l e m r)) \<longleftrightarrow> augmented l \<and> augmented r"
  by (cases l; cases r) (auto simp: Let_def max_def)

lemma heap_ordered_iupdate [simp]:
  "heap_ordered (iupdate (INode l e m r)) \<longleftrightarrow> heap_ordered (INode l e m r)"
  by (cases l; cases r) (auto simp: Let_def)

lemma iupdate_idem [simp]: "iupdate (iupdate n) = iupdate n"
  by (cases n) (auto simp: Let_def)

lemma iupdate_not_nil [simp]: "iupdate n = INil \<longleftrightarrow> n = INil"
  by (cases n) (auto simp: Let_def)

declare iupdate.simps(2) [simp del]

lemma ientries_rotateRight [simp]: "ientries (rotateIntervalRight n) = ientries n"
  by (cases n rule: rotateIntervalRight.cases) auto

lemma ientries_rotateLeft [simp]: "ientries (rotateIntervalLeft n) = ientries n"
  by (cases n rule: rotateIntervalLeft.cases) auto

lemma mset_insertInterval: "mset (ientries (insertInterval n f)) = add_mset f (mset (ientries n))"
  by (induction n) (auto simp: Let_def)

lemma set_insertInterval: "set (ientries (insertInterval n f)) = insert f (set (ientries n))"
  using mset_insertInterval [of n f] by (metis set_mset_add_mset_insert set_mset_mset)

lemma insertInterval_not_nil [simp]: "insertInterval n f \<noteq> INil"
  using set_insertInterval [of n f] by force

lemma key_ordered_insertInterval:
  assumes "key_ordered (ientries n)" "ekey f \<notin> ekey ` set (ientries n)"
  shows "key_ordered (ientries (insertInterval n f))"
  using assms
proof (induction n)
  case INil
  then show ?case by (simp add: key_ordered_def)
next
  case (INode l e m r)
  have less: "intervalKeyLess (ie_start f) (ie_end f) (ie_id f) (ie_start e) (ie_end e) (ie_id e) \<longleftrightarrow>
      ekey f < ekey e"
    by (simp add: less_ikey_def ekey_def)
  have ne: "ekey f \<noteq> ekey e" using INode.prems(2) by auto
  show ?case
  proof (cases "ekey f < ekey e")
    case True
    then have "ientries (insertInterval (INode l e m r) f) = ientries (insertInterval l f) @ e # ientries r"
      by (simp add: less Let_def)
    then show ?thesis using INode True by (auto simp: key_ordered_append set_insertInterval)
  next
    case False
    then have "ientries (insertInterval (INode l e m r) f) = ientries l @ e # ientries (insertInterval r f)"
      by (simp add: less Let_def)
    moreover have "ekey e < ekey f" using False ne by (metis linorder_neqE)
    ultimately show ?thesis using INode by (auto simp: key_ordered_append set_insertInterval)
  qed
qed

lemma augmented_rotateRight: "augmented l \<Longrightarrow> augmented r \<Longrightarrow> l \<noteq> INil \<Longrightarrow>
    augmented (rotateIntervalRight (INode l e m r))"
  by (cases l) auto

lemma augmented_rotateLeft: "augmented l \<Longrightarrow> augmented r \<Longrightarrow> r \<noteq> INil \<Longrightarrow>
    augmented (rotateIntervalLeft (INode l e m r))"
  by (cases r) auto

lemma augmented_iupdate_any: "augmented n \<Longrightarrow> augmented (iupdate n)"
  by (cases n) auto

lemma augmented_insertInterval: "augmented n \<Longrightarrow> augmented (insertInterval n f)"
proof (induction n)
  case INil
  then show ?case by simp
next
  case (INode l e m r)
  then have "augmented l" "augmented r" "augmented (insertInterval l f)" "augmented (insertInterval r f)"
    by simp_all
  then have LR: "augmented (iupdate (if c then rotateIntervalRight (INode (insertInterval l f) e m r)
                               else INode (insertInterval l f) e m r))"
    and RL: "augmented (iupdate (if c then rotateIntervalLeft (INode l e m (insertInterval r f))
                               else INode l e m (insertInterval r f)))" for c
    by (simp_all add: augmented_iupdate_any augmented_rotateRight augmented_rotateLeft)
  show ?case
    by (cases "intervalKeyLess (ie_start f) (ie_end f) (ie_id f) (ie_start e) (ie_end e) (ie_id e)")
       (simp_all only: insertInterval.simps Let_def if_True if_False LR RL)
qed

text \<open>
  Heap order: a rotation happens only when the fresh entry has reached the root of a child,
  and then both subtrees of that child are bounded by the priority the child had before.
\<close>

fun child_priority :: "'a intervalNode \<Rightarrow> u64" where
  "child_priority INil = 0"
| "child_priority (INode l e m r) = max (ipriority l) (ipriority r)"

lemma child_priority_iupdate [simp]: "child_priority (iupdate n) = child_priority n"
  by (cases n) (auto simp: iupdate.simps Let_def)

lemma heap_ordered_child: "heap_ordered n \<Longrightarrow> child_priority n \<le> ipriority n"
  by (cases n) auto

lemma heap_rotateRight:
  assumes "heap_ordered l" "heap_ordered r" "l \<noteq> INil" "ie_priority e < ipriority l"
    "child_priority l \<le> ie_priority e" "ipriority r \<le> ie_priority e"
  shows "heap_ordered (rotateIntervalRight (INode l e m r)) \<and>
         child_priority (rotateIntervalRight (INode l e m r)) \<le> ie_priority e \<and>
         ipriority (rotateIntervalRight (INode l e m r)) = ipriority l"
  using assms by (cases l) auto

lemma heap_rotateLeft:
  assumes "heap_ordered l" "heap_ordered r" "r \<noteq> INil" "ie_priority e < ipriority r"
    "child_priority r \<le> ie_priority e" "ipriority l \<le> ie_priority e"
  shows "heap_ordered (rotateIntervalLeft (INode l e m r)) \<and>
         child_priority (rotateIntervalLeft (INode l e m r)) \<le> ie_priority e \<and>
         ipriority (rotateIntervalLeft (INode l e m r)) = ipriority r"
  using assms by (cases r) auto

lemma heap_ordered_iupdate_any [simp]: "heap_ordered (iupdate n) \<longleftrightarrow> heap_ordered n"
  by (cases n) auto

lemma heap_insertInterval_aux:
  assumes "heap_ordered n"
  shows "heap_ordered (insertInterval n f) \<and>
         (ipriority (insertInterval n f) = ipriority n \<or> child_priority (insertInterval n f) \<le> ipriority n)"
  using assms
proof (induction n)
  case INil
  then show ?case by simp
next
  case (INode l e m r)
  let ?l = "insertInterval l f" and ?r = "insertInterval r f"
  have pr: "ipriority l \<le> ie_priority e" "ipriority r \<le> ie_priority e" "heap_ordered l" "heap_ordered r"
    using INode.prems by simp_all
  note L = INode.IH(1) [OF pr(3)] and R = INode.IH(2) [OF pr(4)]
  have "heap_ordered (rotateIntervalRight (INode ?l e m r)) \<and>
        child_priority (rotateIntervalRight (INode ?l e m r)) \<le> ie_priority e"
    if "ie_priority e < ipriority ?l"
    using that L pr heap_rotateRight [of ?l r e m] by force
  moreover have "heap_ordered (rotateIntervalLeft (INode l e m ?r)) \<and>
        child_priority (rotateIntervalLeft (INode l e m ?r)) \<le> ie_priority e"
    if "ie_priority e < ipriority ?r"
    using that R pr heap_rotateLeft [of l ?r e m] by force
  ultimately show ?case
    using L R pr by (auto simp: Let_def not_less)
qed

lemma heap_ordered_insertInterval: "heap_ordered n \<Longrightarrow> heap_ordered (insertInterval n f)"
  using heap_insertInterval_aux by blast

lemma tree_insert_invar:
  assumes "tree_invar t" "IKey a b i \<notin> ekey ` set (tree_entries t)"
  shows "tree_invar (tree_insert a b i v t)"
proof -
  let ?f = "fresh_entry a b i v"
  have "length (ientries (insertInterval (it_root t) ?f)) = Suc (length (ientries (it_root t)))"
    using mset_insertInterval [of "it_root t" ?f] by (metis size_add_mset size_mset)
  moreover have "key_ordered (ientries (insertInterval (it_root t) ?f))"
    using assms by (intro key_ordered_insertInterval) (simp_all add: tree_invar_def tree_entries_def ekey_def fresh_entry_def)
  ultimately show ?thesis
    using assms(1)
    by (simp add: tree_invar_def tree_insert_def tree_entries_def augmented_insertInterval
          heap_ordered_insertInterval Let_def)
qed

section \<open>Removal\<close>

lemma ientries_mergeIntervals [simp]: "ientries (mergeIntervals a b) = ientries a @ ientries b"
  by (induction a b rule: mergeIntervals.induct) auto

lemma augmented_mergeIntervals: "augmented a \<Longrightarrow> augmented b \<Longrightarrow> augmented (mergeIntervals a b)"
  by (induction a b rule: mergeIntervals.induct) auto

lemma ipriority_mergeIntervals: "ipriority (mergeIntervals a b) = max (ipriority a) (ipriority b)"
  by (induction a b rule: mergeIntervals.induct) (auto simp: max_def)

lemma heap_ordered_mergeIntervals:
  "heap_ordered a \<Longrightarrow> heap_ordered b \<Longrightarrow> heap_ordered (mergeIntervals a b)"
  by (induction a b rule: mergeIntervals.induct) (auto simp: ipriority_mergeIntervals)

lemma augmented_removeInterval: "augmented n \<Longrightarrow> augmented (fst (removeInterval n a b i))"
  by (induction n) (auto simp: augmented_mergeIntervals split: prod.splits)

lemma heap_removeInterval_aux:
  "heap_ordered n \<Longrightarrow> heap_ordered (fst (removeInterval n a b i)) \<and>
     ipriority (fst (removeInterval n a b i)) \<le> ipriority n"
proof (induction n)
  case INil
  then show ?case by simp
next
  case (INode l e m r)
  then show ?case
    by (auto simp: heap_ordered_mergeIntervals ipriority_mergeIntervals split: prod.splits)
qed

lemma removeInterval_spec:
  assumes "key_ordered (ientries n)"
  shows "ientries (fst (removeInterval n a b i)) = filter (\<lambda>e. ekey e \<noteq> IKey a b i) (ientries n) \<and>
         (snd (removeInterval n a b i) \<longleftrightarrow> IKey a b i \<in> ekey ` set (ientries n))"
  using assms
proof (induction n)
  case INil
  then show ?case by simp
next
  case (INode l e m r)
  let ?k = "IKey a b i"
  have lo: "ekey x < ekey e" if "x \<in> set (ientries l)" for x
    using INode.prems that by (auto simp: key_ordered_append)
  have hi: "ekey e < ekey x" if "x \<in> set (ientries r)" for x
    using INode.prems that by (auto simp: key_ordered_append)
  have ord: "key_ordered (ientries l)" "key_ordered (ientries r)"
    using INode.prems by (auto simp: key_ordered_append)
  note IH = INode.IH(1) [OF ord(1)] INode.IH(2) [OF ord(2)]
  have less: "intervalKeyLess a b i (ie_start e) (ie_end e) (ie_id e) \<longleftrightarrow> ?k < ekey e"
    by (simp add: less_ikey_def ekey_def)
  have same: "ie_start e = a \<and> ie_end e = b \<and> ie_id e = i \<longleftrightarrow> ekey e = ?k"
    by (simp add: ekey_def)
  have keep: "filter (\<lambda>x. ekey x \<noteq> ?k) xs = xs \<and> ?k \<notin> ekey ` set xs"
    if "\<And>x. x \<in> set xs \<Longrightarrow> ekey x \<noteq> ?k" for xs :: "'a ientry list"
    using that by (metis (mono_tags, lifting) filter_True imageE)
  consider (eq) "?k = ekey e" | (lt) "?k < ekey e" | (gt) "ekey e < ?k"
    by (rule linorder_cases [of ?k "ekey e"])
  then show ?case
  proof cases
    case eq
    have "filter (\<lambda>x. ekey x \<noteq> ?k) (ientries l) = ientries l"
      "filter (\<lambda>x. ekey x \<noteq> ?k) (ientries r) = ientries r"
      using keep lo hi eq by (metis order_less_irrefl)+
    then show ?thesis using eq same by simp
  next
    case lt
    then have "filter (\<lambda>x. ekey x \<noteq> ?k) (ientries r) = ientries r \<and> ?k \<notin> ekey ` set (ientries r)"
      using keep hi by (metis less_trans order_less_irrefl)
    moreover have "ekey e \<noteq> ?k" using lt by auto
    ultimately show ?thesis using lt IH less same by (auto split: prod.splits)
  next
    case gt
    then have "filter (\<lambda>x. ekey x \<noteq> ?k) (ientries l) = ientries l \<and> ?k \<notin> ekey ` set (ientries l)"
      using keep lo by (metis less_trans order_less_irrefl)
    moreover have "\<not> ?k < ekey e" "ekey e \<noteq> ?k" using gt by auto
    ultimately show ?thesis using IH less same by (auto split: prod.splits)
  qed
qed

lemma key_ordered_filter: "key_ordered es \<Longrightarrow> key_ordered (filter P es)"
  by (simp add: key_ordered_def sorted_wrt_map sorted_wrt_filter)

lemma tree_remove_alt:
  "tree_remove a b i t =
     (let rm = removeInterval (it_root t) a b i
      in (t\<lparr>it_root := fst rm, it_size := (if snd rm then it_size t - 1 else it_size t)\<rparr>, snd rm))"
  by (simp add: tree_remove_def Let_def case_prod_unfold)

lemma tree_remove_entries:
  assumes "tree_invar t"
  shows "tree_entries (fst (tree_remove a b i t)) = filter (\<lambda>e. ekey e \<noteq> IKey a b i) (tree_entries t)"
    and "snd (tree_remove a b i t) \<longleftrightarrow> IKey a b i \<in> ekey ` set (tree_entries t)"
  using removeInterval_spec [of "it_root t" a b i] assms
  by (simp_all add: tree_remove_alt tree_entries_def tree_invar_def Let_def)

lemma length_filter_key:
  assumes "key_ordered es" "k \<in> ekey ` set es"
  shows "length (filter (\<lambda>e. ekey e \<noteq> k) es) = length es - 1"
  using length_filter_neq_key [OF key_ordered_distinct_keys] assms by blast

lemma tree_remove_invar:
  assumes "tree_invar t"
  shows "tree_invar (fst (tree_remove a b i t))"
proof -
  let ?n = "it_root t" and ?k = "IKey a b i"
  note spec = removeInterval_spec [of ?n a b i]
  have ord: "key_ordered (ientries ?n)" using assms by (simp add: tree_invar_def tree_entries_def)
  have "it_size (fst (tree_remove a b i t)) = int (length (tree_entries (fst (tree_remove a b i t))))"
  proof (cases "?k \<in> ekey ` set (ientries ?n)")
    case True
    then have "1 \<le> length (ientries ?n)" by (cases "ientries ?n") auto
    with True show ?thesis
      using assms spec [OF ord] length_filter_key [OF ord True]
      by (simp add: tree_invar_def tree_remove_alt tree_entries_def Let_def of_nat_diff)
  next
    case False
    then have "filter (\<lambda>e. ekey e \<noteq> ?k) (ientries ?n) = ientries ?n"
      by (metis (mono_tags, lifting) filter_True imageI)
    with False show ?thesis
      using assms spec [OF ord]
      by (simp add: tree_invar_def tree_remove_alt tree_entries_def Let_def)
  qed
  moreover have "key_ordered (tree_entries (fst (tree_remove a b i t)))"
    using tree_remove_entries(1) [OF assms] key_ordered_filter ord by (metis tree_entries_def)
  ultimately show ?thesis
    using assms augmented_removeInterval [of ?n a b i] heap_removeInterval_aux [of ?n a b i]
    by (simp add: tree_invar_def tree_remove_alt Let_def)
qed

section \<open>The pruned traversal\<close>

lemma maxE_bound: "augmented n \<Longrightarrow> e \<in> set (ientries n) \<Longrightarrow> ie_end e \<le> maxE n"
  by (induction n) (auto simp: le_max_iff_disj)

abbreviation meets :: "LockRange \<Rightarrow> 'a ientry \<Rightarrow> bool" where
  "meets rg e \<equiv> overlaps (entry_range e) rg"

lemma meets_iff: "meets rg e \<longleftrightarrow> ie_start e \<le> lr_End rg \<and> lr_Start rg \<le> ie_end e"
  by (simp add: overlaps_def entry_range_def)

text \<open>
  The traversal is a plain left-to-right fold over the entries that meet the range. Its
  first component may also be \<open>False\<close> because an entry beyond the range was seen; then no
  later entry can meet the range.
\<close>

lemma overlapWalk_node:
  "overlapWalk (INode l e m r) rg visit s =
     (if m < lr_Start rg then (True, s)
      else let L = overlapWalk l rg visit s; s1 = snd L in
        if \<not> fst L then (False, s1)
        else if lr_End rg < ie_start e then (False, s1)
        else if lr_Start rg \<le> ie_end e
        then (if fst (visit e s1) then overlapWalk r rg visit (snd (visit e s1))
              else (False, snd (visit e s1)))
        else overlapWalk r rg visit s1)"
  by (cases "overlapWalk l rg visit s"; cases "visit e (snd (overlapWalk l rg visit s))")
     (auto split: bool.splits)

lemma overlapWalk_spec:
  assumes "augmented n" "key_ordered (ientries n)"
  shows "snd (overlapWalk n rg visit s) = snd (fold_until visit (filter (meets rg) (ientries n)) s) \<and>
         (if fst (overlapWalk n rg visit s)
          then fst (fold_until visit (filter (meets rg) (ientries n)) s)
          else \<not> fst (fold_until visit (filter (meets rg) (ientries n)) s) \<or>
               (\<exists>e \<in> set (ientries n). lr_End rg < ie_start e))"
  using assms
proof (induction n arbitrary: s)
  case INil
  then show ?case by simp
next
  case (INode l e m r)
  let ?f = "filter (meets rg)"
  let ?L = "overlapWalk l rg visit s"
  have sub: "augmented l" "augmented r" "key_ordered (ientries l)" "key_ordered (ientries r)"
    using INode.prems by (auto simp: key_ordered_append)
  note IHl = INode.IH(1) [OF sub(1,3), of s]
  have later: "ie_start x \<le> ie_start y"
    if "x \<in> set (ientries l)" "y \<in> insert e (set (ientries r))" for x y
  proof -
    have "ekey x < ekey y" using INode.prems that by (auto simp: key_ordered_append dest: less_trans)
    then show ?thesis using ikey_less_start by (fastforce simp: ekey_def)
  qed
  have laterr: "ie_start e \<le> ie_start y" if "y \<in> set (ientries r)" for y
  proof -
    have "ekey e < ekey y" using INode.prems that by (auto simp: key_ordered_append)
    then show ?thesis using ikey_less_start by (fastforce simp: ekey_def)
  qed
  show ?case
  proof (cases "m < lr_Start rg")
    case True
    then have "?f (ientries (INode l e m r)) = []"
      using maxE_bound [OF INode.prems(1)] by (intro filter_none_if) (fastforce simp: meets_iff)
    with True show ?thesis by simp
  next
    case nprune: False
    show ?thesis
    proof (cases "fst ?L")
      case False
      then have ret: "overlapWalk (INode l e m r) rg visit s = (False, snd ?L)"
        using nprune by (simp add: overlapWalk_node Let_def del: overlapWalk.simps)
      show ?thesis
      proof (cases "fst (fold_until visit (?f (ientries l)) s)")
        case True
        with False IHl obtain x where "x \<in> set (ientries l)" "lr_End rg < ie_start x" by auto
        then have "?f (e # ientries r) = []"
          using later by (intro filter_none_if) (fastforce simp: meets_iff)
        then show ?thesis
          using ret IHl \<open>x \<in> set (ientries l)\<close> \<open>lr_End rg < ie_start x\<close> by auto
      next
        case stop: False
        then show ?thesis
          using ret IHl by (simp add: fold_until_append case_prod_unfold)
      qed
    next
      case True
      then have goon: "fst (fold_until visit (?f (ientries l)) s)" using IHl by simp
      let ?s1 = "snd ?L"
      have s1: "snd (fold_until visit (?f (ientries l)) s) = ?s1" using IHl by simp
      have step: "fold_until visit (?f (ientries (INode l e m r))) s =
          fold_until visit (?f (e # ientries r)) ?s1"
        using goon s1 by (simp add: fold_until_append case_prod_unfold)
      have walk: "overlapWalk (INode l e m r) rg visit s =
          (if lr_End rg < ie_start e then (False, ?s1)
           else if lr_Start rg \<le> ie_end e
           then (if fst (visit e ?s1) then overlapWalk r rg visit (snd (visit e ?s1))
                 else (False, snd (visit e ?s1)))
           else overlapWalk r rg visit ?s1)"
        using nprune True by (simp add: overlapWalk_node Let_def del: overlapWalk.simps)
      show ?thesis
      proof (cases "lr_End rg < ie_start e")
        case True
        then have "?f (e # ientries r) = []"
          using laterr by (intro filter_none_if) (fastforce simp: meets_iff)
        then show ?thesis using step walk True by simp
      next
        case near: False
        show ?thesis
        proof (cases "lr_Start rg \<le> ie_end e \<and> \<not> fst (visit e ?s1)")
          case True
          then have "fold_until visit (?f (e # ientries r)) ?s1 = (False, snd (visit e ?s1))"
            using near by (simp add: meets_iff case_prod_unfold not_less)
          with step have f: "fold_until visit (?f (ientries (INode l e m r))) s = (False, snd (visit e ?s1))"
            by simp
          have w: "overlapWalk (INode l e m r) rg visit s = (False, snd (visit e ?s1))"
            using walk near True by (simp del: overlapWalk.simps)
          show ?thesis unfolding w f by simp
        next
          case False
          let ?s2 = "if lr_Start rg \<le> ie_end e then snd (visit e ?s1) else ?s1"
          have w: "overlapWalk (INode l e m r) rg visit s = overlapWalk r rg visit ?s2"
            using walk near False by (simp del: overlapWalk.simps)
          have "fold_until visit (?f (e # ientries r)) ?s1 = fold_until visit (?f (ientries r)) ?s2"
            using near False by (simp add: meets_iff case_prod_unfold not_less)
          with step have f: "fold_until visit (?f (ientries (INode l e m r))) s =
              fold_until visit (?f (ientries r)) ?s2" by simp
          show ?thesis
            unfolding w f using INode.IH(2) [OF sub(2,4), of ?s2] by (simp split: if_splits) blast+
        qed
      qed
    qed
  qed
qed

lemma tree_overlap_spec:
  assumes "tree_invar t"
  shows "tree_overlap t rg visit s = snd (fold_until visit (filter (meets rg) (tree_entries t)) s)"
  using overlapWalk_spec [of "it_root t" rg visit s] assms
  by (simp add: tree_overlap_def tree_invar_def tree_entries_def)

lemma tree_all_spec:
  assumes "tree_invar t"
  shows "tree_all t visit s = snd (fold_until visit (tree_entries t) s)"
  using assms by (simp add: tree_all_def tree_overlap_spec meets_iff filter_id_if_all)

lemma tree_overlap_collect:
  assumes "tree_invar t"
  shows "tree_overlap t rg (\<lambda>n acc. (True, if P n then acc @ [f n] else acc)) [] =
           map f (filter (\<lambda>e. meets rg e \<and> P e) (tree_entries t))"
  using assms by (simp add: tree_overlap_spec fold_until_collect conj_commute)

lemma tree_overlap_find:
  assumes "tree_invar t"
  shows "tree_overlap t rg (\<lambda>n found. if P n then (False, Some (f n)) else (True, found)) None =
           map_option f (find P (filter (meets rg) (tree_entries t)))"
  using assms by (simp add: tree_overlap_spec fold_until_find)

section \<open>The index contract\<close>

text \<open>
  What the lock table relies on: an index holds a key-ordered list of entries, insertion
  of a fresh key adds exactly one entry, removal of a key drops exactly the entry with that
  key and reports whether there was one.
\<close>

locale interval_index =
  fixes entries :: "'t \<Rightarrow> 'a ientry list"
    and invar :: "'t \<Rightarrow> bool"
    and ins :: "u64 \<Rightarrow> u64 \<Rightarrow> nat \<Rightarrow> 'a \<Rightarrow> 't \<Rightarrow> 't"
    and rem :: "u64 \<Rightarrow> u64 \<Rightarrow> nat \<Rightarrow> 't \<Rightarrow> 't \<times> bool"
  assumes ordered: "invar t \<Longrightarrow> key_ordered (entries t)"
    and set_ins: "set (entries (ins a b i v t)) = insert (fresh_entry a b i v) (set (entries t))"
    and invar_ins: "invar t \<Longrightarrow> IKey a b i \<notin> ekey ` set (entries t) \<Longrightarrow> invar (ins a b i v t)"
    and entries_rem: "invar t \<Longrightarrow> entries (fst (rem a b i t)) = filter (\<lambda>e. ekey e \<noteq> IKey a b i) (entries t)"
    and found_rem: "invar t \<Longrightarrow> snd (rem a b i t) \<longleftrightarrow> IKey a b i \<in> ekey ` set (entries t)"
    and invar_rem: "invar t \<Longrightarrow> invar (fst (rem a b i t))"
begin

lemma set_rem_entry:
  assumes "invar t" "e \<in> set (entries t)"
  shows "set (entries (fst (rem (ie_start e) (ie_end e) (ie_id e) t))) = set (entries t) - {e}"
    and "snd (rem (ie_start e) (ie_end e) (ie_id e) t)"
proof -
  have "ekey x = ekey e \<longleftrightarrow> x = e" if "x \<in> set (entries t)" for x
    using key_ordered_inj [OF ordered [OF assms(1)]] assms(2) that by (auto dest: inj_onD)
  then show "set (entries (fst (rem (ie_start e) (ie_end e) (ie_id e) t))) = set (entries t) - {e}"
    unfolding entries_rem [OF assms(1)] by (auto simp flip: ekey_def)
  show "snd (rem (ie_start e) (ie_end e) (ie_id e) t)"
    using assms(2) by (simp add: found_rem [OF assms(1)] flip: ekey_def)
qed

lemma rem_all:
  assumes "invar t" "set es \<subseteq> set (entries t)" "distinct es"
  shows "invar (fold (\<lambda>e t. fst (rem (ie_start e) (ie_end e) (ie_id e) t)) es t) \<and>
         set (entries (fold (\<lambda>e t. fst (rem (ie_start e) (ie_end e) (ie_id e) t)) es t)) =
           set (entries t) - set es"
  using assms
proof (induction es arbitrary: t)
  case Nil
  then show ?case by simp
next
  case (Cons e es)
  let ?t = "fst (rem (ie_start e) (ie_end e) (ie_id e) t)"
  have "set (entries ?t) = set (entries t) - {e}"
    using Cons.prems by (intro set_rem_entry) auto
  moreover have "invar ?t" using Cons.prems by (intro invar_rem)
  ultimately show ?case using Cons.IH [of ?t] Cons.prems by auto
qed

lemma length_rem_entry:
  assumes "invar t" "e \<in> set (entries t)"
  shows "length (entries (fst (rem (ie_start e) (ie_end e) (ie_id e) t))) = length (entries t) - 1"
  using assms length_filter_key [OF ordered [OF assms(1)], of "ekey e"]
  by (simp add: entries_rem ekey_def)

lemma card_entries: "invar t \<Longrightarrow> card (set (entries t)) = length (entries t)"
  using ordered key_ordered_distinct distinct_card by blast

end

interpretation treap: interval_index tree_entries tree_invar tree_insert tree_remove
proof
  fix t :: "'a intervalTree" and a b i v
  show "tree_invar t \<Longrightarrow> key_ordered (tree_entries t)" by (simp add: tree_invar_def)
  show "set (tree_entries (tree_insert a b i v t)) = insert (fresh_entry a b i v) (set (tree_entries t))"
    by (simp add: tree_entries_def tree_insert_def set_insertInterval)
qed (simp_all add: tree_insert_invar tree_remove_entries tree_remove_invar)

lemma tree_empty [simp]: "tree_entries empty_tree = []" "tree_invar empty_tree"
  by (simp_all add: tree_entries_def empty_tree_def tree_invar_def key_ordered_def)

section \<open>Properties\<close>

text \<open>
  C14. The pruned overlap walk is exact: on a well-formed tree it visits every entry whose
  range meets the query, no other entry, each once and in key order.
\<close>

theorem overlap_walk_exact:
  assumes "tree_invar t"
  shows "tree_overlap t rg (\<lambda>n acc. (True, acc @ [n])) [] =
           filter (\<lambda>e. ie_start e \<le> lr_End rg \<and> lr_Start rg \<le> ie_end e) (tree_entries t)"
  using tree_overlap_collect [OF assms, of rg "\<lambda>_. True" "\<lambda>n. n"] by (simp add: meets_iff)

theorem overlap_walk_exact_witness:
  "tree_overlap (tree_insert 5 9 1 (7 :: nat) empty_tree) \<lparr>lr_Start = 8, lr_End = 20\<rparr>
     (\<lambda>n acc. (True, acc @ [n])) [] = [fresh_entry 5 9 1 7]"
proof -
  let ?t = "tree_insert 5 9 1 (7 :: nat) empty_tree"
  have inv: "tree_invar ?t" by (rule tree_insert_invar) simp_all
  have entries: "tree_entries ?t = [fresh_entry 5 9 1 7]"
    by (simp add: tree_insert_def empty_tree_def tree_entries_def)
  show ?thesis unfolding overlap_walk_exact [OF inv] entries by (simp add: fresh_entry_def)
qed

end
