(* ===== verification/Lock_Plan.thy ===== *)
theory Lock_Plan
  imports Interval_Tree
begin

text \<open>
  The queries and mutation plans of the lock table, \<^verbatim>\<open>src/vcs/internal/volumeserver/locks.go\<close> lines 280-298 and
  665-854. A plan is computed before anything is touched: which records of the owner go,
  which come, which bytes change and whether coverage may weaken. The lemmas show that the
  acquire plan is POSIX replacement (the owner's mode becomes the requested one on exactly
  the requested bytes, everybody else's is unchanged), that the release plan clears exactly
  the released bytes, and that both keep the records of one object in canonical form:
  records of one owner are disjoint, records of one owner and mode never touch, and records
  of different owners never conflict.
\<close>

section \<open>Objects\<close>

text \<open>
  A waiter's immutable part. Its \<open>settled\<close> and \<open>err\<close> fields, which the table mutates through
  the pointer, are kept by the table under the waiter's sequence number. A waiter's session
  pointer is the session's identity: waiters are only queued while that session is
  registered.
\<close>

record lockWaiter =
  w_lock :: Lock
  w_seq :: nat
  w_session :: SessionID

record objectLocks =
  o_held :: "Lock intervalTree"
  o_waiting :: "lockWaiter intervalTree"

definition empty_object :: objectLocks where
  "empty_object = \<lparr>o_held = empty_tree, o_waiting = empty_tree\<rparr>"

section \<open>Queries\<close>

text \<open>A nil \<open>*objectLocks\<close> is \<open>None\<close>.\<close>

definition conflictLocked :: "objectLocks option \<Rightarrow> Lock \<Rightarrow> Lock option" where
  "conflictLocked ob want =
     (case ob of
        None \<Rightarrow> None
      | Some o1 \<Rightarrow>
          tree_overlap (o_held o1) (lk_Range want)
            (\<lambda>n found. if conflicts want (ie_value n) then (False, Some (ie_value n)) else (True, found))
            None)"

fun subtractFrom :: "u64 \<Rightarrow> LockRange \<Rightarrow> LockRange list \<Rightarrow> LockRange list" where
  "subtractFrom cursor r [] =
     (if cursor \<le> lr_End r then [\<lparr>lr_Start = cursor, lr_End = lr_End r\<rparr>] else [])"
| "subtractFrom cursor r (c # cs) =
     (if lr_End c < cursor then subtractFrom cursor r cs
      else (if lr_Start c > cursor then [\<lparr>lr_Start = cursor, lr_End = lr_Start c - 1\<rparr>] else []) @
           (if lr_End c \<ge> lr_End r then [] else subtractFrom (lr_End c + 1) r cs))"

definition subtractCoverage :: "LockRange \<Rightarrow> LockRange list \<Rightarrow> LockRange list" where
  "subtractCoverage r covered = subtractFrom (lr_Start r) r covered"

definition residualLocked :: "objectLocks option \<Rightarrow> Lock \<Rightarrow> LockRange list" where
  "residualLocked ob lock =
     (case ob of
        None \<Rightarrow> [lk_Range lock]
      | Some o1 \<Rightarrow>
          let covered =
            tree_overlap (o_held o1) (lk_Range lock)
              (\<lambda>n acc. (True,
                 if lk_Owner (ie_value n) = lk_Owner lock \<and> satisfies (lk_Type (ie_value n)) (lk_Type lock)
                 then acc @ [lk_Range (ie_value n)] else acc))
              []
          in subtractCoverage (lk_Range lock) covered)"

fun queuedAheadSegments ::
  "lockWaiter intervalTree \<Rightarrow> Lock \<Rightarrow> LockRange list \<Rightarrow> int \<Rightarrow> lockWaiter option" where
  "queuedAheadSegments waiting lock [] before = None"
| "queuedAheadSegments waiting lock (segment # segments) before =
     (let probe = lock\<lparr>lk_Range := segment\<rparr>;
          found = tree_overlap waiting segment
            (\<lambda>n found. if int (w_seq (ie_value n)) < before \<and> conflicts probe (w_lock (ie_value n))
                       then (False, Some (ie_value n)) else (True, found))
            None
      in case found of
           Some w \<Rightarrow> Some w
         | None \<Rightarrow> queuedAheadSegments waiting lock segments before)"

definition queuedAheadLocked ::
  "objectLocks option \<Rightarrow> Lock \<Rightarrow> LockRange list \<Rightarrow> int \<Rightarrow> lockWaiter option" where
  "queuedAheadLocked ob lock residual before =
     (case ob of
        None \<Rightarrow> None
      | Some o1 \<Rightarrow>
          if it_size (o_waiting o1) = 0 then None
          else queuedAheadSegments (o_waiting o1) lock residual before)"

definition waiterEligibleLocked :: "objectLocks option \<Rightarrow> lockWaiter \<Rightarrow> bool" where
  "waiterEligibleLocked ob w =
     (if conflictLocked ob (w_lock w) \<noteq> None then False
      else let residual = residualLocked ob (w_lock w)
           in if residual = [] then True
              else queuedAheadLocked ob (w_lock w) residual (int (w_seq w)) = None)"

section \<open>Plans\<close>

record lockPlan =
  p_remove :: "Lock ientry list"
  p_insert :: "Lock list"
  p_touched :: LockRange
  p_weakens :: bool

text \<open>The scan over the owner's neighbouring records, and the records it keeps.\<close>

definition acquire_affects :: "Lock \<Rightarrow> Lock \<Rightarrow> bool" where
  "acquire_affects next held \<longleftrightarrow>
     overlaps (lk_Range held) (lk_Range next) \<or>
     (lk_Type held = lk_Type next \<and> adjacent (lk_Range held) (lk_Range next))"

fun acquireScan :: "Lock \<Rightarrow> Lock ientry list \<Rightarrow> lockPlan \<times> Lock list \<Rightarrow> lockPlan \<times> Lock list" where
  "acquireScan next [] (plan, keep) = (plan, keep)"
| "acquireScan next (n # ns) (plan, keep) =
     (let held = ie_value n in
      if \<not> acquire_affects next held then acquireScan next ns (plan, keep)
      else
        let plan1 = plan\<lparr>p_remove := p_remove plan @ [n],
                         p_touched := coverRange (p_touched plan) (lk_Range held)\<rparr>
        in if overlaps (lk_Range held) (lk_Range next)
           then acquireScan next ns
                  (if lk_Type held = LockWrite \<and> lk_Type next = LockRead
                   then plan1\<lparr>p_weakens := True\<rparr> else plan1,
                   keep @ subtractLock held (lk_Range next))
           else acquireScan next ns (plan1, keep @ [held]))"

definition absorbs :: "Lock \<Rightarrow> Lock \<Rightarrow> bool" where
  "absorbs merged candidate \<longleftrightarrow>
     lk_Type candidate = lk_Type merged \<and>
     (overlaps (lk_Range candidate) (lk_Range merged) \<or> adjacent (lk_Range candidate) (lk_Range merged))"

fun absorbPass :: "Lock \<Rightarrow> Lock list \<Rightarrow> Lock \<times> Lock list \<times> bool" where
  "absorbPass merged [] = (merged, [], False)"
| "absorbPass merged (candidate # keep) =
     (if absorbs merged candidate
      then let (m, remaining, _) =
             absorbPass (merged\<lparr>lk_Range := coverRange (lk_Range merged) (lk_Range candidate)\<rparr>) keep
           in (m, remaining, True)
      else let (m, remaining, absorbed) = absorbPass merged keep
           in (m, candidate # remaining, absorbed))"

lemma absorbPass_length:
  "absorbPass merged keep = (m, remaining, absorbed) \<Longrightarrow>
     length remaining \<le> length keep \<and> (absorbed \<longrightarrow> length remaining < length keep)"
  by (induction merged keep arbitrary: m remaining absorbed rule: absorbPass.induct)
     (fastforce split: if_splits prod.splits)+

function absorbLoop :: "Lock \<Rightarrow> Lock list \<Rightarrow> Lock \<times> Lock list" where
  "absorbLoop merged keep =
     (case absorbPass merged keep of
        (m, remaining, absorbed) \<Rightarrow>
          if absorbed then absorbLoop m remaining else (m, remaining))"
  by pat_completeness auto
termination
  by (relation "measure (\<lambda>(merged, keep). length keep)") (auto dest!: absorbPass_length [OF sym])

declare absorbLoop.simps [simp del]

definition acquireQuery :: "LockRange \<Rightarrow> LockRange" where
  "acquireQuery r =
     (let q1 = (if lr_Start r > 0 then r\<lparr>lr_Start := lr_Start r - 1\<rparr> else r)
      in if lr_End q1 < MaxUint64 then q1\<lparr>lr_End := lr_End q1 + 1\<rparr> else q1)"

definition planAcquireLocked :: "objectLocks option \<Rightarrow> Lock \<Rightarrow> lockPlan" where
  "planAcquireLocked ob next =
     (let plan0 = \<lparr>p_remove = [], p_insert = [], p_touched = lk_Range next, p_weakens = False\<rparr>;
          (plan1, keep) =
            (case ob of
               None \<Rightarrow> (plan0, [])
             | Some o1 \<Rightarrow>
                 let candidates =
                   tree_overlap (o_held o1) (acquireQuery (lk_Range next))
                     (\<lambda>n acc. (True, if lk_Owner (ie_value n) = lk_Owner next then acc @ [n] else acc)) []
                 in acquireScan next candidates (plan0, []));
          (merged, remaining) = absorbLoop next keep
      in plan1\<lparr>p_insert := remaining @ [merged],
               p_touched := coverRange (p_touched plan1) (lk_Range merged)\<rparr>)"

fun releaseScan :: "LockRange \<Rightarrow> Lock ientry list \<Rightarrow> lockPlan \<Rightarrow> lockPlan" where
  "releaseScan r [] plan = plan"
| "releaseScan r (n # ns) plan =
     releaseScan r ns
       (plan\<lparr>p_remove := p_remove plan @ [n],
             p_touched := coverRange (p_touched plan) (lk_Range (ie_value n)),
             p_insert := p_insert plan @ subtractLock (ie_value n) r\<rparr>)"

definition planReleaseLocked :: "objectLocks option \<Rightarrow> LockOwner \<Rightarrow> LockRange \<Rightarrow> lockPlan" where
  "planReleaseLocked ob owner r =
     (let plan0 = \<lparr>p_remove = [], p_insert = [], p_touched = r, p_weakens = False\<rparr>
      in case ob of
           None \<Rightarrow> plan0
         | Some o1 \<Rightarrow>
             let candidates =
                   tree_overlap (o_held o1) r
                     (\<lambda>n acc. (True, if lk_Owner (ie_value n) = owner then acc @ [n] else acc)) [];
                 plan = releaseScan r candidates plan0
             in plan\<lparr>p_weakens := p_remove plan \<noteq> []\<rparr>)"

section \<open>Byte-level meaning of a record set\<close>

text \<open>The modes in which an owner covers a byte; canonical sets give at most one.\<close>

definition modes :: "Lock set \<Rightarrow> LockOwner \<Rightarrow> u64 \<Rightarrow> LockType set" where
  "modes L ow b = {lk_Type l | l. l \<in> L \<and> lk_Owner l = ow \<and> b \<in> bytes (lk_Range l)}"

definition touch :: "u64 set \<Rightarrow> u64 set \<Rightarrow> bool" where
  "touch A B \<longleftrightarrow> (\<exists>x \<in> A. x \<noteq> MaxUint64 \<and> x + 1 \<in> B) \<or> (\<exists>x \<in> B. x \<noteq> MaxUint64 \<and> x + 1 \<in> A)"

text \<open>How two distinct records of one object may coexist.\<close>

definition coexist :: "Lock \<Rightarrow> Lock \<Rightarrow> bool" where
  "coexist a b \<longleftrightarrow>
     (if lk_Owner a = lk_Owner b
      then bytes (lk_Range a) \<inter> bytes (lk_Range b) = {} \<and>
           (lk_Type a = lk_Type b \<longrightarrow> \<not> touch (bytes (lk_Range a)) (bytes (lk_Range b)))
      else \<not> conflicts a b)"

lemma modes_Un: "modes (A \<union> B) ow b = modes A ow b \<union> modes B ow b"
  by (auto simp: modes_def)

lemma modes_insert:
  "modes (insert l L) ow b =
     (if lk_Owner l = ow \<and> b \<in> bytes (lk_Range l) then insert (lk_Type l) (modes L ow b) else modes L ow b)"
  by (auto simp: modes_def)

lemma touch_sym: "touch A B \<longleftrightarrow> touch B A"
  by (auto simp: touch_def)

lemma touch_mono: "touch A B \<Longrightarrow> A \<subseteq> A' \<Longrightarrow> B \<subseteq> B' \<Longrightarrow> touch A' B'"
  unfolding touch_def by blast

lemma touch_Un: "touch (A \<union> B) C \<longleftrightarrow> touch A C \<or> touch B C"
  unfolding touch_def by blast

lemma coexist_sym: "coexist a b \<longleftrightarrow> coexist b a"
  by (auto simp: coexist_def conflicts_sym touch_sym)

lemma adjacent_touch:
  assumes "valid_range a" "valid_range b" "bytes a \<inter> bytes b = {}"
  shows "adjacent a b \<longleftrightarrow> touch (bytes a) (bytes b)"
proof -
  have dir: "lr_End a = x \<and> lr_Start b = x + 1"
    if "valid_range a" "valid_range b" "bytes a \<inter> bytes b = {}" "x \<in> bytes a" "x \<noteq> MaxUint64" "x + 1 \<in> bytes b"
    for a b x
  proof -
    have xs: "x < x + 1" using that(5) by (rule word_less_succ)
    have "x + 1 \<notin> bytes a" "x \<notin> bytes b" using that by blast+
    then have "lr_End a < x + 1" "x < lr_Start b"
      using that(4,6) xs by (auto simp: mem_bytes)
    moreover have "lr_End a \<le> x" using \<open>lr_End a < x + 1\<close> word_succ_le_iff_max [OF that(5), of "lr_End a"]
      by (metis leD leI)
    moreover have "x + 1 \<le> lr_Start b" using \<open>x < lr_Start b\<close> word_succ_le_iff_max [OF that(5)] by blast
    ultimately show ?thesis using that(4,6) by (auto simp: mem_bytes)
  qed
  show ?thesis
  proof
    assume "adjacent a b"
    then show "touch (bytes a) (bytes b)"
      using assms(1,2) unfolding adjacent_def touch_def valid_range_def
      by (metis mem_bytes order_refl)
  next
    assume "touch (bytes a) (bytes b)"
    then consider x where "x \<in> bytes a" "x \<noteq> MaxUint64" "x + 1 \<in> bytes b"
      | x where "x \<in> bytes b" "x \<noteq> MaxUint64" "x + 1 \<in> bytes a"
      unfolding touch_def by blast
    then show "adjacent a b"
      using dir [of a b] dir [of b a] assms by cases (auto simp: adjacent_def Int_commute)
  qed
qed

lemma conflicts_mono:
  assumes "conflicts u l" "bytes (lk_Range l) \<subseteq> bytes (lk_Range h)" "lk_Owner l = lk_Owner h"
    "lk_Type l = lk_Type h" "valid_range (lk_Range u)" "valid_range (lk_Range l)" "valid_range (lk_Range h)"
  shows "conflicts u h"
  using assms overlaps_bytes [of "lk_Range u" "lk_Range l"] overlaps_bytes [of "lk_Range u" "lk_Range h"]
  unfolding conflicts_def by auto

section \<open>The invariant of one object's records\<close>

definition held_ok :: "Lock intervalTree \<Rightarrow> bool" where
  "held_ok t \<longleftrightarrow>
     tree_invar t \<and>
     (\<forall>e \<in> set (tree_entries t). entry_range e = lk_Range (ie_value e) \<and> valid_range (entry_range e)) \<and>
     (\<forall>e1 \<in> set (tree_entries t). \<forall>e2 \<in> set (tree_entries t).
        e1 \<noteq> e2 \<longrightarrow> coexist (ie_value e1) (ie_value e2))"

definition held_locks :: "Lock intervalTree \<Rightarrow> Lock set" where
  "held_locks t = ie_value ` set (tree_entries t)"

text \<open>The records an object holds; a nil object holds none.\<close>

definition object_locks :: "objectLocks option \<Rightarrow> Lock set" where
  "object_locks ob = (case ob of None \<Rightarrow> {} | Some o1 \<Rightarrow> held_locks (o_held o1))"

definition object_held_ok :: "objectLocks option \<Rightarrow> bool" where
  "object_held_ok ob \<longleftrightarrow> (case ob of None \<Rightarrow> True | Some o1 \<Rightarrow> held_ok (o_held o1))"

lemma held_ok_empty [simp]: "held_ok empty_tree"
  by (simp add: held_ok_def)

lemma held_locks_empty [simp]: "held_locks empty_tree = {}"
  by (simp add: held_locks_def)

lemma held_okD:
  assumes "held_ok t"
  shows "tree_invar t"
    and "e \<in> set (tree_entries t) \<Longrightarrow> entry_range e = lk_Range (ie_value e)"
    and "e \<in> set (tree_entries t) \<Longrightarrow> valid_range (lk_Range (ie_value e))"
    and "e1 \<in> set (tree_entries t) \<Longrightarrow> e2 \<in> set (tree_entries t) \<Longrightarrow> e1 \<noteq> e2 \<Longrightarrow>
           coexist (ie_value e1) (ie_value e2)"
  using assms unfolding held_ok_def by metis+

text \<open>\<open>conflictLocked\<close> finds a conflicting record exactly when there is one.\<close>

lemma conflictLocked_held:
  assumes "held_ok (o_held o1)"
  shows "conflictLocked (Some o1) want =
           map_option ie_value (find (\<lambda>e. conflicts want (ie_value e))
             (filter (meets (lk_Range want)) (tree_entries (o_held o1))))"
  using held_okD(1) [OF assms] by (simp add: conflictLocked_def tree_overlap_find)

lemma conflictLocked_None_iff:
  assumes "object_held_ok ob"
  shows "conflictLocked ob want = None \<longleftrightarrow> (\<forall>l \<in> object_locks ob. \<not> conflicts want l)"
proof (cases ob)
  case None
  then show ?thesis by (simp add: conflictLocked_def object_locks_def)
next
  case (Some o1)
  then have ok: "held_ok (o_held o1)" using assms by (simp add: object_held_ok_def)
  have "meets (lk_Range want) e" if "e \<in> set (tree_entries (o_held o1))" "conflicts want (ie_value e)" for e
    using that held_okD(2) [OF ok that(1)] by (simp add: conflicts_def overlaps_sym)
  then show ?thesis
    unfolding Some conflictLocked_held [OF ok]
    by (auto simp: find_None_iff object_locks_def held_locks_def)
qed

lemma conflictLocked_Some:
  assumes "object_held_ok ob" "conflictLocked ob want = Some l"
  shows "l \<in> object_locks ob" "conflicts want l"
proof -
  obtain o1 where ob: "ob = Some o1" using assms(2) by (cases ob) (auto simp: conflictLocked_def)
  then have ok: "held_ok (o_held o1)" using assms(1) by (simp add: object_held_ok_def)
  from assms(2) obtain e where
    "find (\<lambda>e. conflicts want (ie_value e)) (filter (meets (lk_Range want)) (tree_entries (o_held o1))) = Some e"
    "l = ie_value e"
    unfolding ob conflictLocked_held [OF ok] by auto
  then show "l \<in> object_locks ob" "conflicts want l"
    by (auto simp: find_Some_iff ob object_locks_def held_locks_def dest!: nth_mem)
qed

section \<open>Coverage subtraction\<close>

lemma bytes_below:
  assumes "a < b"
  shows "bytes \<lparr>lr_Start = a, lr_End = b - 1\<rparr> = {a ..< b}"
  by (rule set_eqI)
     (simp only: mem_bytes LockRange.simps atLeastLessThan_iff word_pred_less_iff [OF assms])

lemma bytes_above:
  assumes "a < (b :: u64)"
  shows "{a + 1 .. b} = {a <.. b}"
  by (rule set_eqI)
     (simp only: atLeastAtMost_iff greaterThanAtMost_iff word_succ_le_iff [OF assms])

lemma subtractFrom_bytes:
  assumes "sorted (map lr_Start cs)" "\<And>c. c \<in> set cs \<Longrightarrow> valid_range c" "\<And>c. c \<in> set cs \<Longrightarrow> lr_Start c \<le> lr_End r"
  shows "(\<Union>s \<in> set (subtractFrom cursor r cs). bytes s) =
           {cursor .. lr_End r} - (\<Union>c \<in> set cs. bytes c)"
  using assms
proof (induction cs arbitrary: cursor)
  case Nil
  then show ?case by (auto simp: bytes_def)
next
  case (Cons c cs)
  have later: "lr_Start c \<le> lr_Start d" if "d \<in> set cs" for d
    using Cons.prems(1) that by auto
  have IH: "(\<Union>s \<in> set (subtractFrom cur r cs). bytes s) = {cur .. lr_End r} - (\<Union>c \<in> set cs. bytes c)" for cur
    by (rule Cons.IH) (use Cons.prems in auto)
  have vc: "lr_Start c \<le> lr_End c" "lr_Start c \<le> lr_End r" using Cons.prems(2,3) [of c] by (simp_all add: valid_range_def)
  show ?case
  proof (cases "lr_End c < cursor")
    case True
    then have disj: "{cursor .. lr_End r} \<inter> bytes c = {}" by (auto simp: mem_bytes)
    have eq: "subtractFrom cursor r (c # cs) = subtractFrom cursor r cs"
      using True by (simp only: subtractFrom.simps if_True)
    show ?thesis unfolding list.set(2) UN_insert eq IH using disj by blast
  next
    case False
    have head: "(\<Union>s \<in> set (if cursor < lr_Start c then [\<lparr>lr_Start = cursor, lr_End = lr_Start c - 1\<rparr>] else []).
        bytes s) = {cursor ..< lr_Start c}"
      by (simp add: bytes_below)
    have tail: "(\<Union>s \<in> set (if lr_End r \<le> lr_End c then [] else subtractFrom (lr_End c + 1) r cs). bytes s) =
        {lr_End c <.. lr_End r} - (\<Union>c \<in> set cs. bytes c)"
      using IH [of "lr_End c + 1"] by (simp add: not_le bytes_above)
    have "{cursor ..< lr_Start c} \<inter> bytes d = {}" if "d \<in> set cs" for d
      using later [OF that] by (fastforce simp: mem_bytes)
    then have disj: "{cursor ..< lr_Start c} \<inter> (\<Union>c \<in> set cs. bytes c) = {}" by blast
    have parts: "{cursor .. lr_End r} - bytes c = {cursor ..< lr_Start c} \<union> {lr_End c <.. lr_End r}"
      using False vc by (force simp: mem_bytes not_less not_le)
    have eq: "subtractFrom cursor r (c # cs) =
        (if cursor < lr_Start c then [\<lparr>lr_Start = cursor, lr_End = lr_Start c - 1\<rparr>] else []) @
        (if lr_End r \<le> lr_End c then [] else subtractFrom (lr_End c + 1) r cs)"
      using False by (simp only: subtractFrom.simps if_False)
    show ?thesis
      unfolding list.set(2) UN_insert eq set_append UN_Un head tail using disj parts by blast
  qed
qed

text \<open>
  The residual of a request is exactly the requested bytes the owner does not already hold
  at a sufficient mode.
\<close>

lemma key_ordered_starts: "key_ordered es \<Longrightarrow> sorted (map ie_start es)"
  by (induction es) (auto simp: key_ordered_def ekey_def dest!: bspec ikey_less_start)

lemma residualLocked_bytes:
  assumes "object_held_ok ob" "validLock lock"
  shows "(\<Union>s \<in> set (residualLocked ob lock). bytes s) =
           {b \<in> bytes (lk_Range lock). \<forall>m \<in> modes (object_locks ob) (lk_Owner lock) b. \<not> satisfies m (lk_Type lock)}"
proof (cases ob)
  case None
  then show ?thesis by (simp add: residualLocked_def object_locks_def modes_def)
next
  case (Some o1)
  let ?t = "o_held o1" and ?r = "lk_Range lock"
  let ?P = "\<lambda>e. lk_Owner (ie_value e) = lk_Owner lock \<and> satisfies (lk_Type (ie_value e)) (lk_Type lock)"
  let ?es = "filter (\<lambda>e. meets ?r e \<and> ?P e) (tree_entries ?t)"
  have ok: "held_ok ?t" using assms Some by (simp add: object_held_ok_def)
  note okD = held_okD [OF ok]
  have res: "residualLocked ob lock = subtractCoverage ?r (map (\<lambda>e. lk_Range (ie_value e)) ?es)"
    unfolding Some residualLocked_def option.case Let_def tree_overlap_collect [OF okD(1)] ..
  have rng: "lk_Range (ie_value e) = entry_range e" if "e \<in> set ?es" for e
    using that okD(2) by auto
  have starts: "map lr_Start (map (\<lambda>e. lk_Range (ie_value e)) ?es) = map ie_start ?es"
    using rng by (simp add: entry_range_def)
  have "sorted (map lr_Start (map (\<lambda>e. lk_Range (ie_value e)) ?es))"
    unfolding starts using okD(1) by (intro key_ordered_starts key_ordered_filter) (simp add: tree_invar_def)
  moreover have "valid_range c \<and> lr_Start c \<le> lr_End ?r"
    if "c \<in> set (map (\<lambda>e. lk_Range (ie_value e)) ?es)" for c
    using that okD(2,3) by (auto simp: overlaps_def)
  ultimately have "(\<Union>s \<in> set (residualLocked ob lock). bytes s) =
      bytes ?r - (\<Union>c \<in> set (map (\<lambda>e. lk_Range (ie_value e)) ?es). bytes c)"
    unfolding res subtractCoverage_def by (subst subtractFrom_bytes) (simp_all add: bytes_def)
  also have "\<dots> = {b \<in> bytes ?r. \<forall>m \<in> modes (object_locks ob) (lk_Owner lock) b. \<not> satisfies m (lk_Type lock)}"
  proof (rule set_eqI)
    fix b
    have "meets ?r e" if "e \<in> set (tree_entries ?t)" "b \<in> bytes (lk_Range (ie_value e))" "b \<in> bytes ?r" for e
      using that okD(2) [OF that(1)] by (auto simp: overlaps_def mem_bytes)
    then show "b \<in> bytes ?r - (\<Union>c \<in> set (map (\<lambda>e. lk_Range (ie_value e)) ?es). bytes c) \<longleftrightarrow>
        b \<in> {b \<in> bytes ?r. \<forall>m \<in> modes (object_locks ob) (lk_Owner lock) b. \<not> satisfies m (lk_Type lock)}"
      unfolding Some object_locks_def option.case held_locks_def modes_def by auto
  qed
  finally show ?thesis .
qed

lemma subtractFrom_valid: "s \<in> set (subtractFrom cursor r cs) \<Longrightarrow> valid_range s"
  by (induction cs arbitrary: cursor) (auto simp: valid_range_def word_pred_less_iff split: if_splits)

lemma residualLocked_valid: "validLock lock \<Longrightarrow> s \<in> set (residualLocked ob lock) \<Longrightarrow> valid_range s"
  by (auto simp: residualLocked_def subtractCoverage_def Let_def validLock_range dest: subtractFrom_valid split: option.splits)

section \<open>Absorption keeps coverage\<close>

lemma absorbs_bytes:
  assumes "absorbs m c" "valid_range (lk_Range m)" "valid_range (lk_Range c)"
  shows "bytes (coverRange (lk_Range m) (lk_Range c)) = bytes (lk_Range m) \<union> bytes (lk_Range c)"
  using assms bytes_coverRange [of "lk_Range m" "lk_Range c"]
  by (auto simp: absorbs_def overlaps_sym adjacent_sym)

text \<open>Records of one owner, pairwise disjoint, as the loop sees them.\<close>

definition own_valid :: "LockOwner \<Rightarrow> ObjectKey \<Rightarrow> Lock list \<Rightarrow> bool" where
  "own_valid ow ob ls \<longleftrightarrow>
     (\<forall>l \<in> set ls. lk_Owner l = ow \<and> lk_Object l = ob \<and> valid_range (lk_Range l)) \<and>
     sorted_wrt (\<lambda>a b. bytes (lk_Range a) \<inter> bytes (lk_Range b) = {}) ls"

text \<open>What absorption does: it moves same-mode neighbours from the list into \<open>merged\<close>.\<close>

definition absorbed_into :: "Lock \<Rightarrow> Lock list \<Rightarrow> Lock \<Rightarrow> Lock list \<Rightarrow> bool" where
  "absorbed_into m keep m' rem \<longleftrightarrow>
     lk_Owner m' = lk_Owner m \<and> lk_Type m' = lk_Type m \<and> lk_Object m' = lk_Object m \<and>
     own_valid (lk_Owner m) (lk_Object m) (m' # rem) \<and>
     (\<exists>eaten. set keep = set eaten \<union> set rem \<and> (\<forall>c \<in> set eaten. lk_Type c = lk_Type m) \<and>
        bytes (lk_Range m') = bytes (lk_Range m) \<union> (\<Union>c \<in> set eaten. bytes (lk_Range c)))"

abbreviation own_list :: "Lock \<Rightarrow> Lock list \<Rightarrow> bool" where
  "own_list m ls \<equiv> own_valid (lk_Owner m) (lk_Object m) (m # ls)"

lemma absorbed_into_refl: "own_list m keep \<Longrightarrow> absorbed_into m keep m keep"
  unfolding absorbed_into_def by (auto intro: exI [of _ "[]"])

lemma absorbed_into_trans:
  assumes "absorbed_into m keep m1 rem1" "absorbed_into m1 rem1 m2 rem2"
  shows "absorbed_into m keep m2 rem2"
proof -
  from assms(1) obtain e1 where 1: "set keep = set e1 \<union> set rem1" "\<forall>c \<in> set e1. lk_Type c = lk_Type m"
    "bytes (lk_Range m1) = bytes (lk_Range m) \<union> (\<Union>c \<in> set e1. bytes (lk_Range c))"
    unfolding absorbed_into_def by blast
  from assms(2) obtain e2 where 2: "set rem1 = set e2 \<union> set rem2" "\<forall>c \<in> set e2. lk_Type c = lk_Type m1"
    "bytes (lk_Range m2) = bytes (lk_Range m1) \<union> (\<Union>c \<in> set e2. bytes (lk_Range c))"
    unfolding absorbed_into_def by blast
  show ?thesis
    unfolding absorbed_into_def
    by (intro conjI exI [of _ "e1 @ e2"]) (use assms 1 2 in \<open>auto simp: absorbed_into_def\<close>)
qed

lemma absorbed_into_eat:
  assumes "own_list m (c # keep)" "absorbs m c"
  shows "absorbed_into m (c # keep) (m\<lparr>lk_Range := coverRange (lk_Range m) (lk_Range c)\<rparr>) keep"
proof -
  have valid: "valid_range (lk_Range m)" "valid_range (lk_Range c)"
    using assms(1) by (auto simp: own_valid_def)
  have b: "bytes (coverRange (lk_Range m) (lk_Range c)) = bytes (lk_Range m) \<union> bytes (lk_Range c)"
    using absorbs_bytes [OF assms(2) valid] .
  show ?thesis
    unfolding absorbed_into_def
    by (intro conjI exI [of _ "[c]"])
       (use assms b valid in \<open>auto simp: own_valid_def valid_coverRange absorbs_def\<close>)
qed

lemma absorbed_into_skip:
  assumes "own_list m (c # keep)" "absorbed_into m keep m' rem"
  shows "absorbed_into m (c # keep) m' (c # rem)"
proof -
  from assms(2) obtain e where e: "set keep = set e \<union> set rem" "\<forall>c \<in> set e. lk_Type c = lk_Type m"
    "bytes (lk_Range m') = bytes (lk_Range m) \<union> (\<Union>c \<in> set e. bytes (lk_Range c))"
    unfolding absorbed_into_def by blast
  have c: "bytes (lk_Range m) \<inter> bytes (lk_Range c) = {}" "\<forall>k \<in> set keep. bytes (lk_Range c) \<inter> bytes (lk_Range k) = {}"
    "lk_Owner c = lk_Owner m" "lk_Object c = lk_Object m" "valid_range (lk_Range c)"
    using assms(1) by (auto simp: own_valid_def)
  have "own_valid (lk_Owner m) (lk_Object m) (m' # c # rem)"
    using assms(2) c e by (auto simp: absorbed_into_def own_valid_def)
  then show ?thesis
    unfolding absorbed_into_def
    by (intro conjI exI [of _ e]) (use assms(2) e in \<open>auto simp: absorbed_into_def\<close>)
qed

lemma own_list_tail: "own_list m (c # keep) \<Longrightarrow> own_list m keep"
  by (auto simp: own_valid_def)

lemma absorbPass_into:
  assumes "own_list m keep" "absorbPass m keep = (m', rem, ab)"
  shows "absorbed_into m keep m' rem \<and>
         (\<not> ab \<longrightarrow> m' = m \<and> rem = keep \<and> (\<forall>c \<in> set keep. \<not> absorbs m c))"
  using assms
proof (induction m keep arbitrary: m' rem ab rule: absorbPass.induct)
  case (1 merged)
  then show ?case by (simp add: absorbed_into_refl)
next
  case (2 m c keep)
  show ?case
  proof (cases "absorbs m c")
    case True
    let ?m1 = "m\<lparr>lk_Range := coverRange (lk_Range m) (lk_Range c)\<rparr>"
    have eat: "absorbed_into m (c # keep) ?m1 keep"
      using "2.prems"(1) True by (rule absorbed_into_eat)
    then have own: "own_list ?m1 keep" by (simp add: absorbed_into_def)
    obtain ab1 where rec: "absorbPass ?m1 keep = (m', rem, ab1)" "ab"
      using "2.prems"(2) True by (auto split: prod.splits)
    from "2.IH"(1) [OF True own rec(1)] have "absorbed_into ?m1 keep m' rem" by blast
    with eat rec(2) show ?thesis using absorbed_into_trans by blast
  next
    case False
    obtain rem1 where rec: "absorbPass m keep = (m', rem1, ab)" "rem = c # rem1"
      using "2.prems"(2) False by (auto split: prod.splits)
    from "2.IH"(2) [OF False own_list_tail [OF "2.prems"(1)] rec(1)]
    show ?thesis using absorbed_into_skip [OF "2.prems"(1)] rec(2) False by auto
  qed
qed

lemma absorbLoop_into:
  assumes "own_list m keep" "absorbLoop m keep = (m', rem)"
  shows "absorbed_into m keep m' rem \<and> (\<forall>c \<in> set rem. \<not> absorbs m' c)"
  using assms
proof (induction m keep rule: absorbLoop.induct)
  case (1 m keep)
  obtain m1 rem1 ab where pass: "absorbPass m keep = (m1, rem1, ab)" by (metis prod_cases3)
  note into = absorbPass_into [OF "1.prems"(1) pass]
  show ?case
  proof (cases ab)
    case True
    then have "absorbLoop m1 rem1 = (m', rem)"
      using "1.prems"(2) pass by (simp add: absorbLoop.simps [of m keep])
    moreover have "own_list m1 rem1" using into by (simp add: absorbed_into_def)
    ultimately have "absorbed_into m1 rem1 m' rem \<and> (\<forall>c \<in> set rem. \<not> absorbs m' c)"
      using "1.IH" [OF pass [symmetric] refl True] by simp
    then show ?thesis using into absorbed_into_trans by blast
  next
    case False
    then have "m' = m1" "rem = rem1"
      using "1.prems"(2) pass by (simp_all add: absorbLoop.simps [of m keep])
    then show ?thesis using into False by blast
  qed
qed

section \<open>What the plans compute\<close>

definition kept :: "Lock \<Rightarrow> Lock \<Rightarrow> Lock list" where
  "kept next held =
     (if overlaps (lk_Range held) (lk_Range next) then subtractLock held (lk_Range next) else [held])"

lemma acquireScan_eq:
  "p_remove (fst (acquireScan next ns (plan, keep))) =
     p_remove plan @ filter (\<lambda>n. acquire_affects next (ie_value n)) ns"
  "snd (acquireScan next ns (plan, keep)) =
     keep @ concat (map (\<lambda>n. kept next (ie_value n)) (filter (\<lambda>n. acquire_affects next (ie_value n)) ns))"
  by (induction ns arbitrary: plan keep) (auto simp: Let_def kept_def)

lemma releaseScan_eq:
  "p_remove (releaseScan r ns plan) = p_remove plan @ ns"
  "p_insert (releaseScan r ns plan) = p_insert plan @ concat (map (\<lambda>n. subtractLock (ie_value n) r) ns)"
  by (induction ns arbitrary: plan) auto

text \<open>A plan whose application keeps the records canonical, and the records it leaves.\<close>

definition plan_ok :: "Lock ientry set \<Rightarrow> lockPlan \<Rightarrow> bool" where
  "plan_ok E plan \<longleftrightarrow>
     set (p_remove plan) \<subseteq> E \<and> distinct (p_remove plan) \<and>
     (\<forall>l \<in> set (p_insert plan). valid_range (lk_Range l)) \<and>
     sorted_wrt coexist (p_insert plan) \<and>
     (\<forall>e \<in> E - set (p_remove plan). \<forall>l \<in> set (p_insert plan). coexist (ie_value e) l)"

definition plan_result :: "Lock ientry set \<Rightarrow> lockPlan \<Rightarrow> Lock set" where
  "plan_result E plan = ie_value ` (E - set (p_remove plan)) \<union> set (p_insert plan)"

definition object_entries :: "objectLocks option \<Rightarrow> Lock ientry set" where
  "object_entries ob = (case ob of None \<Rightarrow> {} | Some o1 \<Rightarrow> set (tree_entries (o_held o1)))"

lemma object_locks_entries: "object_locks ob = ie_value ` object_entries ob"
  by (simp add: object_locks_def object_entries_def held_locks_def split: option.split)

lemma object_held_okD:
  assumes "object_held_ok ob" "e \<in> object_entries ob"
  shows "entry_range e = lk_Range (ie_value e)" "valid_range (lk_Range (ie_value e))"
    and "e2 \<in> object_entries ob \<Longrightarrow> e \<noteq> e2 \<Longrightarrow> coexist (ie_value e) (ie_value e2)"
  using assms held_okD by (cases ob; force simp: object_held_ok_def object_entries_def)+

subsection \<open>Pieces\<close>

lemma subtractLock_pieces:
  assumes "valid_range hole" "overlaps (lk_Range held) hole" "valid_range (lk_Range held)" "c \<in> set (subtractLock held hole)"
  shows "bytes (lk_Range c) \<subseteq> bytes (lk_Range held) - bytes hole"
  using bytes_subtractLock [OF assms(1,2)] assms(4) by blast

lemma subtractLock_sorted:
  assumes "valid_range hole"
  shows "sorted_wrt (\<lambda>a b. bytes (lk_Range a) \<inter> bytes (lk_Range b) = {} \<and> \<not> touch (bytes (lk_Range a)) (bytes (lk_Range b)))
           (subtractLock held hole)"
proof (cases "lr_Start (lk_Range held) < lr_Start hole \<and> lr_End hole < lr_End (lk_Range held)")
  case True
  let ?a = "(lk_Range held)\<lparr>lr_End := lr_Start hole - 1\<rparr>" and ?b = "(lk_Range held)\<lparr>lr_Start := lr_End hole + 1\<rparr>"
  have below: "x < lr_Start hole" if "x \<in> bytes ?a" for x
    using that True word_pred_less_iff [of "lr_Start (lk_Range held)" "lr_Start hole" x] by (simp add: mem_bytes)
  have above: "lr_End hole < x" if "x \<in> bytes ?b" for x
    using that True word_succ_le_iff [of "lr_End hole" "lr_End (lk_Range held)" x] by (simp add: mem_bytes)
  have se: "lr_Start hole \<le> lr_End hole" using assms by (simp add: valid_range_def)
  have sep: "x < y \<and> x + 1 < y" if "x \<in> bytes ?a" "y \<in> bytes ?b" for x y
  proof -
    have "x < lr_Start hole" "lr_End hole < y" using that below above by blast+
    then have "x + 1 \<le> lr_Start hole" using word_succ_le_iff by blast
    then show ?thesis using \<open>x < lr_Start hole\<close> \<open>lr_End hole < y\<close> se
      by - (intro conjI; order)
  qed
  have "\<not> touch (bytes ?a) (bytes ?b)"
    unfolding touch_def
  proof (rule notI, elim disjE bexE conjE)
    fix x assume "x \<in> bytes ?a" "x + 1 \<in> bytes ?b"
    then show False using sep [of x "x + 1"] by simp
  next
    fix x assume "x \<in> bytes ?b" "x \<noteq> MaxUint64" "x + 1 \<in> bytes ?a"
    then show False using sep [of "x + 1" x] word_less_succ [of x] by (meson less_asym)
  qed
  moreover have "bytes ?a \<inter> bytes ?b = {}" using sep by blast
  ultimately show ?thesis using True by (simp add: subtractLock_def)
next
  case False
  then show ?thesis by (auto simp: subtractLock_def)
qed

lemma kept_pieces:
  assumes "valid_range (lk_Range next)" "valid_range (lk_Range held)" "acquire_affects next held" "c \<in> set (kept next held)"
  shows "bytes (lk_Range c) \<subseteq> bytes (lk_Range held) - bytes (lk_Range next)"
    "lk_Owner c = lk_Owner held" "lk_Type c = lk_Type held" "lk_Object c = lk_Object held" "valid_range (lk_Range c)"
  using assms subtractLock_pieces [of "lk_Range next" held c] subtractLock_same [of c held "lk_Range next"]
    subtractLock_valid [of c held "lk_Range next"] overlaps_bytes [of "lk_Range held" "lk_Range next"]
  by (auto simp: kept_def split: if_splits)

lemma kept_bytes:
  assumes "valid_range (lk_Range next)" "valid_range (lk_Range held)"
  shows "(\<Union>c \<in> set (kept next held). bytes (lk_Range c)) = bytes (lk_Range held) - bytes (lk_Range next)"
  using assms bytes_subtractLock [of "lk_Range next" held] overlaps_bytes [of "lk_Range held" "lk_Range next"]
  by (auto simp: kept_def)

lemma kept_sorted:
  assumes "valid_range (lk_Range next)"
  shows "sorted_wrt (\<lambda>a b. bytes (lk_Range a) \<inter> bytes (lk_Range b) = {} \<and> \<not> touch (bytes (lk_Range a)) (bytes (lk_Range b)))
           (kept next held)"
  using subtractLock_sorted [OF assms, of held] by (simp add: kept_def)

lemma acquireQuery_overlaps:
  assumes "valid_range r" "valid_range h" "overlaps h r \<or> adjacent h r"
  shows "overlaps h (acquireQuery r)"
proof -
  have q: "lr_Start (acquireQuery r) = (if lr_Start r > 0 then lr_Start r - 1 else lr_Start r)"
    "lr_End (acquireQuery r) = (if lr_End r < MaxUint64 then lr_End r + 1 else lr_End r)"
    by (simp_all add: acquireQuery_def Let_def)
  have lo: "lr_Start (acquireQuery r) \<le> lr_Start r"
    unfolding q using word_pred_less_iff [of 0 "lr_Start r" "lr_Start r - 1"] by (auto dest: order_less_imp_le)
  have hi: "lr_End r \<le> lr_End (acquireQuery r)"
    unfolding q using word_less_succ [of "lr_End r"] by (auto intro: order_less_imp_le)
  consider (ov) "overlaps h r" | (left) "lr_End h \<noteq> MaxUint64" "lr_End h + 1 = lr_Start r"
    | (right) "lr_End r \<noteq> MaxUint64" "lr_End r + 1 = lr_Start h"
    using assms(3) unfolding adjacent_def by blast
  then show ?thesis
  proof cases
    case ov
    then show ?thesis using lo hi unfolding overlaps_def by (meson order_trans)
  next
    case left
    then have "lr_End h < lr_Start r" using word_less_succ [of "lr_End h"] by simp
    moreover from this have "0 < lr_Start r" by (meson le_less_trans word_zero_le)
    then have "lr_Start (acquireQuery r) = lr_End h" unfolding q using left(2) by (metis add_diff_cancel_right')
    ultimately show ?thesis
      using assms(1,2) hi unfolding overlaps_def valid_range_def by - (intro conjI; order)
  next
    case right
    then have "lr_End r < lr_Start h" using word_less_succ [of "lr_End r"] by simp
    moreover have "lr_End (acquireQuery r) = lr_Start h" unfolding q using right by (simp add: word_order.not_eq_extremum)
    ultimately show ?thesis
      using assms(1,2) lo unfolding overlaps_def valid_range_def by - (intro conjI; order)
  qed
qed

subsection \<open>The acquire plan\<close>

text \<open>The owner's records that the plan replaces.\<close>

definition affected :: "objectLocks option \<Rightarrow> Lock \<Rightarrow> Lock ientry list" where
  "affected ob next =
     (case ob of None \<Rightarrow> []
      | Some o1 \<Rightarrow> filter (\<lambda>e. lk_Owner (ie_value e) = lk_Owner next \<and> acquire_affects next (ie_value e))
                     (tree_entries (o_held o1)))"

definition acquire_keep :: "objectLocks option \<Rightarrow> Lock \<Rightarrow> Lock list" where
  "acquire_keep ob next = concat (map (\<lambda>n. kept next (ie_value n)) (affected ob next))"

lemma planAcquireLocked_parts:
  assumes "object_held_ok ob" "validLock next"
  shows "p_remove (planAcquireLocked ob next) = affected ob next"
    and "p_insert (planAcquireLocked ob next) =
           snd (absorbLoop next (acquire_keep ob next)) @ [fst (absorbLoop next (acquire_keep ob next))]"
proof -
  define plan0 where "plan0 = \<lparr>p_remove = [], p_insert = [], p_touched = lk_Range next, p_weakens = False\<rparr>"
  define scan where "scan = (case ob of None \<Rightarrow> (plan0, [])
     | Some o1 \<Rightarrow> acquireScan next (tree_overlap (o_held o1) (acquireQuery (lk_Range next))
         (\<lambda>n acc. (True, if lk_Owner (ie_value n) = lk_Owner next then acc @ [n] else acc)) []) (plan0, []))"
  have plan: "planAcquireLocked ob next =
      (let (merged, remaining) = absorbLoop next (snd scan)
       in (fst scan)\<lparr>p_insert := remaining @ [merged],
                    p_touched := coverRange (p_touched (fst scan)) (lk_Range merged)\<rparr>)"
    by (simp add: planAcquireLocked_def plan0_def scan_def Let_def case_prod_unfold split: option.split)
  have "p_remove (fst scan) = affected ob next \<and> snd scan = acquire_keep ob next"
  proof (cases ob)
    case None
    then show ?thesis by (simp add: scan_def affected_def acquire_keep_def plan0_def)
  next
    case (Some o1)
    then have ok: "held_ok (o_held o1)" using assms by (simp add: object_held_ok_def)
    have "meets (acquireQuery (lk_Range next)) e"
      if "e \<in> set (tree_entries (o_held o1))" "acquire_affects next (ie_value e)" for e
      using that acquireQuery_overlaps [of "lk_Range next" "entry_range e"] held_okD(2,3) [OF ok that(1)] assms(2)
      by (auto simp: acquire_affects_def dest: validLock_range)
    then have "filter (\<lambda>n. acquire_affects next (ie_value n))
        (filter (\<lambda>e. meets (acquireQuery (lk_Range next)) e \<and> lk_Owner (ie_value e) = lk_Owner next)
           (tree_entries (o_held o1))) = affected ob next"
      unfolding affected_def Some option.case filter_filter by (intro filter_cong) auto
    then show ?thesis
      unfolding scan_def Some option.case
        tree_overlap_collect [OF held_okD(1) [OF ok], where f = "\<lambda>n. n", unfolded list.map_ident]
        acquireScan_eq acquire_keep_def
      by (simp add: plan0_def)
  qed
  then show "p_remove (planAcquireLocked ob next) = affected ob next"
    and "p_insert (planAcquireLocked ob next) =
           snd (absorbLoop next (acquire_keep ob next)) @ [fst (absorbLoop next (acquire_keep ob next))]"
    unfolding plan by (simp_all add: case_prod_unfold Let_def)
qed

lemma affected_iff:
  "e \<in> set (affected ob next) \<longleftrightarrow>
     e \<in> object_entries ob \<and> lk_Owner (ie_value e) = lk_Owner next \<and> acquire_affects next (ie_value e)"
  by (auto simp: affected_def object_entries_def split: option.splits)

lemma distinct_affected: "object_held_ok ob \<Longrightarrow> distinct (affected ob next)"
  by (cases ob)
     (simp_all add: affected_def object_held_ok_def held_ok_def tree_invar_def key_ordered_distinct)

text \<open>The record set of one object, all of it keyed by that object.\<close>

definition on_object :: "ObjectKey \<Rightarrow> objectLocks option \<Rightarrow> bool" where
  "on_object k ob \<longleftrightarrow> (\<forall>l \<in> object_locks ob. lk_Object l = k)"

lemma acquire_keep_origin:
  assumes "object_held_ok ob" "validLock next" "c \<in> set (acquire_keep ob next)"
  obtains h where "h \<in> set (affected ob next)"
    "bytes (lk_Range c) \<subseteq> bytes (lk_Range (ie_value h)) - bytes (lk_Range next)"
    "lk_Owner c = lk_Owner (ie_value h)" "lk_Type c = lk_Type (ie_value h)"
    "lk_Object c = lk_Object (ie_value h)" "valid_range (lk_Range c)"
proof -
  from assms(3) obtain h where h: "h \<in> set (affected ob next)" "c \<in> set (kept next (ie_value h))"
    by (auto simp: acquire_keep_def)
  then have "valid_range (lk_Range (ie_value h))" "acquire_affects next (ie_value h)"
    using object_held_okD(2) [OF assms(1)] by (auto simp: affected_iff)
  from that [OF h(1) kept_pieces [OF assms(2) [THEN validLock_range] this h(2)]]
  show ?thesis .
qed

lemma acquire_keep_sorted:
  assumes "object_held_ok ob" "validLock next"
  shows "sorted_wrt (\<lambda>a b. bytes (lk_Range a) \<inter> bytes (lk_Range b) = {} \<and>
             (lk_Type a = lk_Type b \<longrightarrow> \<not> touch (bytes (lk_Range a)) (bytes (lk_Range b)))) (acquire_keep ob next)"
    (is "sorted_wrt ?R _")
  unfolding acquire_keep_def
proof (rule sorted_wrt_concat)
  fix xs assume "xs \<in> set (map (\<lambda>n. kept next (ie_value n)) (affected ob next))"
  then obtain n :: "Lock ientry" where "xs = kept next (ie_value n)" by auto
  then show "sorted_wrt ?R xs"
    using kept_sorted [of "next" "ie_value n"] assms(2)
    by (auto simp: validLock_range intro: sorted_wrt_mono_rel [rotated])
next
  show "sorted_wrt (\<lambda>xs ys. \<forall>x \<in> set xs. \<forall>y \<in> set ys. ?R x y) (map (\<lambda>n. kept next (ie_value n)) (affected ob next))"
    unfolding sorted_wrt_map
  proof (rule sorted_wrt_pairwise [OF distinct_affected [OF assms(1)]], intro ballI)
    fix h g x y
    assume h: "h \<in> set (affected ob next)" and g: "g \<in> set (affected ob next)" and "h \<noteq> g"
      and x: "x \<in> set (kept next (ie_value h))" and y: "y \<in> set (kept next (ie_value g))"
    have c: "coexist (ie_value h) (ie_value g)" "lk_Owner (ie_value h) = lk_Owner (ie_value g)"
      using h g \<open>h \<noteq> g\<close> object_held_okD(3) [OF assms(1)] by (auto simp: affected_iff)
    have px: "bytes (lk_Range x) \<subseteq> bytes (lk_Range (ie_value h))" "lk_Type x = lk_Type (ie_value h)"
      using kept_pieces [OF _ _ _ x] h object_held_okD(2) [OF assms(1)] assms(2)
      by (auto simp: affected_iff dest: validLock_range)
    have py: "bytes (lk_Range y) \<subseteq> bytes (lk_Range (ie_value g))" "lk_Type y = lk_Type (ie_value g)"
      using kept_pieces [OF _ _ _ y] g object_held_okD(2) [OF assms(1)] assms(2)
      by (auto simp: affected_iff dest: validLock_range)
    show "?R x y" using c px py touch_mono by (fastforce simp: coexist_def)
  qed
qed

lemma acquire_own_list:
  assumes "object_held_ok ob" "validLock next" "on_object (lk_Object next) ob"
  shows "own_list next (acquire_keep ob next)"
proof -
  have "lk_Owner c = lk_Owner next \<and> lk_Object c = lk_Object next \<and> valid_range (lk_Range c) \<and>
        bytes (lk_Range next) \<inter> bytes (lk_Range c) = {}" if "c \<in> set (acquire_keep ob next)" for c
    using acquire_keep_origin [OF assms(1,2) that] assms(3)
    by (auto simp: affected_iff on_object_def object_locks_entries)
  moreover have "sorted_wrt (\<lambda>a b. bytes (lk_Range a) \<inter> bytes (lk_Range b) = {}) (acquire_keep ob next)"
    using acquire_keep_sorted [OF assms(1,2)] by (rule sorted_wrt_mono_rel [rotated]) auto
  ultimately show ?thesis using assms(2) by (auto simp: own_valid_def dest: validLock_range)
qed

text \<open>Acquiring is POSIX replacement: byte-exact for the owner, invisible for everybody else.\<close>

lemma planAcquire_merged:
  assumes "object_held_ok ob" "validLock next" "on_object (lk_Object next) ob"
  obtains merged rest eaten where
    "p_insert (planAcquireLocked ob next) = rest @ [merged]"
    "lk_Owner merged = lk_Owner next" "lk_Type merged = lk_Type next" "lk_Object merged = lk_Object next"
    "own_list next (acquire_keep ob next)"
    "own_valid (lk_Owner next) (lk_Object next) (merged # rest)"
    "set (acquire_keep ob next) = set eaten \<union> set rest"
    "\<forall>c \<in> set eaten. lk_Type c = lk_Type next"
    "bytes (lk_Range merged) = bytes (lk_Range next) \<union> (\<Union>c \<in> set eaten. bytes (lk_Range c))"
    "\<forall>c \<in> set rest. \<not> absorbs merged c"
proof -
  obtain merged rest where loop: "absorbLoop next (acquire_keep ob next) = (merged, rest)" by fastforce
  note into = absorbLoop_into [OF acquire_own_list [OF assms] loop]
  from into obtain eaten where "set (acquire_keep ob next) = set eaten \<union> set rest"
    "\<forall>c \<in> set eaten. lk_Type c = lk_Type next"
    "bytes (lk_Range merged) = bytes (lk_Range next) \<union> (\<Union>c \<in> set eaten. bytes (lk_Range c))"
    unfolding absorbed_into_def by blast
  then show thesis
    using that [of rest merged eaten] planAcquireLocked_parts(2) [OF assms(1,2)] loop into
      acquire_own_list [OF assms]
    by (simp add: absorbed_into_def)
qed

lemma acquire_keep_bytes:
  assumes "object_held_ok ob" "validLock next"
  shows "(\<exists>c \<in> set (acquire_keep ob next). lk_Type c = ty \<and> b \<in> bytes (lk_Range c)) \<longleftrightarrow>
         b \<notin> bytes (lk_Range next) \<and>
         (\<exists>h \<in> set (affected ob next). lk_Type (ie_value h) = ty \<and> b \<in> bytes (lk_Range (ie_value h)))"
    (is "?L \<longleftrightarrow> ?R")
proof
  assume ?L
  then obtain c where c: "c \<in> set (acquire_keep ob next)" "lk_Type c = ty" "b \<in> bytes (lk_Range c)" by blast
  obtain h where "h \<in> set (affected ob next)" "lk_Type c = lk_Type (ie_value h)"
    "bytes (lk_Range c) \<subseteq> bytes (lk_Range (ie_value h)) - bytes (lk_Range next)"
    by (rule acquire_keep_origin [OF assms c(1)])
  then show ?R using c(2,3) by auto
next
  assume ?R
  then obtain h where h: "h \<in> set (affected ob next)" "lk_Type (ie_value h) = ty"
    "b \<in> bytes (lk_Range (ie_value h)) - bytes (lk_Range next)" by blast
  then have v: "valid_range (lk_Range (ie_value h))" "acquire_affects next (ie_value h)"
    using object_held_okD(2) [OF assms(1)] by (auto simp: affected_iff)
  from h(3) obtain c where c: "c \<in> set (kept next (ie_value h))" "b \<in> bytes (lk_Range c)"
    using kept_bytes [OF assms(2) [THEN validLock_range] v(1)] by blast
  moreover have "lk_Type c = ty"
    using kept_pieces(3) [OF assms(2) [THEN validLock_range] v c(1)] h(2) by simp
  ultimately show ?L using h(1) by (auto simp: acquire_keep_def)
qed

theorem planAcquire_modes:
  assumes "object_held_ok ob" "validLock next" "on_object (lk_Object next) ob"
  shows "modes (plan_result (object_entries ob) (planAcquireLocked ob next)) ow b =
           (if ow = lk_Owner next \<and> b \<in> bytes (lk_Range next) then {lk_Type next}
            else modes (object_locks ob) ow b)"
proof -
  obtain merged rest eaten where M: "p_insert (planAcquireLocked ob next) = rest @ [merged]"
    "lk_Owner merged = lk_Owner next" "lk_Type merged = lk_Type next"
    "own_list next (acquire_keep ob next)"
    "set (acquire_keep ob next) = set eaten \<union> set rest" "\<forall>c \<in> set eaten. lk_Type c = lk_Type next"
    "bytes (lk_Range merged) = bytes (lk_Range next) \<union> (\<Union>c \<in> set eaten. bytes (lk_Range c))"
    by (rule planAcquire_merged [OF assms])
  let ?E = "object_entries ob" and ?A = "set (affected ob next)"
  have res: "plan_result ?E (planAcquireLocked ob next) = ie_value ` (?E - ?A) \<union> insert merged (set rest)"
    unfolding plan_result_def planAcquireLocked_parts(1) [OF assms(1,2)] M(1) by auto
  have keep_owner: "lk_Owner c = lk_Owner next" if "c \<in> set (acquire_keep ob next)" for c
    using M(4) that by (auto simp: own_valid_def)
  show ?thesis
  proof (cases "ow = lk_Owner next")
    case False
    have "modes (insert merged (set rest)) ow b = {}"
      using False M(2,5) keep_owner by (auto simp: modes_def)
    moreover have "modes (ie_value ` (?E - ?A)) ow b = modes (object_locks ob) ow b"
      using False by (auto simp: modes_def object_locks_entries affected_iff)
    ultimately show ?thesis unfolding res modes_Un using False by simp
  next
    case True
    have ins: "ty \<in> modes (insert merged (set rest)) ow b \<longleftrightarrow>
        (ty = lk_Type next \<and> b \<in> bytes (lk_Range next)) \<or>
        (\<exists>c \<in> set (acquire_keep ob next). lk_Type c = ty \<and> b \<in> bytes (lk_Range c))" for ty
    proof -
      have "ty \<in> modes (set rest) ow b \<longleftrightarrow> (\<exists>c \<in> set rest. lk_Type c = ty \<and> b \<in> bytes (lk_Range c))"
        using True M(5) keep_owner by (auto simp: modes_def)
      then show ?thesis using True M(2,3,6) unfolding modes_insert M(5,7) by auto
    qed
    have unaff: "b \<notin> bytes (lk_Range (ie_value e))"
      if "e \<in> ?E - ?A" "lk_Owner (ie_value e) = ow" "b \<in> bytes (lk_Range next)" for e
      using that True by (auto simp: affected_iff acquire_affects_def overlaps_def mem_bytes)
    show ?thesis
    proof (cases "b \<in> bytes (lk_Range next)")
      case inside: True
      have "modes (ie_value ` (?E - ?A)) ow b = {}"
        using unaff inside by (auto simp: modes_def)
      moreover have "modes (insert merged (set rest)) ow b = {lk_Type next}"
        by (rule set_eqI) (simp add: ins acquire_keep_bytes [OF assms(1,2)] inside)
      ultimately show ?thesis unfolding res modes_Un using True inside by simp
    next
      case outside: False
      have "modes (insert merged (set rest)) ow b =
          {ty. \<exists>h \<in> ?A. lk_Type (ie_value h) = ty \<and> b \<in> bytes (lk_Range (ie_value h))}"
        by (rule set_eqI) (simp add: ins acquire_keep_bytes [OF assms(1,2)] outside)
      moreover have "modes (object_locks ob) ow b = modes (ie_value ` (?E - ?A)) ow b \<union>
          {ty. \<exists>h \<in> ?A. lk_Type (ie_value h) = ty \<and> b \<in> bytes (lk_Range (ie_value h))}"
        using True by (auto simp: modes_def object_locks_entries affected_iff)
      ultimately show ?thesis unfolding res modes_Un using outside by simp
    qed
  qed
qed

text \<open>The acquire plan keeps the records canonical, provided nobody else's record conflicts.\<close>

lemma coexist_piece:
  assumes "coexist u h" "bytes (lk_Range c) \<subseteq> bytes (lk_Range h)" "lk_Owner c = lk_Owner h" "lk_Type c = lk_Type h"
    "valid_range (lk_Range u)" "valid_range (lk_Range c)" "valid_range (lk_Range h)"
  shows "coexist u c"
  using assms conflicts_mono [of u c h] touch_mono [of "bytes (lk_Range u)" "bytes (lk_Range c)"]
  unfolding coexist_def by (auto split: if_splits)

text \<open>A record that coexists with every part coexists with their union.\<close>

lemma coexist_union:
  assumes "bytes (lk_Range m) = bytes (lk_Range n) \<union> (\<Union>c \<in> C. bytes (lk_Range c))"
    "lk_Owner m = lk_Owner n" "lk_Type m = lk_Type n"
    "\<And>c. c \<in> C \<Longrightarrow> lk_Owner c = lk_Owner n \<and> lk_Type c = lk_Type n \<and> valid_range (lk_Range c) \<and> coexist u c"
    "coexist u n" "valid_range (lk_Range u)" "valid_range (lk_Range n)" "valid_range (lk_Range m)"
  shows "coexist u m"
proof (cases "lk_Owner u = lk_Owner n")
  case True
  have parts: "bytes (lk_Range u) \<inter> bytes (lk_Range c) = {}"
    "lk_Type u = lk_Type n \<Longrightarrow> \<not> touch (bytes (lk_Range u)) (bytes (lk_Range c))" if "c \<in> insert n C" for c
    using that True assms(5) assms(4) [of c] by (cases "c = n"; simp add: coexist_def)+
  have "bytes (lk_Range u) \<inter> bytes (lk_Range m) = {}" unfolding assms(1) using parts(1) by blast
  moreover have "\<not> touch (bytes (lk_Range u)) (bytes (lk_Range m))" if "lk_Type u = lk_Type n"
    unfolding assms(1) using parts(2) [OF _ that] unfolding touch_def by blast
  ultimately show ?thesis using True assms(2,3) by (simp add: coexist_def)
next
  case False
  have "\<not> conflicts u m"
  proof
    assume c: "conflicts u m"
    then obtain b where b: "b \<in> bytes (lk_Range u)" "b \<in> bytes (lk_Range m)"
      using overlaps_bytes assms(6,8) unfolding conflicts_def by blast
    show False
    proof (cases "b \<in> bytes (lk_Range n)")
      case True
      then have "conflicts u n"
        using b(1) c assms(2,3,6,7) overlaps_bytes unfolding conflicts_def by fastforce
      then show False using assms(5) False by (simp add: coexist_def)
    next
      case nb: False
      then obtain d where d: "d \<in> C" "b \<in> bytes (lk_Range d)" using b(2) assms(1) by blast
      then have "conflicts u d"
        using b(1) c assms(2,3) assms(4) [OF d(1)] assms(6) overlaps_bytes unfolding conflicts_def by fastforce
      then show False using assms(4) [OF d(1)] False by (simp add: coexist_def)
    qed
  qed
  then show ?thesis using False assms(2) by (simp add: coexist_def)
qed

theorem planAcquire_ok:
  assumes "object_held_ok ob" "validLock next" "on_object (lk_Object next) ob"
    and free: "\<And>l. l \<in> object_locks ob \<Longrightarrow> \<not> conflicts next l"
  shows "plan_ok (object_entries ob) (planAcquireLocked ob next)"
proof -
  note pre = assms(1-3)
  obtain merged rest eaten where M: "p_insert (planAcquireLocked ob next) = rest @ [merged]"
    "lk_Owner merged = lk_Owner next" "lk_Type merged = lk_Type next"
    "own_list next (acquire_keep ob next)" "own_valid (lk_Owner next) (lk_Object next) (merged # rest)"
    "set (acquire_keep ob next) = set eaten \<union> set rest" "\<forall>c \<in> set eaten. lk_Type c = lk_Type next"
    "bytes (lk_Range merged) = bytes (lk_Range next) \<union> (\<Union>c \<in> set eaten. bytes (lk_Range c))"
    "\<forall>c \<in> set rest. \<not> absorbs merged c"
    by (rule planAcquire_merged [OF pre])
  have valid: "valid_range (lk_Range merged)" "\<And>c. c \<in> set rest \<Longrightarrow> valid_range (lk_Range c)"
    "valid_range (lk_Range next)"
    using M(5) assms(2) by (auto simp: own_valid_def dest: validLock_range)
  have owners: "lk_Owner c = lk_Owner next" if "c \<in> set rest" for c
    using M(5) that by (auto simp: own_valid_def)
  have nottouch: "\<not> touch (bytes (lk_Range x)) (bytes (lk_Range y))"
    if "x \<in> set rest" "y \<in> set rest" "x \<noteq> y" "lk_Type x = lk_Type y" for x y
    using sorted_wrt_symD [OF acquire_keep_sorted [OF pre(1,2)], of x y] that M(6)
    by (auto simp: touch_sym Int_commute)
  have rest: "sorted_wrt coexist rest"
  proof (rule sorted_wrt_mono_rel [rotated])
    show "sorted_wrt (\<lambda>a b. bytes (lk_Range a) \<inter> bytes (lk_Range b) = {}) rest"
      using M(5) by (simp add: own_valid_def)
    fix x y assume xy: "x \<in> set rest" "y \<in> set rest" "bytes (lk_Range x) \<inter> bytes (lk_Range y) = {}"
    then have "x \<noteq> y" using valid(2) bytes_nonempty by blast
    then show "coexist x y" using xy owners nottouch by (simp add: coexist_def)
  qed
  have last: "coexist c merged" if "c \<in> set rest" for c
  proof -
    have d: "bytes (lk_Range c) \<inter> bytes (lk_Range merged) = {}" using M(5) that by (auto simp: own_valid_def)
    then have "\<not> touch (bytes (lk_Range c)) (bytes (lk_Range merged))" if "lk_Type c = lk_Type merged"
      using M(9) that \<open>c \<in> set rest\<close> adjacent_touch [of "lk_Range c" "lk_Range merged"] valid
      by (auto simp: absorbs_def)
    then show ?thesis using d owners [OF that] M(2) by (simp add: coexist_def)
  qed
  have others: "coexist (ie_value e) l"
    if e: "e \<in> object_entries ob" "e \<notin> set (affected ob next)" and l: "l \<in> set (rest @ [merged])" for e l
  proof -
    have ve: "valid_range (lk_Range (ie_value e))" using object_held_okD(2) [OF pre(1) e(1)] .
    have piece: "coexist (ie_value e) c \<and> lk_Owner c = lk_Owner next \<and> valid_range (lk_Range c)"
      if c: "c \<in> set (acquire_keep ob next)" for c
    proof -
      obtain h where h: "h \<in> set (affected ob next)"
        "bytes (lk_Range c) \<subseteq> bytes (lk_Range (ie_value h)) - bytes (lk_Range next)"
        "lk_Owner c = lk_Owner (ie_value h)" "lk_Type c = lk_Type (ie_value h)" "valid_range (lk_Range c)"
        by (rule acquire_keep_origin [OF pre(1,2) c])
      have "h \<in> object_entries ob" "e \<noteq> h" "lk_Owner (ie_value h) = lk_Owner next"
        using h(1) e(2) by (auto simp: affected_iff)
      then show ?thesis
        using coexist_piece [of "ie_value e" "ie_value h" c] object_held_okD(2,3) [OF pre(1)] e(1) h ve by auto
    qed
    have "coexist (ie_value e) next"
    proof (cases "lk_Owner (ie_value e) = lk_Owner next")
      case True
      then have na: "\<not> acquire_affects next (ie_value e)" using e by (simp add: affected_iff)
      then have "bytes (lk_Range (ie_value e)) \<inter> bytes (lk_Range next) = {}"
        using overlaps_bytes [OF ve valid(3)] by (simp add: acquire_affects_def)
      then show ?thesis
        using na True adjacent_touch [OF ve valid(3)] by (auto simp: acquire_affects_def coexist_def)
    next
      case False
      then show ?thesis
        using free [of "ie_value e"] e(1) by (simp add: coexist_def conflicts_sym object_locks_entries)
    qed
    then have "coexist (ie_value e) merged"
      using coexist_union [OF M(8) M(2,3), of "ie_value e"] piece M(6,7) ve valid by auto
    then show ?thesis using l piece M(6) by auto
  qed
  show ?thesis
    unfolding plan_ok_def planAcquireLocked_parts(1) [OF pre(1,2)] M(1)
    using distinct_affected [OF pre(1)] rest last others valid
    by (auto simp: affected_iff sorted_wrt_append)
qed

subsection \<open>The release plan\<close>

definition released :: "objectLocks option \<Rightarrow> LockOwner \<Rightarrow> LockRange \<Rightarrow> Lock ientry list" where
  "released ob owner r =
     (case ob of None \<Rightarrow> []
      | Some o1 \<Rightarrow> filter (\<lambda>e. overlaps (lk_Range (ie_value e)) r \<and> lk_Owner (ie_value e) = owner)
                     (tree_entries (o_held o1)))"

lemma released_iff:
  "e \<in> set (released ob owner r) \<longleftrightarrow>
     e \<in> object_entries ob \<and> lk_Owner (ie_value e) = owner \<and> overlaps (lk_Range (ie_value e)) r"
  by (auto simp: released_def object_entries_def split: option.splits)

lemma planReleaseLocked_parts:
  assumes "object_held_ok ob"
  shows "p_remove (planReleaseLocked ob owner r) = released ob owner r"
    and "p_insert (planReleaseLocked ob owner r) =
           concat (map (\<lambda>n. subtractLock (ie_value n) r) (released ob owner r))"
    and "p_weakens (planReleaseLocked ob owner r) \<longleftrightarrow> released ob owner r \<noteq> []"
proof -
  have "p_remove (planReleaseLocked ob owner r) = released ob owner r \<and>
        p_insert (planReleaseLocked ob owner r) = concat (map (\<lambda>n. subtractLock (ie_value n) r) (released ob owner r)) \<and>
        (p_weakens (planReleaseLocked ob owner r) \<longleftrightarrow> released ob owner r \<noteq> [])"
  proof (cases ob)
    case None
    then show ?thesis by (simp add: planReleaseLocked_def released_def)
  next
    case (Some o1)
    then have ok: "held_ok (o_held o1)" using assms by (simp add: object_held_ok_def)
    have rel: "filter (\<lambda>e. meets r e \<and> lk_Owner (ie_value e) = owner) (tree_entries (o_held o1)) = released ob owner r"
      unfolding released_def Some option.case using held_okD(2) [OF ok] by (intro filter_cong) auto
    show ?thesis
      unfolding planReleaseLocked_def Some option.case Let_def
        tree_overlap_collect [OF held_okD(1) [OF ok], where f = "\<lambda>n. n", unfolded list.map_ident]
      using rel by (simp add: Some releaseScan_eq)
  qed
  then show "p_remove (planReleaseLocked ob owner r) = released ob owner r"
    and "p_insert (planReleaseLocked ob owner r) =
           concat (map (\<lambda>n. subtractLock (ie_value n) r) (released ob owner r))"
    and "p_weakens (planReleaseLocked ob owner r) \<longleftrightarrow> released ob owner r \<noteq> []"
    by blast+
qed

lemma distinct_released: "object_held_ok ob \<Longrightarrow> distinct (released ob owner r)"
  by (cases ob)
     (simp_all add: released_def object_held_ok_def held_ok_def tree_invar_def key_ordered_distinct)

text \<open>Releasing clears exactly the released bytes of exactly that owner.\<close>

theorem planRelease_modes:
  assumes "object_held_ok ob" "valid_range r"
  shows "modes (plan_result (object_entries ob) (planReleaseLocked ob owner r)) ow b =
           (if ow = owner \<and> b \<in> bytes r then {} else modes (object_locks ob) ow b)"
proof -
  let ?E = "object_entries ob" and ?A = "set (released ob owner r)"
  let ?I = "\<Union>h \<in> ?A. set (subtractLock (ie_value h) r)"
  have res: "plan_result ?E (planReleaseLocked ob owner r) = ie_value ` (?E - ?A) \<union> ?I"
    unfolding plan_result_def planReleaseLocked_parts(1,2) [OF assms(1)] by auto
  have pieces: "ty \<in> modes ?I ow b \<longleftrightarrow>
      ow = owner \<and> b \<notin> bytes r \<and> (\<exists>h \<in> ?A. lk_Type (ie_value h) = ty \<and> b \<in> bytes (lk_Range (ie_value h)))" for ty
  proof -
    have each: "(\<exists>c \<in> set (subtractLock (ie_value h) r). lk_Type c = ty \<and> lk_Owner c = ow \<and> b \<in> bytes (lk_Range c)) \<longleftrightarrow>
        ow = owner \<and> b \<notin> bytes r \<and> lk_Type (ie_value h) = ty \<and> b \<in> bytes (lk_Range (ie_value h))"
      if "h \<in> ?A" for h
    proof -
      have h: "overlaps (lk_Range (ie_value h)) r" "lk_Owner (ie_value h) = owner"
        using that by (simp_all add: released_iff)
      show ?thesis
        using bytes_subtractLock [OF assms(2) h(1)] subtractLock_same [of _ "ie_value h" r] h(2)
        by (simp add: set_eq_iff) blast
    qed
    have "ty \<in> modes ?I ow b \<longleftrightarrow>
        (\<exists>h \<in> ?A. \<exists>c \<in> set (subtractLock (ie_value h) r).
           lk_Type c = ty \<and> lk_Owner c = ow \<and> b \<in> bytes (lk_Range c))"
      unfolding modes_def by blast
    also have "\<dots> \<longleftrightarrow> (\<exists>h \<in> ?A. ow = owner \<and> b \<notin> bytes r \<and> lk_Type (ie_value h) = ty \<and>
        b \<in> bytes (lk_Range (ie_value h)))"
      by (intro bex_cong refl each)
    finally show ?thesis by blast
  qed
  have unaff: "b \<notin> bytes r" if "e \<in> ?E - ?A" "lk_Owner (ie_value e) = owner" "b \<in> bytes (lk_Range (ie_value e))" for e
    using that by (auto simp: released_iff overlaps_def mem_bytes)
  show ?thesis
  proof (rule set_eqI)
    fix ty
    have "ty \<in> modes (object_locks ob) ow b \<longleftrightarrow>
        ty \<in> modes (ie_value ` (?E - ?A)) ow b \<or>
        (ow = owner \<and> (\<exists>h \<in> ?A. lk_Type (ie_value h) = ty \<and> b \<in> bytes (lk_Range (ie_value h))))"
      by (auto simp: modes_def object_locks_entries released_iff)
    moreover have "ty \<notin> modes (ie_value ` (?E - ?A)) ow b" if "ow = owner" "b \<in> bytes r"
      using unaff that by (auto simp: modes_def)
    ultimately show "ty \<in> modes (plan_result ?E (planReleaseLocked ob owner r)) ow b \<longleftrightarrow>
        ty \<in> (if ow = owner \<and> b \<in> bytes r then {} else modes (object_locks ob) ow b)"
      unfolding res modes_Un Un_iff pieces by auto
  qed
qed

theorem planRelease_ok:
  assumes "object_held_ok ob" "valid_range r"
  shows "plan_ok (object_entries ob) (planReleaseLocked ob owner r)"
proof -
  let ?E = "object_entries ob" and ?A = "released ob owner r"
  have piece: "bytes (lk_Range c) \<subseteq> bytes (lk_Range (ie_value h))" "lk_Owner c = owner" "lk_Type c = lk_Type (ie_value h)"
    "valid_range (lk_Range c)" "valid_range (lk_Range (ie_value h))" "h \<in> ?E" "lk_Owner (ie_value h) = owner"
    if "h \<in> set ?A" "c \<in> set (subtractLock (ie_value h) r)" for h c
    using that subtractLock_pieces [of r "ie_value h" c] subtractLock_same [OF that(2)] subtractLock_valid [OF that(2)]
      object_held_okD(2) [OF assms(1), of h] assms(2)
    by (auto simp: released_iff)
  have cross: "coexist x y"
    if "h \<in> ?E" "g \<in> set ?A" "h \<noteq> g" "y \<in> set (subtractLock (ie_value g) r)" and
      x: "x = ie_value h \<or> (h \<in> set ?A \<and> x \<in> set (subtractLock (ie_value h) r))" for h g x y
  proof -
    have c: "coexist (ie_value h) (ie_value g)" using object_held_okD(3) [OF assms(1)] that piece(6) by blast
    have v: "valid_range (lk_Range (ie_value h))" using object_held_okD(2) [OF assms(1)] that(1) .
    have hy: "coexist (ie_value h) y"
      using coexist_piece [OF c] piece [OF that(2,4)] v by simp
    show ?thesis
      using x
    proof
      assume "h \<in> set ?A \<and> x \<in> set (subtractLock (ie_value h) r)"
      then have "coexist y x"
        using coexist_piece [OF hy [unfolded coexist_sym [of _ y]], of x] piece [of h x] piece [OF that(2,4)] v by simp
      then show ?thesis by (simp add: coexist_sym)
    qed (use hy in simp)
  qed
  have "sorted_wrt coexist (concat (map (\<lambda>n. subtractLock (ie_value n) r) ?A))"
  proof (rule sorted_wrt_concat)
    fix xs assume "xs \<in> set (map (\<lambda>n. subtractLock (ie_value n) r) ?A)"
    then obtain h where h: "h \<in> set ?A" "xs = subtractLock (ie_value h) r" by auto
    show "sorted_wrt coexist xs"
      unfolding h(2) using subtractLock_sorted [OF assms(2), of "ie_value h"]
      by (rule sorted_wrt_mono_rel [rotated]) (use piece [OF h(1)] in \<open>auto simp: coexist_def\<close>)
  next
    show "sorted_wrt (\<lambda>xs ys. \<forall>x \<in> set xs. \<forall>y \<in> set ys. coexist x y) (map (\<lambda>n. subtractLock (ie_value n) r) ?A)"
      unfolding sorted_wrt_map
      by (rule sorted_wrt_pairwise [OF distinct_released [OF assms(1)]])
         (use cross in \<open>auto simp: released_iff\<close>)
  qed
  moreover have "coexist (ie_value e) l"
    if "e \<in> ?E - set ?A" and l: "l \<in> set (concat (map (\<lambda>n. subtractLock (ie_value n) r) ?A))" for e l
  proof -
    obtain g where "g \<in> set ?A" "l \<in> set (subtractLock (ie_value g) r)" using l by auto
    then show ?thesis using cross [of e g l "ie_value e"] that(1) by blast
  qed
  moreover have "set ?A \<subseteq> ?E" by (auto simp: released_iff)
  moreover have "valid_range (lk_Range l)" if "l \<in> set (concat (map (\<lambda>n. subtractLock (ie_value n) r) ?A))" for l
    using that piece(4) by auto
  ultimately show ?thesis
    unfolding plan_ok_def planReleaseLocked_parts(1,2) [OF assms(1)]
    using distinct_released [OF assms(1)] by blast
qed

end
