(* ===== verification/Lock_Table.thy ===== *)
theory Lock_Table
  imports Lock_Plan "HOL-Library.AList"
begin

text \<open>
  The byte-range lock table, \<^verbatim>\<open>src/vcs/internal/volumeserver/locks.go\<close> lines 300-660 and 856-1082: sessions
  with leases, per-object records and queues, acquisition and release through plans, the
  wake cascade, cancellation, session release and deadlock detection. Every operation is one
  critical section of the table's mutex and is modelled as a state transformer.

  Modelling choices. The table's clock \<open>now\<close> is a function from the number of readings taken
  so far to a time, so successive readings inside one critical section may differ. A waiter's
  \<open>settled\<close> and \<open>err\<close> fields are the partial map \<open>lt_settled\<close> under the waiter's sequence
  number. The two-level map \<open>waiters\<close> of a session is the list of its queued waiters; its
  inner map for an owner is the sublist with that owner. Go leaves the iteration order of maps
  open; the model iterates in list order, and the list orders are arbitrary. Counters that
  the code bounds by \<open>maxRecords\<close> are integers.
\<close>

section \<open>State\<close>

datatype lockError =
    ErrInvalidLock
  | ErrInvalidUnlockRange
  | ErrSessionExpired
  | ErrLockConflict
  | ErrAdmission
  | ErrDeadlock
  | ErrCaller string \<comment> \<open>an error supplied by the caller: \<open>ctx.Err()\<close> or the argument of \<open>InterruptWaiters\<close>\<close>

record lockSession =
  s_expires :: int
  s_records :: int
  s_objects :: "(ObjectKey \<times> int) list"
  s_waiters :: "lockWaiter list"

record wakeRequest =
  wk_object :: ObjectKey
  wk_span :: LockRange

record LockTable =
  lt_objects :: "ObjectKey \<rightharpoonup> objectLocks"
  lt_sessions :: "(SessionID \<times> lockSession) list"
  lt_held :: int
  lt_waiting :: int
  lt_nextID :: nat
  lt_nextSeq :: nat
  lt_maxRecords :: int
  lt_maxPerSession :: int
  lt_now :: "nat \<Rightarrow> int"
  lt_ticks :: nat
  lt_waking :: bool
  lt_pendingWake :: "wakeRequest list"
  lt_settled :: "nat \<rightharpoonup> lockError option"

text \<open>\<open>NewLockTable\<close> panics on bounds that are not positive or not nested.\<close>

definition NewLockTable :: "int \<Rightarrow> int \<Rightarrow> (nat \<Rightarrow> int) \<Rightarrow> LockTable option" where
  "NewLockTable maxRecords maxPerSession now =
     (if maxRecords = 0 \<or> maxPerSession = 0 \<or> maxPerSession > maxRecords then None
      else Some \<lparr>lt_objects = Map.empty, lt_sessions = [], lt_held = 0, lt_waiting = 0,
                 lt_nextID = 0, lt_nextSeq = 0, lt_maxRecords = maxRecords,
                 lt_maxPerSession = maxPerSession, lt_now = now, lt_ticks = 0,
                 lt_waking = False, lt_pendingWake = [], lt_settled = Map.empty\<rparr>)"

abbreviation session_of :: "LockTable \<Rightarrow> SessionID \<Rightarrow> lockSession option" where
  "session_of t \<equiv> map_of (lt_sessions t)"

definition modSession :: "SessionID \<Rightarrow> (lockSession \<Rightarrow> lockSession) \<Rightarrow> LockTable \<Rightarrow> LockTable" where
  "modSession sid f t =
     (case session_of t sid of
        None \<Rightarrow> t
      | Some s \<Rightarrow> t\<lparr>lt_sessions := AList.update sid (f s) (lt_sessions t)\<rparr>)"

definition readClock :: "LockTable \<Rightarrow> int \<times> LockTable" where
  "readClock t = (lt_now t (lt_ticks t), t\<lparr>lt_ticks := Suc (lt_ticks t)\<rparr>)"

section \<open>Sessions\<close>

definition Renew :: "SessionID \<Rightarrow> int \<Rightarrow> LockTable \<Rightarrow> LockTable" where
  "Renew sid expires t = modSession sid (\<lambda>s. s\<lparr>s_expires := expires\<rparr>) t"

definition lease_live :: "lockSession \<Rightarrow> int \<Rightarrow> bool" where
  "lease_live s now \<longleftrightarrow> now < s_expires s"

definition RegisterSession :: "SessionID \<Rightarrow> int \<Rightarrow> LockTable \<Rightarrow> LockTable" where
  "RegisterSession sid expires t =
     (case session_of t sid of
        Some _ \<Rightarrow> t
      | None \<Rightarrow> t\<lparr>lt_sessions := AList.update sid
                   \<lparr>s_expires = expires, s_records = 0, s_objects = [], s_waiters = []\<rparr> (lt_sessions t)\<rparr>)"

definition liveSessionLocked :: "SessionID \<Rightarrow> LockTable \<Rightarrow> lockSession option \<times> LockTable" where
  "liveSessionLocked sid t =
     (case session_of t sid of
        None \<Rightarrow> (None, t)
      | Some s \<Rightarrow>
          let (now, t1) = readClock t
          in if \<not> lease_live s now then (None, t1) else (Some s, t1))"

section \<open>Objects and the waiter queue\<close>

definition objectLocked :: "ObjectKey \<Rightarrow> LockTable \<Rightarrow> LockTable" where
  "objectLocked key t =
     (case lt_objects t key of
        None \<Rightarrow> t\<lparr>lt_objects := (lt_objects t)(key \<mapsto> empty_object)\<rparr>
      | Some _ \<Rightarrow> t)"

definition pruneObjectLocked :: "ObjectKey \<Rightarrow> LockTable \<Rightarrow> LockTable" where
  "pruneObjectLocked key t =
     (case lt_objects t key of
        None \<Rightarrow> t
      | Some o1 \<Rightarrow>
          if it_size (o_held o1) = 0 \<and> it_size (o_waiting o1) = 0
          then t\<lparr>lt_objects := (lt_objects t)(key := None)\<rparr> else t)"

text \<open>\<open>insertWaiterLocked (objectLocked key) w\<close>: the callers always pass the waiter's own object.\<close>

definition insertWaiterLocked :: "lockWaiter \<Rightarrow> LockTable \<Rightarrow> LockTable" where
  "insertWaiterLocked w t0 =
     (let key = lk_Object (w_lock w); t = objectLocked key t0
      in case lt_objects t key of
           None \<Rightarrow> t
         | Some o1 \<Rightarrow>
             let r = lk_Range (w_lock w);
                 o2 = o1\<lparr>o_waiting := tree_insert (lr_Start r) (lr_End r) (w_seq w) w (o_waiting o1)\<rparr>;
                 t1 = t\<lparr>lt_objects := (lt_objects t)(key \<mapsto> o2)\<rparr>;
                 t2 = modSession (w_session w)
                        (\<lambda>s. s\<lparr>s_waiters := s_waiters s @ [w], s_records := s_records s + 1\<rparr>) t1
             in t2\<lparr>lt_waiting := lt_waiting t2 + 1\<rparr>)"

definition removeWaiterLocked :: "lockWaiter \<Rightarrow> LockTable \<Rightarrow> LockTable" where
  "removeWaiterLocked w t =
     (let key = lk_Object (w_lock w); r = lk_Range (w_lock w)
      in case lt_objects t key of
           None \<Rightarrow> t
         | Some o1 \<Rightarrow>
             let (waiting, removed) = tree_remove (lr_Start r) (lr_End r) (w_seq w) (o_waiting o1);
                 t1 = t\<lparr>lt_objects := (lt_objects t)(key \<mapsto> o1\<lparr>o_waiting := waiting\<rparr>)\<rparr>
             in if \<not> removed then t1
                else let t2 = modSession (w_session w)
                           (\<lambda>s. s\<lparr>s_waiters := filter (\<lambda>x. w_seq x \<noteq> w_seq w) (s_waiters s),
                                  s_records := s_records s - 1\<rparr>) t1
                     in t2\<lparr>lt_waiting := lt_waiting t2 - 1\<rparr>)"

definition settledWaiter :: "LockTable \<Rightarrow> lockWaiter \<Rightarrow> bool" where
  "settledWaiter t w \<longleftrightarrow> lt_settled t (w_seq w) \<noteq> None"

definition settleWaiterLocked :: "lockWaiter \<Rightarrow> lockError option \<Rightarrow> LockTable \<Rightarrow> LockTable" where
  "settleWaiterLocked w err t =
     (if settledWaiter t w then t
      else t\<lparr>lt_settled := (lt_settled t)(w_seq w \<mapsto> err)\<rparr>)"

section \<open>Applying a plan\<close>

text \<open>
  \<open>applyPlanLocked\<close>, \<open>cancelWaiterLocked\<close> and \<open>wakeEligibleLocked\<close> call each other. The
  cycle is cut by the code's own \<open>waking\<close> flag: a wake requested while the cascade runs is only
  appended to \<open>pendingWake\<close>. The first two therefore take the wake routine as an argument:
  \<open>queueWake\<close> inside the cascade, \<open>wakeEligibleLocked\<close> outside; on a table whose \<open>waking\<close>
  flag is set the two are the same function (\<open>wakeEligibleLocked_waking\<close>).
\<close>

type_synonym wakeRoutine = "ObjectKey \<Rightarrow> LockRange \<Rightarrow> LockTable \<Rightarrow> LockTable"

definition queueWake :: wakeRoutine where
  "queueWake object span t =
     t\<lparr>lt_pendingWake := lt_pendingWake t @ [\<lparr>wk_object = object, wk_span = span\<rparr>]\<rparr>"

definition removeEntries :: "'a ientry list \<Rightarrow> 'a intervalTree \<Rightarrow> 'a intervalTree" where
  "removeEntries es tr = fold (\<lambda>e tr. fst (tree_remove (ie_start e) (ie_end e) (ie_id e) tr)) es tr"

fun insertLocks :: "nat \<Rightarrow> Lock list \<Rightarrow> Lock intervalTree \<Rightarrow> nat \<times> Lock intervalTree" where
  "insertLocks next [] tr = (next, tr)"
| "insertLocks next (l # ls) tr =
     insertLocks (Suc next) ls
       (tree_insert (lr_Start (lk_Range l)) (lr_End (lk_Range l)) (Suc next) l tr)"

definition object_count :: "lockSession \<Rightarrow> ObjectKey \<Rightarrow> int" where
  "object_count s key = (case map_of (s_objects s) key of None \<Rightarrow> 0 | Some n \<Rightarrow> n)"

definition sessionRecords :: "LockTable \<Rightarrow> SessionID \<Rightarrow> int" where
  "sessionRecords t sid = (case session_of t sid of None \<Rightarrow> 0 | Some s \<Rightarrow> s_records s)"

definition applyPlanLocked ::
  "wakeRoutine \<Rightarrow> ObjectKey \<Rightarrow> SessionID \<Rightarrow> lockPlan \<Rightarrow> LockTable \<Rightarrow> lockError option \<times> LockTable" where
  "applyPlanLocked wake object sid plan t0 =
     (let removed = int (length (p_remove plan)); added = int (length (p_insert plan)) in
      if added > removed \<and>
         (lt_held t0 + lt_waiting t0 + (added - removed) > lt_maxRecords t0 \<or>
          sessionRecords t0 sid + (added - removed) > lt_maxPerSession t0)
      then (Some ErrAdmission, t0)
      else
        let t = objectLocked object t0 in
        case lt_objects t object of
          None \<Rightarrow> (None, t)
        | Some o1 \<Rightarrow>
            let (nextID, held) = insertLocks (lt_nextID t) (p_insert plan) (removeEntries (p_remove plan) (o_held o1));
                t1 = t\<lparr>lt_objects := (lt_objects t)(object \<mapsto> o1\<lparr>o_held := held\<rparr>),
                       lt_nextID := nextID,
                       lt_held := lt_held t - removed + added\<rparr>;
                t2 = modSession sid
                       (\<lambda>s. let count = object_count s object - removed + added
                            in s\<lparr>s_records := s_records s - removed + added,
                                 s_objects := (if count = 0 then AList.delete object (s_objects s)
                                               else AList.update object count (s_objects s))\<rparr>) t1
            in (None, if p_weakens plan then wake object (p_touched plan) t2 else t2))"

definition cancelWaiterLocked :: "wakeRoutine \<Rightarrow> lockWaiter \<Rightarrow> lockError option \<Rightarrow> LockTable \<Rightarrow> LockTable" where
  "cancelWaiterLocked wake w err t =
     (let key = lk_Object (w_lock w)
      in case lt_objects t key of
           Some _ \<Rightarrow>
             pruneObjectLocked key
               (wake key (lk_Range (w_lock w))
                 (settleWaiterLocked w err (removeWaiterLocked w t)))
         | None \<Rightarrow> settleWaiterLocked w err t)"

section \<open>The wake cascade\<close>

definition session_live_at :: "LockTable \<Rightarrow> SessionID \<Rightarrow> int \<Rightarrow> bool" where
  "session_live_at t sid now = (case session_of t sid of None \<Rightarrow> False | Some s \<Rightarrow> lease_live s now)"

fun grantLoop :: "ObjectKey \<Rightarrow> int \<Rightarrow> lockWaiter list \<Rightarrow> LockTable \<Rightarrow> LockTable" where
  "grantLoop object now [] t = t"
| "grantLoop object now (w # ws) t =
     (if settledWaiter t w then grantLoop object now ws t
      else case lt_objects t object of
        None \<Rightarrow> t
      | Some o1 \<Rightarrow>
          if \<not> session_live_at t (w_session w) now
          then grantLoop object now ws (cancelWaiterLocked queueWake w (Some ErrSessionExpired) t)
          else if \<not> waiterEligibleLocked (Some o1) w then grantLoop object now ws t
          else
            let plan = planAcquireLocked (Some o1) (w_lock w);
                t1 = removeWaiterLocked w t
            in case applyPlanLocked queueWake object (w_session w) plan t1 of
                 (Some err, t2) \<Rightarrow>
                   grantLoop object now ws
                     (queueWake object (lk_Range (w_lock w)) (settleWaiterLocked w (Some err) t2))
               | (None, t2) \<Rightarrow> grantLoop object now ws (settleWaiterLocked w None t2))"

definition grantEligibleLocked :: "ObjectKey \<Rightarrow> LockRange \<Rightarrow> LockTable \<Rightarrow> LockTable" where
  "grantEligibleLocked object span t =
     (case lt_objects t object of
        None \<Rightarrow> t
      | Some o1 \<Rightarrow>
          if it_size (o_waiting o1) = 0 then t
          else
            let candidates = sort_key w_seq
                  (tree_overlap (o_waiting o1) span (\<lambda>n acc. (True, acc @ [ie_value n])) []);
                (now, t1) = readClock t
            in grantLoop object now candidates t1)"

text \<open>
  The drain loop runs while there are pending requests. Every pass that appends requests
  removes at least as many waiters from the object's queue, so the queue length plus the
  number of pending requests is enough fuel (\<open>wakeDrain_done\<close>).
\<close>

fun wakeDrain :: "nat \<Rightarrow> nat \<Rightarrow> LockTable \<Rightarrow> LockTable" where
  "wakeDrain 0 i t = t"
| "wakeDrain (Suc fuel) i t =
     (if i < length (lt_pendingWake t)
      then let request = lt_pendingWake t ! i
           in wakeDrain fuel (Suc i) (grantEligibleLocked (wk_object request) (wk_span request) t)
      else t)"

definition queue_length :: "LockTable \<Rightarrow> ObjectKey \<Rightarrow> nat" where
  "queue_length t key =
     (case lt_objects t key of None \<Rightarrow> 0 | Some o1 \<Rightarrow> length (tree_entries (o_waiting o1)))"

definition wakeEligibleLocked :: wakeRoutine where
  "wakeEligibleLocked object span t =
     (let t1 = queueWake object span t
      in if lt_waking t1 then t1
         else let t2 = t1\<lparr>lt_waking := True\<rparr>;
                  t3 = wakeDrain (Suc (length (lt_pendingWake t2) + queue_length t2 object)) 0 t2
              in t3\<lparr>lt_pendingWake := [], lt_waking := False\<rparr>)"

section \<open>Deadlock detection\<close>

fun blockersIn :: "lockWaiter \<Rightarrow> objectLocks \<Rightarrow> LockRange list \<Rightarrow> LockOwner list" where
  "blockersIn w o1 [] = []"
| "blockersIn w o1 (segment # segments) =
     (let probe = (w_lock w)\<lparr>lk_Range := segment\<rparr>
      in tree_overlap (o_waiting o1) segment
           (\<lambda>n acc. (True, if w_seq (ie_value n) < w_seq w \<and> conflicts probe (w_lock (ie_value n))
                           then acc @ [lk_Owner (w_lock (ie_value n))] else acc)) []
         @ blockersIn w o1 segments)"

definition blockersLocked :: "lockWaiter \<Rightarrow> LockTable \<Rightarrow> LockOwner list" where
  "blockersLocked w t =
     (case lt_objects t (lk_Object (w_lock w)) of
        None \<Rightarrow> []
      | Some o1 \<Rightarrow>
          tree_overlap (o_held o1) (lk_Range (w_lock w))
            (\<lambda>n acc. (True, if conflicts (w_lock w) (ie_value n) then acc @ [lk_Owner (ie_value n)] else acc)) []
          @ blockersIn w o1 (residualLocked (Some o1) (w_lock w)))"

text \<open>The requests an owner has queued: \<open>s.waiters[owner]\<close> of the owner's session.\<close>

definition ownerWaiters :: "LockTable \<Rightarrow> LockOwner \<Rightarrow> lockWaiter list" where
  "ownerWaiters t owner =
     (case session_of t (ow_Session owner) of
        None \<Rightarrow> []
      | Some s \<Rightarrow> filter (\<lambda>w. lk_Owner (w_lock w) = owner) (s_waiters s))"

definition waiting_owners :: "LockTable \<Rightarrow> LockOwner set" where
  "waiting_owners t = (\<Union>(sid, s) \<in> set (lt_sessions t). (lk_Owner \<circ> w_lock) ` set (s_waiters s))"

lemma finite_waiting_owners [simp]: "finite (waiting_owners t)"
  by (auto simp: waiting_owners_def)

lemma ownerWaiters_owners: "ownerWaiters t owner \<noteq> [] \<Longrightarrow> owner \<in> waiting_owners t"
  by (fastforce simp: ownerWaiters_def waiting_owners_def filter_empty_conv dest: map_of_SomeD
        split: option.splits)

function deadlockLoop ::
  "LockTable \<Rightarrow> lockWaiter \<Rightarrow> LockOwner list \<Rightarrow> LockOwner list \<Rightarrow> bool" where
  "deadlockLoop t w visited frontier =
     (if frontier = [] then False
      else
        let owner = last frontier; frontier1 = butlast frontier
        in if owner = lk_Owner (w_lock w) then True
           else if owner \<in> set visited then deadlockLoop t w visited frontier1
           else deadlockLoop t w (owner # visited)
                  (frontier1 @ concat (map (\<lambda>other. if other = w then [] else blockersLocked other t)
                                           (ownerWaiters t owner))))"
  by pat_completeness auto
termination
proof (relation "measures [\<lambda>(t, w, visited, frontier). card (waiting_owners t - set visited),
                           \<lambda>(t, w, visited, frontier). length frontier]", goal_cases)
  case 1
  then show ?case by simp
next
  case (2 t w visited frontier owner frontier1)
  then show ?case by simp
next
  case (3 t w visited frontier owner frontier1)
  show ?case
  proof (cases "owner \<in> waiting_owners t")
    case True
    then have "card (waiting_owners t - set (owner # visited)) < card (waiting_owners t - set visited)"
      using 3 by (intro psubset_card_mono) auto
    then show ?thesis by simp
  next
    case False
    then have "ownerWaiters t owner = []" using ownerWaiters_owners by blast
    moreover have "waiting_owners t - set (owner # visited) = waiting_owners t - set visited"
      using False by auto
    ultimately show ?thesis using 3 by simp
  qed
qed

definition deadlockLocked :: "lockWaiter \<Rightarrow> LockTable \<Rightarrow> bool" where
  "deadlockLocked w t = deadlockLoop t w [] (blockersLocked w t)"

section \<open>Operations\<close>

definition Get :: "Lock \<Rightarrow> LockTable \<Rightarrow> (lockError + Lock option) \<times> LockTable" where
  "Get want t =
     (if \<not> validLock want then (Inl ErrInvalidLock, t)
      else case liveSessionLocked (ow_Session (lk_Owner want)) t of
             (None, t1) \<Rightarrow> (Inl ErrSessionExpired, t1)
           | (Some _, t1) \<Rightarrow> (Inr (conflictLocked (lt_objects t1 (lk_Object want)) want), t1))"

text \<open>\<open>math.MaxUint64\<close> as a bound above every sequence number.\<close>

definition maxSeq :: int where
  "maxSeq = 18446744073709551615"

definition Set :: "Lock \<Rightarrow> LockTable \<Rightarrow> lockError option \<times> LockTable" where
  "Set lock t =
     (if \<not> validLock lock then (Some ErrInvalidLock, t)
      else case liveSessionLocked (ow_Session (lk_Owner lock)) t of
        (None, t1) \<Rightarrow> (Some ErrSessionExpired, t1)
      | (Some _, t1) \<Rightarrow>
          let ob = lt_objects t1 (lk_Object lock)
          in if conflictLocked ob lock \<noteq> None then (Some ErrLockConflict, t1)
             else
               let residual = residualLocked ob lock
               in if residual \<noteq> [] \<and> queuedAheadLocked ob lock residual maxSeq \<noteq> None
                  then (Some ErrLockConflict, t1)
                  else
                    let (err, t2) = applyPlanLocked wakeEligibleLocked (lk_Object lock)
                                      (ow_Session (lk_Owner lock)) (planAcquireLocked ob lock) t1
                    in (err, pruneObjectLocked (lk_Object lock) t2))"

definition BeginWait :: "Lock \<Rightarrow> LockTable \<Rightarrow> (lockError + lockWaiter) \<times> LockTable" where
  "BeginWait lock t =
     (if \<not> validLock lock then (Inl ErrInvalidLock, t)
      else case liveSessionLocked (ow_Session (lk_Owner lock)) t of
        (None, t1) \<Rightarrow> (Inl ErrSessionExpired, t1)
      | (Some s, t1) \<Rightarrow>
          let t2 = t1\<lparr>lt_nextSeq := Suc (lt_nextSeq t1)\<rparr>;
              w = \<lparr>w_lock = lock, w_seq = lt_nextSeq t2, w_session = ow_Session (lk_Owner lock)\<rparr>;
              ob = lt_objects t2 (lk_Object lock)
          in if waiterEligibleLocked ob w
             then let (err, t3) = applyPlanLocked wakeEligibleLocked (lk_Object lock)
                                    (w_session w) (planAcquireLocked ob lock) t2
                  in (Inr w, settleWaiterLocked w err (pruneObjectLocked (lk_Object lock) t3))
             else if lt_held t2 + lt_waiting t2 + 1 > lt_maxRecords t2 \<or>
                     s_records s + 1 > lt_maxPerSession t2
             then (Inl ErrAdmission, t2)
             else let t3 = insertWaiterLocked w t2
                  in if deadlockLocked w t3
                     then let t4 = cancelWaiterLocked wakeEligibleLocked w (Some ErrDeadlock) t3
                          in (Inl (case lt_settled t4 (w_seq w) of Some (Some err) \<Rightarrow> err | _ \<Rightarrow> ErrDeadlock), t4)
                     else (Inr w, t3))"

text \<open>
  \<open>Await\<close> returns when the waiter's \<open>done\<close> channel is closed or the context ends. The model
  takes the outcome of the \<open>select\<close> as an argument: \<open>None\<close> when \<open>done\<close> was chosen, which needs a
  settled waiter, and the context's error otherwise. The outer option of the result is \<open>None\<close>
  while the call still blocks.
\<close>

definition Await :: "lockWaiter \<Rightarrow> string option \<Rightarrow> LockTable \<Rightarrow> lockError option option \<times> LockTable" where
  "Await w ctxDone t =
     (case ctxDone of
        None \<Rightarrow> (lt_settled t (w_seq w), t)
      | Some err \<Rightarrow>
          let t1 = (if \<not> settledWaiter t w then cancelWaiterLocked wakeEligibleLocked w (Some (ErrCaller err)) t else t)
          in (lt_settled t1 (w_seq w), t1))"

text \<open>\<open>Wait\<close> is admission followed by the wait; \<open>between\<close> is what other callers do to the table meanwhile.\<close>

definition Wait :: "Lock \<Rightarrow> (LockTable \<Rightarrow> LockTable) \<Rightarrow> string option \<Rightarrow> LockTable \<Rightarrow>
    lockError option option \<times> LockTable" where
  "Wait lock between ctxDone t =
     (case BeginWait lock t of
        (Inl err, t1) \<Rightarrow> (Some (Some err), t1)
      | (Inr w, t1) \<Rightarrow> Await w ctxDone (between t1))"

definition dropWaiter :: "lockError option \<Rightarrow> lockWaiter \<Rightarrow> LockTable \<Rightarrow> LockTable" where
  "dropWaiter err w t = settleWaiterLocked w err (removeWaiterLocked w t)"

definition InterruptWaiters :: "lockError option \<Rightarrow> LockTable \<Rightarrow> LockTable" where
  "InterruptWaiters err0 t =
     (let err = (case err0 of None \<Rightarrow> ErrSessionExpired | Some e \<Rightarrow> e);
          waiters = concat (map (s_waiters \<circ> snd) (lt_sessions t));
          t1 = fold (dropWaiter (Some err)) waiters t;
          touched = remdups (map (lk_Object \<circ> w_lock) waiters)
      in fold pruneObjectLocked touched t1)"

definition Unlock :: "ObjectKey \<Rightarrow> LockOwner \<Rightarrow> LockRange \<Rightarrow> LockTable \<Rightarrow> lockError option \<times> LockTable" where
  "Unlock object owner r t =
     (if lr_Start r > lr_End r then (Some ErrInvalidUnlockRange, t)
      else case liveSessionLocked (ow_Session owner) t of
        (None, t1) \<Rightarrow> (Some ErrSessionExpired, t1)
      | (Some _, t1) \<Rightarrow>
          let plan = planReleaseLocked (lt_objects t1 object) owner r
          in if p_remove plan = [] then (None, t1)
             else let (err, t2) = applyPlanLocked wakeEligibleLocked object (ow_Session owner) plan t1
                  in (err, pruneObjectLocked object t2))"

subsection \<open>Session release\<close>

type_synonym touchedSpans = "(ObjectKey \<times> LockRange) list"

definition extendTouched :: "ObjectKey \<Rightarrow> LockRange \<Rightarrow> touchedSpans \<Rightarrow> touchedSpans" where
  "extendTouched object r touched =
     (case map_of touched object of
        Some current \<Rightarrow> AList.update object (coverRange current r) touched
      | None \<Rightarrow> AList.update object r touched)"

definition dropSessionObject ::
  "SessionID \<Rightarrow> ObjectKey \<Rightarrow> LockTable \<times> touchedSpans \<Rightarrow> LockTable \<times> touchedSpans" where
  "dropSessionObject sid object st =
     (let (t, touched) = st
      in case lt_objects t object of
           None \<Rightarrow> (t, touched)
         | Some o1 \<Rightarrow>
             let doomed = tree_all (o_held o1)
                   (\<lambda>n acc. (True, if ow_Session (lk_Owner (ie_value n)) = sid then acc @ [n] else acc)) []
             in (t\<lparr>lt_objects := (lt_objects t)(object \<mapsto> o1\<lparr>o_held := removeEntries doomed (o_held o1)\<rparr>),
                   lt_held := lt_held t - int (length doomed)\<rparr>,
                 fold (\<lambda>n. extendTouched object (lk_Range (ie_value n))) doomed touched))"

definition ReleaseSession :: "SessionID \<Rightarrow> LockTable \<Rightarrow> LockTable" where
  "ReleaseSession sid t =
     (case session_of t sid of
        None \<Rightarrow> t
      | Some s \<Rightarrow>
          let t1 = t\<lparr>lt_sessions := AList.delete sid (lt_sessions t)\<rparr>;
              t2 = fold (dropWaiter (Some ErrSessionExpired)) (s_waiters s) t1;
              touched2 = fold (\<lambda>w. extendTouched (lk_Object (w_lock w)) (lk_Range (w_lock w))) (s_waiters s) [];
              (t3, touched3) = fold (dropSessionObject sid) (map fst (s_objects s)) (t2, touched2);
              t4 = fold (\<lambda>(object, span). wakeEligibleLocked object span) touched3 t3
          in fold (pruneObjectLocked \<circ> fst) touched3 t4)"

end
