(* ===== verification/Lock_Safety.thy ===== *)
theory Lock_Safety
  imports Lock_Table
begin

text \<open>
  The invariant of the lock table and its preservation by every operation of
  \<^verbatim>\<open>src/vcs/internal/volumeserver/locks.go\<close>. The table is viewed as one list of records and one list of queue
  entries per object; objects that exist but hold nothing are invisible in this view.
\<close>

section \<open>Views\<close>

definition held_at :: "LockTable \<Rightarrow> ObjectKey \<Rightarrow> Lock ientry list" where
  "held_at t key = (case lt_objects t key of None \<Rightarrow> [] | Some o1 \<Rightarrow> tree_entries (o_held o1))"

definition queue_at :: "LockTable \<Rightarrow> ObjectKey \<Rightarrow> lockWaiter ientry list" where
  "queue_at t key = (case lt_objects t key of None \<Rightarrow> [] | Some o1 \<Rightarrow> tree_entries (o_waiting o1))"

definition queued :: "LockTable \<Rightarrow> lockWaiter \<Rightarrow> bool" where
  "queued t w \<longleftrightarrow> (\<exists>key. w \<in> ie_value ` set (queue_at t key))"

definition total_len :: "('k \<Rightarrow> 'a list) \<Rightarrow> int" where
  "total_len f = (\<Sum>k | f k \<noteq> []. int (length (f k)))"

definition of_session :: "SessionID \<Rightarrow> Lock ientry \<Rightarrow> bool" where
  "of_session sid e \<longleftrightarrow> ow_Session (lk_Owner (ie_value e)) = sid"

definition registered :: "LockTable \<Rightarrow> SessionID \<Rightarrow> bool" where
  "registered t sid \<longleftrightarrow> session_of t sid \<noteq> None"

section \<open>The invariant\<close>

definition shape_inv :: "LockTable \<Rightarrow> bool" where
  "shape_inv t \<longleftrightarrow>
     finite (dom (lt_objects t)) \<and> distinct (map fst (lt_sessions t)) \<and>
     (\<forall>key o1. lt_objects t key = Some o1 \<longrightarrow> held_ok (o_held o1) \<and> tree_invar (o_waiting o1))"

definition held_inv :: "LockTable \<Rightarrow> bool" where
  "held_inv t \<longleftrightarrow>
     (\<forall>key. \<forall>e \<in> set (held_at t key).
        lk_Object (ie_value e) = key \<and> ie_id e \<le> lt_nextID t \<and>
        registered t (ow_Session (lk_Owner (ie_value e))))"

definition queued_entry :: "ObjectKey \<Rightarrow> lockWaiter ientry \<Rightarrow> bool" where
  "queued_entry key e \<longleftrightarrow>
     (let w = ie_value e
      in ie_id e = w_seq w \<and> entry_range e = lk_Range (w_lock w) \<and> lk_Object (w_lock w) = key \<and>
         validLock (w_lock w) \<and> w_session w = ow_Session (lk_Owner (w_lock w)))"

definition queue_inv :: "LockTable \<Rightarrow> bool" where
  "queue_inv t \<longleftrightarrow>
     (\<forall>key. \<forall>e \<in> set (queue_at t key). queued_entry key e) \<and>
     (\<forall>w. queued t w \<longrightarrow>
        w_seq w \<le> lt_nextSeq t \<and> lt_settled t (w_seq w) = None \<and> registered t (w_session w)) \<and>
     (\<forall>w1 w2. queued t w1 \<longrightarrow> queued t w2 \<longrightarrow> w_seq w1 = w_seq w2 \<longrightarrow> w1 = w2)"

definition index_inv :: "LockTable \<Rightarrow> bool" where
  "index_inv t \<longleftrightarrow>
     (\<forall>sid s. session_of t sid = Some s \<longrightarrow>
        set (s_waiters s) = {w. queued t w \<and> w_session w = sid} \<and> distinct (s_waiters s))"

definition session_count :: "LockTable \<Rightarrow> SessionID \<Rightarrow> lockSession \<Rightarrow> bool" where
  "session_count t sid s \<longleftrightarrow>
     distinct (map fst (s_objects s)) \<and>
     (\<forall>key. map_of (s_objects s) key \<noteq> Some 0) \<and>
     (\<forall>key. object_count s key = int (length (filter (of_session sid) (held_at t key)))) \<and>
     s_records s = sum_list (map snd (s_objects s)) + int (length (s_waiters s)) \<and>
     s_records s \<le> lt_maxPerSession t"

definition count_inv :: "LockTable \<Rightarrow> bool" where
  "count_inv t \<longleftrightarrow> (\<forall>sid s. session_of t sid = Some s \<longrightarrow> session_count t sid s)"

definition total_inv :: "LockTable \<Rightarrow> bool" where
  "total_inv t \<longleftrightarrow>
     lt_held t = total_len (held_at t) \<and> lt_waiting t = total_len (queue_at t) \<and>
     lt_held t + lt_waiting t \<le> lt_maxRecords t"

definition table_ok :: "LockTable \<Rightarrow> bool" where
  "table_ok t \<longleftrightarrow> shape_inv t \<and> held_inv t \<and> queue_inv t \<and> index_inv t \<and> count_inv t \<and> total_inv t"

lemmas inv_defs = shape_inv_def held_inv_def queue_inv_def index_inv_def count_inv_def total_inv_def

section \<open>Lemmas on the views\<close>

lemma total_len_upd:
  assumes "finite {k. f k \<noteq> []}"
  shows "total_len (f(k := xs)) = total_len f - int (length (f k)) + int (length xs)"
proof -
  let ?S = "insert k {k. f k \<noteq> []}"
  have sub: "total_len g = (\<Sum>j \<in> ?S. int (length (g j)))" if "{j. g j \<noteq> []} \<subseteq> ?S" for g :: "'a \<Rightarrow> 'b list"
    unfolding total_len_def using assms that by (intro sum.mono_neutral_left) auto
  have "total_len (f(k := xs)) = (\<Sum>j \<in> ?S. int (length ((f(k := xs)) j)))" by (intro sub) auto
  also have "\<dots> = int (length xs) + (\<Sum>j \<in> ?S - {k}. int (length (f j)))"
    using assms by (subst sum.remove [of _ k]) auto
  also have "(\<Sum>j \<in> ?S - {k}. int (length (f j))) = total_len f - int (length (f k))"
    using assms sub [OF subset_insertI] sum.remove [of ?S k "\<lambda>j. int (length (f j))"] by auto
  finally show ?thesis by (simp only: algebra_simps)
qed

lemma total_len_nonneg: "0 \<le> total_len f"
  by (simp add: total_len_def sum_nonneg)

lemma total_len_le: "finite {k. f k \<noteq> []} \<Longrightarrow> int (length (f k)) \<le> total_len f"
  using total_len_upd [of f k "[]"] total_len_nonneg [of "f(k := [])"] by simp

lemma held_at_put:
  "held_at (t\<lparr>lt_objects := (lt_objects t)(key \<mapsto> o1)\<rparr>) = (held_at t)(key := tree_entries (o_held o1))"
  by (auto simp: held_at_def)

lemma queue_at_put:
  "queue_at (t\<lparr>lt_objects := (lt_objects t)(key \<mapsto> o1)\<rparr>) = (queue_at t)(key := tree_entries (o_waiting o1))"
  by (auto simp: queue_at_def)

lemma views_cong:
  "lt_objects t = lt_objects u \<Longrightarrow> held_at t = held_at u"
  "lt_objects t = lt_objects u \<Longrightarrow> queue_at t = queue_at u"
  "lt_objects t = lt_objects u \<Longrightarrow> queued t = queued u"
  by (auto simp: held_at_def queue_at_def queued_def fun_eq_iff)

lemma views_finite:
  assumes "shape_inv t"
  shows "finite {k. held_at t k \<noteq> []}" "finite {k. queue_at t k \<noteq> []}"
proof -
  have "finite (dom (lt_objects t))" using assms by (simp add: shape_inv_def)
  then show "finite {k. held_at t k \<noteq> []}" "finite {k. queue_at t k \<noteq> []}"
    by (auto elim!: finite_subset [rotated] simp: held_at_def queue_at_def split: option.splits)
qed

lemma session_of_modSession:
  "session_of (modSession sid f t) = (session_of t)(sid := map_option f (session_of t sid))"
  by (auto simp: modSession_def update_conv' fun_eq_iff split: option.splits)

lemma modSession_fields [simp]:
  "lt_objects (modSession sid f t) = lt_objects t" "lt_held (modSession sid f t) = lt_held t"
  "lt_waiting (modSession sid f t) = lt_waiting t" "lt_nextID (modSession sid f t) = lt_nextID t"
  "lt_nextSeq (modSession sid f t) = lt_nextSeq t" "lt_maxRecords (modSession sid f t) = lt_maxRecords t"
  "lt_maxPerSession (modSession sid f t) = lt_maxPerSession t" "lt_settled (modSession sid f t) = lt_settled t"
  "lt_pendingWake (modSession sid f t) = lt_pendingWake t" "lt_waking (modSession sid f t) = lt_waking t"
  "lt_now (modSession sid f t) = lt_now t" "lt_ticks (modSession sid f t) = lt_ticks t"
  by (simp_all add: modSession_def split: option.splits)

lemma modSession_distinct [simp]:
  "distinct (map fst (lt_sessions t)) \<Longrightarrow> distinct (map fst (lt_sessions (modSession sid f t)))"
  by (simp add: modSession_def distinct_update split: option.splits)

lemma queued_key:
  assumes "table_ok t" "queued t w"
  shows "w \<in> ie_value ` set (queue_at t (lk_Object (w_lock w)))"
proof -
  obtain key e where "e \<in> set (queue_at t key)" "w = ie_value e" using assms(2) by (auto simp: queued_def)
  then have "queued_entry key e" using assms(1) by (auto simp: table_ok_def queue_inv_def)
  with \<open>e \<in> _\<close> \<open>w = _\<close> show ?thesis by (auto simp: queued_entry_def Let_def)
qed

lemma queued_facts:
  assumes "table_ok t" "queued t w"
  shows "lt_settled t (w_seq w) = None" "w_seq w \<le> lt_nextSeq t" "registered t (w_session w)"
    and "queued t w2 \<Longrightarrow> w_seq w2 = w_seq w \<Longrightarrow> w2 = w"
    and "validLock (w_lock w)" "w_session w = ow_Session (lk_Owner (w_lock w))"
proof -
  obtain key e where "e \<in> set (queue_at t key)" "w = ie_value e" using assms(2) by (auto simp: queued_def)
  then have "queued_entry key e" using assms(1) by (auto simp: table_ok_def queue_inv_def)
  with \<open>w = _\<close> show "validLock (w_lock w)" "w_session w = ow_Session (lk_Owner (w_lock w))"
    by (auto simp: queued_entry_def Let_def)
qed (use assms in \<open>auto simp: table_ok_def queue_inv_def\<close>)

lemma object_view:
  assumes "table_ok t"
  shows "object_held_ok (lt_objects t key)" "on_object key (lt_objects t key)"
    and "object_entries (lt_objects t key) = set (held_at t key)"
    and "object_locks (lt_objects t key) = ie_value ` set (held_at t key)"
  using assms
  by (auto simp: table_ok_def shape_inv_def held_inv_def object_held_ok_def on_object_def object_entries_def
      object_locks_def held_locks_def held_at_def split: option.splits)

section \<open>Steps that change nothing in the view\<close>

lemma table_ok_cong:
  assumes "table_ok t" "finite (dom (lt_objects u))"
    and "\<And>key o1. lt_objects u key = Some o1 \<Longrightarrow> held_ok (o_held o1) \<and> tree_invar (o_waiting o1)"
    and "held_at u = held_at t" "queue_at u = queue_at t" "lt_sessions u = lt_sessions t"
    and "lt_held u = lt_held t" "lt_waiting u = lt_waiting t" "lt_nextID t \<le> lt_nextID u"
    and "lt_nextSeq t \<le> lt_nextSeq u" "lt_maxRecords u = lt_maxRecords t"
    and "lt_maxPerSession u = lt_maxPerSession t"
    and "\<And>w. queued t w \<Longrightarrow> lt_settled u (w_seq w) = None"
  shows "table_ok u"
proof -
  have q: "queued u = queued t" using assms(5) by (auto simp: queued_def fun_eq_iff)
  have r: "registered u = registered t" using assms(6) by (simp add: registered_def fun_eq_iff)
  have ok: "shape_inv t" "held_inv t" "queue_inv t" "index_inv t" "count_inv t" "total_inv t"
    using assms(1) by (simp_all add: table_ok_def)
  have "shape_inv u" using ok(1) assms(2,3) by (simp add: shape_inv_def assms(6))
  moreover have "held_inv u" using ok(2) assms(9) unfolding held_inv_def r assms(4) by fastforce
  moreover have "queue_inv u" using ok(3) assms(10,13) unfolding queue_inv_def r q assms(5) by fastforce
  moreover have "index_inv u" using ok(4) unfolding index_inv_def q assms(6) .
  moreover have "count_inv u" using ok(5) unfolding count_inv_def session_count_def assms(4,6,12) .
  moreover have "total_inv u" using ok(6) unfolding total_inv_def assms(4,5,7,8,11) .
  ultimately show ?thesis by (simp add: table_ok_def)
qed

lemma table_ok_same_objects:
  assumes "table_ok t" "lt_objects u = lt_objects t" "lt_sessions u = lt_sessions t"
    and "lt_held u = lt_held t" "lt_waiting u = lt_waiting t" "lt_nextID u = lt_nextID t"
    and "lt_nextSeq t \<le> lt_nextSeq u" "lt_maxRecords u = lt_maxRecords t"
    and "lt_maxPerSession u = lt_maxPerSession t" "lt_settled u = lt_settled t"
  shows "table_ok u"
proof (rule table_ok_cong [OF assms(1)])
  show "lt_settled u (w_seq w) = None" if "queued t w" for w
    using queued_facts(1) [OF assms(1) that] assms(10) by simp
qed (use assms views_cong [OF assms(2)] in \<open>simp_all add: table_ok_def shape_inv_def\<close>)

lemma objectLocked_fields [simp]:
  "lt_sessions (objectLocked key t) = lt_sessions t" "lt_held (objectLocked key t) = lt_held t"
  "lt_waiting (objectLocked key t) = lt_waiting t" "lt_nextID (objectLocked key t) = lt_nextID t"
  "lt_nextSeq (objectLocked key t) = lt_nextSeq t" "lt_maxRecords (objectLocked key t) = lt_maxRecords t"
  "lt_maxPerSession (objectLocked key t) = lt_maxPerSession t" "lt_settled (objectLocked key t) = lt_settled t"
  "lt_pendingWake (objectLocked key t) = lt_pendingWake t" "lt_waking (objectLocked key t) = lt_waking t"
  by (cases "lt_objects t key"; simp add: objectLocked_def)+

lemma objectLocked_views [simp]:
  "held_at (objectLocked key t) = held_at t" "queue_at (objectLocked key t) = queue_at t"
  by (cases "lt_objects t key"; auto simp: objectLocked_def held_at_def queue_at_def empty_object_def)+

lemma objectLocked_some: "\<exists>o1. lt_objects (objectLocked key t) key = Some o1"
  by (auto simp: objectLocked_def split: option.splits)

lemma objectLocked_ok:
  assumes "table_ok t"
  shows "table_ok (objectLocked key t)"
proof (rule table_ok_cong [OF assms])
  show "finite (dom (lt_objects (objectLocked key t)))"
    using assms by (simp add: table_ok_def shape_inv_def objectLocked_def split: option.split)
  show "held_ok (o_held o1) \<and> tree_invar (o_waiting o1)"
    if "lt_objects (objectLocked key t) k = Some o1" for k o1
    using that assms
    by (auto simp: table_ok_def shape_inv_def objectLocked_def empty_object_def split: option.splits if_splits)
qed (use queued_facts(1) [OF assms] in simp_all)

lemma prune_fields [simp]:
  "lt_sessions (pruneObjectLocked key t) = lt_sessions t" "lt_held (pruneObjectLocked key t) = lt_held t"
  "lt_waiting (pruneObjectLocked key t) = lt_waiting t" "lt_nextID (pruneObjectLocked key t) = lt_nextID t"
  "lt_nextSeq (pruneObjectLocked key t) = lt_nextSeq t" "lt_maxRecords (pruneObjectLocked key t) = lt_maxRecords t"
  "lt_maxPerSession (pruneObjectLocked key t) = lt_maxPerSession t" "lt_settled (pruneObjectLocked key t) = lt_settled t"
  "lt_pendingWake (pruneObjectLocked key t) = lt_pendingWake t" "lt_waking (pruneObjectLocked key t) = lt_waking t"
  by (cases "lt_objects t key"; simp add: pruneObjectLocked_def)+

lemma prune_views:
  assumes "shape_inv t"
  shows "held_at (pruneObjectLocked key t) = held_at t" "queue_at (pruneObjectLocked key t) = queue_at t"
  using assms
  by (cases "lt_objects t key";
      fastforce simp: pruneObjectLocked_def held_at_def queue_at_def shape_inv_def held_ok_def tree_invar_def)+

lemma prune_ok:
  assumes "table_ok t"
  shows "table_ok (pruneObjectLocked key t)"
proof -
  have shape: "shape_inv t" using assms by (simp add: table_ok_def)
  have sub: "lt_objects (pruneObjectLocked key t) \<subseteq>\<^sub>m lt_objects t"
    by (auto simp: pruneObjectLocked_def map_le_def split: option.split)
  show ?thesis
  proof (rule table_ok_cong [OF assms])
    show "finite (dom (lt_objects (pruneObjectLocked key t)))"
      using shape map_le_implies_dom_le [OF sub] by (auto simp: shape_inv_def intro: finite_subset)
    show "held_ok (o_held o1) \<and> tree_invar (o_waiting o1)"
      if "lt_objects (pruneObjectLocked key t) k = Some o1" for k o1
      using that shape sub by (metis domI map_le_def shape_inv_def)
  qed (use queued_facts(1) [OF assms] prune_views [OF shape] in simp_all)
qed

lemma settle_ok:
  assumes "table_ok t" "\<And>v. queued t v \<Longrightarrow> w_seq v \<noteq> w_seq w"
  shows "table_ok (settleWaiterLocked w err t)"
proof (cases "settledWaiter t w")
  case True
  then show ?thesis using assms by (simp add: settleWaiterLocked_def)
next
  case False
  have "lt_settled (settleWaiterLocked w err t) (w_seq v) = None" if "queued t v" for v
    using queued_facts(1) [OF assms(1) that] assms(2) [OF that] False by (simp add: settleWaiterLocked_def)
  moreover have "lt_objects (settleWaiterLocked w err t) = lt_objects t" by (simp add: settleWaiterLocked_def)
  ultimately show ?thesis
    by (intro table_ok_cong [OF assms(1)])
       (use assms(1) views_cong [of "settleWaiterLocked w err t" t] in
         \<open>simp_all add: settleWaiterLocked_def table_ok_def shape_inv_def\<close>)
qed

section \<open>Leaving and joining the queue\<close>

abbreviation unlinkWaiter :: "lockWaiter \<Rightarrow> lockSession \<Rightarrow> lockSession" where
  "unlinkWaiter w s \<equiv>
     s\<lparr>s_waiters := filter (\<lambda>x. w_seq x \<noteq> w_seq w) (s_waiters s), s_records := s_records s - 1\<rparr>"

lemma queue_key_iff:
  assumes "table_ok t" "queued t w" "e \<in> set (queue_at t (lk_Object (w_lock w)))"
  shows "ekey e = IKey (lr_Start (lk_Range (w_lock w))) (lr_End (lk_Range (w_lock w))) (w_seq w) \<longleftrightarrow> ie_value e = w"
proof -
  have entry: "queued_entry (lk_Object (w_lock w)) e" and qe: "queued t (ie_value e)"
    using assms by (auto simp: table_ok_def queue_inv_def queued_def)
  show ?thesis
  proof
    assume "ekey e = IKey (lr_Start (lk_Range (w_lock w))) (lr_End (lk_Range (w_lock w))) (w_seq w)"
    then have "w_seq (ie_value e) = w_seq w" using entry by (simp add: ekey_def queued_entry_def Let_def)
    then show "ie_value e = w" by (rule queued_facts(4) [OF assms(1,2) qe])
  next
    assume "ie_value e = w"
    then show "ekey e = IKey (lr_Start (lk_Range (w_lock w))) (lr_End (lk_Range (w_lock w))) (w_seq w)"
      using entry by (auto simp: ekey_def queued_entry_def entry_range_def Let_def dest: arg_cong [where f = lr_Start] arg_cong [where f = lr_End])
  qed
qed

lemma removeWaiter_eq:
  assumes "table_ok t" "queued t w"
  obtains o1 o2 where
    "lt_objects t (lk_Object (w_lock w)) = Some o1"
    "o_held o2 = o_held o1" "tree_invar (o_waiting o2)"
    "tree_entries (o_waiting o2) = filter (\<lambda>e. ie_value e \<noteq> w) (tree_entries (o_waiting o1))"
    "removeWaiterLocked w t =
       (modSession (w_session w) (unlinkWaiter w)
         (t\<lparr>lt_objects := (lt_objects t)(lk_Object (w_lock w) \<mapsto> o2)\<rparr>))\<lparr>lt_waiting := lt_waiting t - 1\<rparr>"
proof -
  let ?key = "lk_Object (w_lock w)" and ?r = "lk_Range (w_lock w)"
  have "w \<in> ie_value ` set (queue_at t ?key)" by (rule queued_key [OF assms])
  then obtain o1 e where o1: "lt_objects t ?key = Some o1" and e: "e \<in> set (tree_entries (o_waiting o1))" "ie_value e = w"
    by (cases "lt_objects t (lk_Object (w_lock w))") (auto simp: queue_at_def)
  have inv: "tree_invar (o_waiting o1)" using assms(1) o1 by (auto simp: table_ok_def shape_inv_def)
  have at: "queue_at t ?key = tree_entries (o_waiting o1)" by (simp add: queue_at_def o1)
  define tr where "tr = tree_remove (lr_Start ?r) (lr_End ?r) (w_seq w) (o_waiting o1)"
  have iff: "ekey x = IKey (lr_Start ?r) (lr_End ?r) (w_seq w) \<longleftrightarrow> ie_value x = w"
    if "x \<in> set (tree_entries (o_waiting o1))" for x
    using queue_key_iff [OF assms, of x] that by (simp add: at)
  have "snd tr" unfolding tr_def tree_remove_entries(2) [OF inv] using iff [OF e(1)] e by (metis imageI)
  have ents: "tree_entries (fst tr) = filter (\<lambda>e. ie_value e \<noteq> w) (tree_entries (o_waiting o1))"
    unfolding tr_def tree_remove_entries(1) [OF inv] using iff by (intro filter_cong) auto
  have "tree_invar (fst tr)" unfolding tr_def by (rule tree_remove_invar [OF inv])
  moreover have "removeWaiterLocked w t =
      (modSession (w_session w) (unlinkWaiter w)
        (t\<lparr>lt_objects := (lt_objects t)(?key \<mapsto> o1\<lparr>o_waiting := fst tr\<rparr>)\<rparr>))\<lparr>lt_waiting := lt_waiting t - 1\<rparr>"
    using \<open>snd tr\<close> by (simp add: removeWaiterLocked_def Let_def o1 case_prod_unfold flip: tr_def)
  ultimately show ?thesis using ents by (intro that [of o1 "o1\<lparr>o_waiting := fst tr\<rparr>"]) (simp_all add: o1)
qed

lemma removeWaiter_views:
  assumes "table_ok t" "queued t w"
  shows "held_at (removeWaiterLocked w t) = held_at t"
    and "queue_at (removeWaiterLocked w t) =
           (queue_at t)(lk_Object (w_lock w) := filter (\<lambda>e. ie_value e \<noteq> w) (queue_at t (lk_Object (w_lock w))))"
    and "queued (removeWaiterLocked w t) v \<longleftrightarrow> queued t v \<and> v \<noteq> w"
    and "session_of (removeWaiterLocked w t) =
           (session_of t)(w_session w := map_option (unlinkWaiter w) (session_of t (w_session w)))"
    and "lt_waiting (removeWaiterLocked w t) = lt_waiting t - 1"
    and "length (queue_at t (lk_Object (w_lock w))) =
           Suc (length (queue_at (removeWaiterLocked w t) (lk_Object (w_lock w))))"
proof -
  let ?key = "lk_Object (w_lock w)"
  obtain o1 o2 where o: "lt_objects t ?key = Some o1" "o_held o2 = o_held o1"
    "tree_entries (o_waiting o2) = filter (\<lambda>e. ie_value e \<noteq> w) (tree_entries (o_waiting o1))"
    and eq: "removeWaiterLocked w t =
       (modSession (w_session w) (unlinkWaiter w)
         (t\<lparr>lt_objects := (lt_objects t)(?key \<mapsto> o2)\<rparr>))\<lparr>lt_waiting := lt_waiting t - 1\<rparr>"
    by (rule removeWaiter_eq [OF assms])
  have objs: "lt_objects (removeWaiterLocked w t) = (lt_objects t)(?key \<mapsto> o2)" by (simp add: eq)
  show "held_at (removeWaiterLocked w t) = held_at t" by (auto simp: held_at_def objs o)
  show q: "queue_at (removeWaiterLocked w t) =
      (queue_at t)(?key := filter (\<lambda>e. ie_value e \<noteq> w) (queue_at t ?key))"
    by (auto simp: queue_at_def objs o)
  show "queued (removeWaiterLocked w t) v \<longleftrightarrow> queued t v \<and> v \<noteq> w"
  proof (cases "v = w")
    case True
    have "w \<in> ie_value ` set (queue_at t k) \<Longrightarrow> k = ?key" for k
      using assms(1) by (auto simp: table_ok_def queue_inv_def queued_entry_def Let_def)
    then show ?thesis using True by (auto simp: queued_def q split: if_splits)
  next
    case False
    then have "v \<in> ie_value ` set (queue_at (removeWaiterLocked w t) k) \<longleftrightarrow> v \<in> ie_value ` set (queue_at t k)" for k
      by (auto simp: q)
    with False show ?thesis by (simp add: queued_def)
  qed
  show "session_of (removeWaiterLocked w t) =
           (session_of t)(w_session w := map_option (unlinkWaiter w) (session_of t (w_session w)))"
    by (simp add: eq session_of_modSession)
  show "lt_waiting (removeWaiterLocked w t) = lt_waiting t - 1" by (simp add: eq)
  have "key_ordered (queue_at t ?key)"
    using assms(1) o(1) by (auto simp: table_ok_def shape_inv_def tree_invar_def queue_at_def)
  moreover have "filter (\<lambda>e. ie_value e \<noteq> w) (queue_at t ?key) =
      filter (\<lambda>e. ekey e \<noteq> IKey (lr_Start (lk_Range (w_lock w))) (lr_End (lk_Range (w_lock w))) (w_seq w)) (queue_at t ?key)"
    using queue_key_iff [OF assms] by (intro filter_cong) auto
  moreover obtain e where e: "e \<in> set (queue_at t ?key)" "ie_value e = w" using queued_key [OF assms] by auto
  moreover have "ekey e = IKey (lr_Start (lk_Range (w_lock w))) (lr_End (lk_Range (w_lock w))) (w_seq w)"
    using queue_key_iff [OF assms] e by blast
  ultimately have "length (queue_at (removeWaiterLocked w t) ?key) = length (queue_at t ?key) - 1"
    using length_filter_key [of "queue_at t ?key" "ekey e"] imageI [OF e(1), of ekey] by (simp add: q)
  then show "length (queue_at t ?key) = Suc (length (queue_at (removeWaiterLocked w t) ?key))"
    using length_pos_if_in_set [OF e(1)] by linarith
qed

lemma removeWaiter_fields [simp]:
  "lt_held (removeWaiterLocked w t) = lt_held t" "lt_nextID (removeWaiterLocked w t) = lt_nextID t"
  "lt_nextSeq (removeWaiterLocked w t) = lt_nextSeq t" "lt_maxRecords (removeWaiterLocked w t) = lt_maxRecords t"
  "lt_maxPerSession (removeWaiterLocked w t) = lt_maxPerSession t" "lt_settled (removeWaiterLocked w t) = lt_settled t"
  "lt_pendingWake (removeWaiterLocked w t) = lt_pendingWake t" "lt_waking (removeWaiterLocked w t) = lt_waking t"
  by (cases "lt_objects t (lk_Object (w_lock w))"; simp add: removeWaiterLocked_def Let_def case_prod_unfold)+

lemma unlink_waiters:
  assumes "table_ok t" "queued t w" "session_of t (w_session w) = Some s"
  shows "set (s_waiters (unlinkWaiter w s)) = set (s_waiters s) - {w}"
    and "int (length (s_waiters (unlinkWaiter w s))) = int (length (s_waiters s)) - 1"
proof -
  have s: "set (s_waiters s) = {v. queued t v \<and> w_session v = w_session w}" "distinct (s_waiters s)"
    using assms(1,3) by (auto simp: table_ok_def index_inv_def)
  then have "w \<in> set (s_waiters s)" using assms(2) by simp
  show "set (s_waiters (unlinkWaiter w s)) = set (s_waiters s) - {w}"
    using s(1) queued_facts(4) [OF assms(1,2)] by auto
  have "distinct (map w_seq (s_waiters s))"
    using s queued_facts(4) [OF assms(1)] by (auto simp: distinct_map inj_on_def)
  then have "length (filter (\<lambda>x. w_seq x \<noteq> w_seq w) (s_waiters s)) = length (s_waiters s) - 1"
    using \<open>w \<in> _\<close> by (intro length_filter_neq_key) auto
  then show "int (length (s_waiters (unlinkWaiter w s))) = int (length (s_waiters s)) - 1"
    using length_pos_if_in_set [OF \<open>w \<in> _\<close>] by (simp add: of_nat_diff Suc_leI)
qed

lemma removeWaiter_ok:
  assumes "table_ok t" "queued t w"
  shows "table_ok (removeWaiterLocked w t)"
proof -
  let ?u = "removeWaiterLocked w t" and ?key = "lk_Object (w_lock w)"
  note v = removeWaiter_views [OF assms]
  have ok: "shape_inv t" "held_inv t" "queue_inv t" "index_inv t" "count_inv t" "total_inv t"
    using assms(1) by (simp_all add: table_ok_def)
  obtain o1 o2 where o: "lt_objects t ?key = Some o1" "o_held o2 = o_held o1" "tree_invar (o_waiting o2)"
    and eq: "?u = (modSession (w_session w) (unlinkWaiter w)
         (t\<lparr>lt_objects := (lt_objects t)(?key \<mapsto> o2)\<rparr>))\<lparr>lt_waiting := lt_waiting t - 1\<rparr>"
    by (rule removeWaiter_eq [OF assms])
  have r: "registered ?u = registered t" by (auto simp: registered_def fun_eq_iff v(4))
  have "shape_inv ?u" using ok(1) o by (auto simp: shape_inv_def eq)
  moreover have "held_inv ?u" using ok(2) by (simp add: held_inv_def v(1) r)
  moreover have "queue_inv ?u" using ok(3) unfolding queue_inv_def r v(3) removeWaiter_fields by (simp add: v(2))
  moreover have "index_inv ?u"
    unfolding index_inv_def v(3)
  proof (intro allI impI)
    fix sid s assume s: "session_of ?u sid = Some s"
    show "set (s_waiters s) = {x. (queued t x \<and> x \<noteq> w) \<and> w_session x = sid} \<and> distinct (s_waiters s)"
    proof (cases "sid = w_session w")
      case True
      then obtain s0 where s0: "session_of t sid = Some s0" "s = unlinkWaiter w s0" using s v(4) by auto
      then show ?thesis
        using unlink_waiters(1) [OF assms, of s0] ok(4) True unfolding index_inv_def by auto
    next
      case False
      then show ?thesis using s v(4) ok(4) by (auto simp: index_inv_def)
    qed
  qed
  moreover have "count_inv ?u"
    unfolding count_inv_def
  proof (intro allI impI)
    fix sid s assume s: "session_of ?u sid = Some s"
    show "session_count ?u sid s"
    proof (cases "sid = w_session w")
      case True
      then obtain s0 where s0: "session_of t sid = Some s0" "s = unlinkWaiter w s0" using s v(4) by auto
      then have "session_count t sid s0" using ok(5) by (auto simp: count_inv_def)
      then show ?thesis
        using unlink_waiters(2) [OF assms, of s0] s0 True by (simp add: session_count_def v(1) object_count_def)
    next
      case False
      then have "session_count t sid s" using s v(4) ok(5) by (auto simp: count_inv_def)
      then show ?thesis by (simp add: session_count_def v(1))
    qed
  qed
  moreover have "total_inv ?u"
    using ok(6) v(6) total_len_upd [OF views_finite(2) [OF ok(1)], of ?key "queue_at ?u ?key"]
    by (simp add: total_inv_def v(1,2,5))
  ultimately show ?thesis by (simp add: table_ok_def)
qed

lemma sum_AList_update:
  "distinct (map fst al) \<Longrightarrow>
     sum_list (map snd (AList.update k c al)) =
     sum_list (map snd al) - (case map_of al k of None \<Rightarrow> 0 | Some n \<Rightarrow> n) + (c :: int)"
  by (induction al) (auto split: option.splits simp: map_of_eq_None_iff rev_image_eqI)

lemma sum_AList_delete:
  "distinct (map fst al) \<Longrightarrow>
     sum_list (map snd (AList.delete k al)) =
     sum_list (map snd al) - (case map_of al k of None \<Rightarrow> 0 :: int | Some n \<Rightarrow> n)"
proof (induction al)
  case (Cons a al)
  have "AList.delete k al = al" if "k \<notin> fst ` set al" using that by (simp add: delete_idem)
  with Cons show ?case by (auto split: option.splits simp: AList.delete_eq map_of_eq_None_iff rev_image_eqI)
qed simp

section \<open>Replacing records\<close>

lemma length_exchange:
  assumes "distinct xs'" "distinct xs" "distinct rem" "distinct fr" "set rem \<subseteq> set xs"
    "set fr \<inter> set xs = {}" "set xs' = (set xs - set rem) \<union> set fr"
  shows "int (length xs') = int (length xs) - int (length rem) + int (length fr)"
proof -
  have "card (set xs') = card (set xs - set rem) + card (set fr)"
    unfolding assms(7) using assms(6) by (intro card_Un_disjoint) auto
  moreover have "card (set xs - set rem) = card (set xs) - card (set rem)" using assms(5) by (intro card_Diff_subset) auto
  moreover have "card (set rem) \<le> card (set xs)" using assms(5) by (intro card_mono) auto
  ultimately show ?thesis using assms(1-4) by (simp add: distinct_card)
qed

lemma length_filter_exchange:
  assumes "distinct xs'" "distinct xs" "distinct rem" "distinct fr" "set rem \<subseteq> set xs"
    "set fr \<inter> set xs = {}" "set xs' = (set xs - set rem) \<union> set fr"
  shows "int (length (filter P xs')) =
           int (length (filter P xs)) - int (length (filter P rem)) + int (length (filter P fr))"
  using assms by (intro length_exchange) auto

fun freshEntries :: "nat \<Rightarrow> Lock list \<Rightarrow> Lock ientry list" where
  "freshEntries next [] = []"
| "freshEntries next (l # ls) =
     fresh_entry (lr_Start (lk_Range l)) (lr_End (lk_Range l)) (Suc next) l # freshEntries (Suc next) ls"

lemma freshEntries_value [simp]: "map ie_value (freshEntries next ls) = ls"
  by (induction ls arbitrary: "next") (simp_all add: fresh_entry_def)

lemma freshEntries_length [simp]: "length (freshEntries next ls) = length ls"
  by (induction ls arbitrary: "next") simp_all

lemma freshEntries_id: "e \<in> set (freshEntries next ls) \<Longrightarrow> next < ie_id e \<and> ie_id e \<le> next + length ls"
  by (induction ls arbitrary: "next") (fastforce simp: fresh_entry_def)+

lemma freshEntries_range: "e \<in> set (freshEntries next ls) \<Longrightarrow> entry_range e = lk_Range (ie_value e)"
  by (induction ls arbitrary: "next") (auto simp: fresh_entry_def entry_range_def)

lemma freshEntries_distinct: "distinct (freshEntries next ls)"
  by (induction ls arbitrary: "next") (auto simp: fresh_entry_def dest!: freshEntries_id)

lemma freshEntries_coexist:
  "sorted_wrt coexist ls \<Longrightarrow> sorted_wrt (\<lambda>a b. coexist (ie_value a) (ie_value b)) (freshEntries next ls)"
  using freshEntries_value [of "next" ls] by (metis sorted_wrt_map)

lemma insertLocks_spec:
  assumes "tree_invar tr" "\<forall>e \<in> set (tree_entries tr). ie_id e \<le> next"
  shows "fst (insertLocks next ls tr) = next + length ls"
    and "tree_invar (snd (insertLocks next ls tr))"
    and "set (tree_entries (snd (insertLocks next ls tr))) = set (tree_entries tr) \<union> set (freshEntries next ls)"
proof -
  have "fst (insertLocks next ls tr) = next + length ls \<and> tree_invar (snd (insertLocks next ls tr)) \<and>
    set (tree_entries (snd (insertLocks next ls tr))) = set (tree_entries tr) \<union> set (freshEntries next ls)"
    using assms
  proof (induction ls arbitrary: "next" tr)
    case Nil
    then show ?case by simp
  next
    case (Cons l ls)
    let ?tr = "tree_insert (lr_Start (lk_Range l)) (lr_End (lk_Range l)) (Suc next) l tr"
    have new: "set (tree_entries ?tr) =
        insert (fresh_entry (lr_Start (lk_Range l)) (lr_End (lk_Range l)) (Suc next) l) (set (tree_entries tr))"
      by (rule treap.set_ins)
    have "\<forall>e \<in> set (tree_entries tr). ie_id e \<noteq> Suc next" using Cons.prems(2) by fastforce
    then have "tree_invar ?tr" using Cons.prems(1) by (intro tree_insert_invar) (fastforce simp: ekey_def)+
    moreover have "\<forall>e \<in> set (tree_entries ?tr). ie_id e \<le> Suc next"
      using Cons.prems(2) by (auto simp: new fresh_entry_def intro: le_SucI)
    ultimately show ?case using Cons.IH [of ?tr "Suc next"] by (simp add: new)
  qed
  then show "fst (insertLocks next ls tr) = next + length ls"
    "tree_invar (snd (insertLocks next ls tr))"
    "set (tree_entries (snd (insertLocks next ls tr))) = set (tree_entries tr) \<union> set (freshEntries next ls)"
    by blast+
qed

text \<open>The record tree after a plan: its entries, its counter and its canonical form.\<close>

definition planTree :: "nat \<Rightarrow> lockPlan \<Rightarrow> Lock intervalTree \<Rightarrow> Lock intervalTree" where
  "planTree next plan tr = snd (insertLocks next (p_insert plan) (removeEntries (p_remove plan) tr))"

lemma planTree_spec:
  assumes "held_ok tr" "plan_ok (set (tree_entries tr)) plan"
    and ids: "\<forall>e \<in> set (tree_entries tr). ie_id e \<le> next"
  shows "fst (insertLocks next (p_insert plan) (removeEntries (p_remove plan) tr)) = next + length (p_insert plan)"
    and "set (tree_entries (planTree next plan tr)) =
           (set (tree_entries tr) - set (p_remove plan)) \<union> set (freshEntries next (p_insert plan))"
    and "held_ok (planTree next plan tr)"
    and "held_locks (planTree next plan tr) = plan_result (set (tree_entries tr)) plan"
    and "e \<in> set (tree_entries (planTree next plan tr)) \<Longrightarrow> ie_id e \<le> next + length (p_insert plan)"
    and "set (freshEntries next (p_insert plan)) \<inter> set (tree_entries tr) = {}"
proof -
  let ?R = "removeEntries (p_remove plan) tr" and ?F = "freshEntries next (p_insert plan)"
  note p = assms(2) [unfolded plan_ok_def]
  have inv: "tree_invar tr" using assms(1) by (simp add: held_ok_def)
  have R: "tree_invar ?R" "set (tree_entries ?R) = set (tree_entries tr) - set (p_remove plan)"
    using treap.rem_all [OF inv] p unfolding removeEntries_def by blast+
  have ids_R: "\<forall>e \<in> set (tree_entries ?R). ie_id e \<le> next" using ids R(2) by blast
  note ins = insertLocks_spec [OF R(1) ids_R, of "p_insert plan"]
  show "fst (insertLocks next (p_insert plan) ?R) = next + length (p_insert plan)" by (rule ins(1)) 
  show ents: "set (tree_entries (planTree next plan tr)) = (set (tree_entries tr) - set (p_remove plan)) \<union> set ?F"
    unfolding planTree_def using ins(3) R(2) by simp
  have vals: "ie_value ` set ?F = set (p_insert plan)" by (metis freshEntries_value list.set_map)
  show "held_locks (planTree next plan tr) = plan_result (set (tree_entries tr)) plan"
    unfolding held_locks_def ents plan_result_def image_Un vals ..
  show "ie_id e \<le> next + length (p_insert plan)" if "e \<in> set (tree_entries (planTree next plan tr))"
    using that ids freshEntries_id [of e "next" "p_insert plan"] unfolding ents by fastforce
  show "set ?F \<inter> set (tree_entries tr) = {}"
    using ids freshEntries_id [of _ "next" "p_insert plan"] by fastforce
  have co: "coexist (ie_value a) (ie_value b)" if "a \<in> set ?F" "b \<in> set ?F" "a \<noteq> b" for a b
    using sorted_wrt_symD [of "\<lambda>a b. coexist (ie_value a) (ie_value b)" ?F a b]
      freshEntries_coexist [of "p_insert plan" "next"] that p coexist_sym by blast
  have cross: "coexist (ie_value a) (ie_value b)" "coexist (ie_value b) (ie_value a)"
    if "a \<in> set (tree_entries tr) - set (p_remove plan)" "b \<in> set ?F" for a b
    using that p vals coexist_sym by blast+
  show "held_ok (planTree next plan tr)"
    unfolding held_ok_def ents
  proof (intro conjI ballI impI)
    show "tree_invar (planTree next plan tr)" unfolding planTree_def by (rule ins(2))
    fix e assume e: "e \<in> (set (tree_entries tr) - set (p_remove plan)) \<union> set ?F"
    show "entry_range e = lk_Range (ie_value e)"
      using e held_okD(2) [OF assms(1)] freshEntries_range by blast
    then show "valid_range (entry_range e)"
      using e held_okD(3) [OF assms(1), of e] p vals by auto
    fix e2 assume "e2 \<in> (set (tree_entries tr) - set (p_remove plan)) \<union> set ?F" "e \<noteq> e2"
    then show "coexist (ie_value e) (ie_value e2)"
      using e held_okD(4) [OF assms(1), of e e2] co cross by blast
  qed
qed

section \<open>Applying a plan\<close>

definition plan_of :: "SessionID \<Rightarrow> ObjectKey \<Rightarrow> lockPlan \<Rightarrow> bool" where
  "plan_of sid key plan \<longleftrightarrow>
     (\<forall>e \<in> set (p_remove plan). ow_Session (lk_Owner (ie_value e)) = sid) \<and>
     (\<forall>l \<in> set (p_insert plan). ow_Session (lk_Owner l) = sid \<and> lk_Object l = key)"

abbreviation noWake :: wakeRoutine where
  "noWake \<equiv> \<lambda>_ _ t. t"

abbreviation plan_delta :: "lockPlan \<Rightarrow> int" where
  "plan_delta plan \<equiv> int (length (p_insert plan)) - int (length (p_remove plan))"

definition plan_refused :: "SessionID \<Rightarrow> lockPlan \<Rightarrow> LockTable \<Rightarrow> bool" where
  "plan_refused sid plan t \<longleftrightarrow>
     plan_delta plan > 0 \<and>
     (lt_held t + lt_waiting t + plan_delta plan > lt_maxRecords t \<or>
      sessionRecords t sid + plan_delta plan > lt_maxPerSession t)"

definition recount :: "ObjectKey \<Rightarrow> lockPlan \<Rightarrow> lockSession \<Rightarrow> lockSession" where
  "recount object plan s =
     (let removed = int (length (p_remove plan)); added = int (length (p_insert plan));
          count = object_count s object - removed + added
      in s\<lparr>s_records := s_records s - removed + added,
           s_objects := (if count = 0 then AList.delete object (s_objects s)
                         else AList.update object count (s_objects s))\<rparr>)"

lemma applyPlan_refused:
  "plan_refused sid plan t \<Longrightarrow> applyPlanLocked wake object sid plan t = (Some ErrAdmission, t)"
  by (simp add: applyPlanLocked_def plan_refused_def Let_def algebra_simps)

text \<open>The state after the records changed and before any waiter is woken.\<close>

definition planned :: "ObjectKey \<Rightarrow> SessionID \<Rightarrow> lockPlan \<Rightarrow> LockTable \<Rightarrow> LockTable" where
  "planned object sid plan t = snd (applyPlanLocked noWake object sid plan t)"

lemma applyPlan_admitted:
  assumes "\<not> plan_refused sid plan t"
  shows "applyPlanLocked wake object sid plan t =
           (None, if p_weakens plan then wake object (p_touched plan) (planned object sid plan t)
                  else planned object sid plan t)"
proof -
  obtain o1 where o1: "lt_objects (objectLocked object t) object = Some o1" using objectLocked_some by blast
  have guard: "\<not> (int (length (p_insert plan)) > int (length (p_remove plan)) \<and>
         (lt_held t + lt_waiting t + plan_delta plan > lt_maxRecords t \<or>
          sessionRecords t sid + plan_delta plan > lt_maxPerSession t))"
    using assms by (simp add: plan_refused_def)
  show ?thesis
    unfolding planned_def applyPlanLocked_def Let_def if_not_P [OF guard] o1 option.case case_prod_unfold fst_conv snd_conv
    by simp
qed

lemma planned_eq:
  assumes "\<not> plan_refused sid plan t"
  obtains o1 where "lt_objects (objectLocked object t) object = Some o1"
    "tree_entries (o_held o1) = held_at t object" "tree_entries (o_waiting o1) = queue_at t object"
    "planned object sid plan t =
       modSession sid (recount object plan)
         ((objectLocked object t)\<lparr>
            lt_objects := (lt_objects (objectLocked object t))(object \<mapsto> o1\<lparr>o_held := planTree (lt_nextID t) plan (o_held o1)\<rparr>),
            lt_nextID := fst (insertLocks (lt_nextID t) (p_insert plan) (removeEntries (p_remove plan) (o_held o1))),
            lt_held := lt_held t - int (length (p_remove plan)) + int (length (p_insert plan))\<rparr>)"
proof -
  obtain o1 where o1: "lt_objects (objectLocked object t) object = Some o1" using objectLocked_some by blast
  have "tree_entries (o_held o1) = held_at (objectLocked object t) object"
    "tree_entries (o_waiting o1) = queue_at (objectLocked object t) object"
    unfolding held_at_def queue_at_def o1 by simp_all
  moreover have guard: "\<not> (int (length (p_insert plan)) > int (length (p_remove plan)) \<and>
         (lt_held t + lt_waiting t + plan_delta plan > lt_maxRecords t \<or>
          sessionRecords t sid + plan_delta plan > lt_maxPerSession t))"
    using assms by (simp add: plan_refused_def)
  have "planned object sid plan t =
       modSession sid (recount object plan)
         ((objectLocked object t)\<lparr>
            lt_objects := (lt_objects (objectLocked object t))(object \<mapsto> o1\<lparr>o_held := planTree (lt_nextID t) plan (o_held o1)\<rparr>),
            lt_nextID := fst (insertLocks (lt_nextID t) (p_insert plan) (removeEntries (p_remove plan) (o_held o1))),
            lt_held := lt_held t - int (length (p_remove plan)) + int (length (p_insert plan))\<rparr>)"
    unfolding planned_def applyPlanLocked_def Let_def if_not_P [OF guard] o1 option.case case_prod_unfold fst_conv snd_conv
    by (simp add: recount_def [abs_def] planTree_def Let_def)
  ultimately show ?thesis using o1 by (intro that [of o1]) simp_all
qed

lemma recount_lookup:
  "map_of (s_objects (recount object plan s)) =
     (map_of (s_objects s))(object :=
        (let count = object_count s object + plan_delta plan in if count = 0 then None else Some count))"
  by (simp add: recount_def Let_def update_conv' delete_conv' algebra_simps)

lemma recount_count:
  "object_count (recount object plan s) key =
     (if key = object then object_count s object + plan_delta plan else object_count s key)"
  by (simp add: object_count_def [of "recount object plan s"] recount_lookup object_count_def [of s key] Let_def)

lemma recount_sum:
  "distinct (map fst (s_objects s)) \<Longrightarrow>
     sum_list (map snd (s_objects (recount object plan s))) = sum_list (map snd (s_objects s)) + plan_delta plan"
  by (simp add: recount_def Let_def sum_AList_update sum_AList_delete flip: object_count_def)

lemma recount_fields [simp]:
  "distinct (map fst (s_objects s)) \<Longrightarrow> distinct (map fst (s_objects (recount object plan s)))"
  "s_records (recount object plan s) = s_records s + plan_delta plan"
  "s_waiters (recount object plan s) = s_waiters s" "s_expires (recount object plan s) = s_expires s"
  by (simp_all add: recount_def Let_def distinct_update distinct_delete)

lemma objectLocked_other: "k \<noteq> key \<Longrightarrow> lt_objects (objectLocked key t) k = lt_objects t k"
  by (simp add: objectLocked_def split: option.split)

lemma planned_fields:
  assumes "\<not> plan_refused sid plan t"
  shows "lt_waiting (planned object sid plan t) = lt_waiting t" "lt_nextSeq (planned object sid plan t) = lt_nextSeq t"
    and "lt_maxRecords (planned object sid plan t) = lt_maxRecords t"
    and "lt_maxPerSession (planned object sid plan t) = lt_maxPerSession t"
    and "lt_settled (planned object sid plan t) = lt_settled t"
    and "lt_pendingWake (planned object sid plan t) = lt_pendingWake t"
    and "lt_waking (planned object sid plan t) = lt_waking t"
    and "lt_held (planned object sid plan t) = lt_held t + plan_delta plan"
    and "session_of (planned object sid plan t) =
           (session_of t)(sid := map_option (recount object plan) (session_of t sid))"
    and "queue_at (planned object sid plan t) = queue_at t" "queued (planned object sid plan t) = queued t"
    and "registered (planned object sid plan t) = registered t"
proof -
  obtain o1 where o1: "tree_entries (o_waiting o1) = queue_at t object" and
    eq: "planned object sid plan t =
       modSession sid (recount object plan)
         ((objectLocked object t)\<lparr>
            lt_objects := (lt_objects (objectLocked object t))(object \<mapsto> o1\<lparr>o_held := planTree (lt_nextID t) plan (o_held o1)\<rparr>),
            lt_nextID := fst (insertLocks (lt_nextID t) (p_insert plan) (removeEntries (p_remove plan) (o_held o1))),
            lt_held := lt_held t - int (length (p_remove plan)) + int (length (p_insert plan))\<rparr>)"
    by (rule planned_eq [OF assms])
  show "session_of (planned object sid plan t) =
           (session_of t)(sid := map_option (recount object plan) (session_of t sid))"
    by (simp add: eq session_of_modSession)
  then show "registered (planned object sid plan t) = registered t" by (auto simp: registered_def fun_eq_iff)
  show q: "queue_at (planned object sid plan t) = queue_at t"
    using o1 by (auto simp: queue_at_def eq objectLocked_other fun_eq_iff)
  then show "queued (planned object sid plan t) = queued t" by (simp add: queued_def fun_eq_iff)
  show "lt_waiting (planned object sid plan t) = lt_waiting t" "lt_nextSeq (planned object sid plan t) = lt_nextSeq t"
    "lt_maxRecords (planned object sid plan t) = lt_maxRecords t"
    "lt_maxPerSession (planned object sid plan t) = lt_maxPerSession t"
    "lt_settled (planned object sid plan t) = lt_settled t"
    "lt_pendingWake (planned object sid plan t) = lt_pendingWake t"
    "lt_waking (planned object sid plan t) = lt_waking t"
    "lt_held (planned object sid plan t) = lt_held t + plan_delta plan"
    by (simp_all add: eq)
qed

lemma planned_held:
  assumes ok: "table_ok t" and adm: "\<not> plan_refused sid plan t" and plan: "plan_ok (set (held_at t object)) plan"
  obtains es where "held_at (planned object sid plan t) = (held_at t)(object := es)"
    "set es = (set (held_at t object) - set (p_remove plan)) \<union> set (freshEntries (lt_nextID t) (p_insert plan))"
    "int (length (filter P es)) = int (length (filter P (held_at t object))) - int (length (filter P (p_remove plan)))
       + int (length (filter P (freshEntries (lt_nextID t) (p_insert plan))))"
    "ie_value ` set es = plan_result (set (held_at t object)) plan"
    "\<And>e. e \<in> set es \<Longrightarrow> ie_id e \<le> lt_nextID (planned object sid plan t)"
    "lt_nextID t \<le> lt_nextID (planned object sid plan t)"
    "shape_inv (planned object sid plan t)"
proof -
  obtain o1 where o1: "lt_objects (objectLocked object t) object = Some o1"
    "tree_entries (o_held o1) = held_at t object" and
    eq: "planned object sid plan t =
       modSession sid (recount object plan)
         ((objectLocked object t)\<lparr>
            lt_objects := (lt_objects (objectLocked object t))(object \<mapsto> o1\<lparr>o_held := planTree (lt_nextID t) plan (o_held o1)\<rparr>),
            lt_nextID := fst (insertLocks (lt_nextID t) (p_insert plan) (removeEntries (p_remove plan) (o_held o1))),
            lt_held := lt_held t - int (length (p_remove plan)) + int (length (p_insert plan))\<rparr>)"
    by (rule planned_eq [OF adm])
  let ?es = "tree_entries (planTree (lt_nextID t) plan (o_held o1))"
  have shape: "shape_inv (objectLocked object t)" using objectLocked_ok [OF ok] by (simp add: table_ok_def)
  then have hok: "held_ok (o_held o1)" using o1 by (auto simp: shape_inv_def)
  have ids: "\<forall>e \<in> set (tree_entries (o_held o1)). ie_id e \<le> lt_nextID t"
    using ok o1(2) by (auto simp: table_ok_def held_inv_def)
  have plan1: "plan_ok (set (tree_entries (o_held o1))) plan" using plan o1(2) by simp
  note spec = planTree_spec [OF hok plan1 ids]
  have d: "distinct (tree_entries tr)" if "held_ok tr" for tr
    using that by (simp add: held_ok_def tree_invar_def key_ordered_distinct)
  show ?thesis
  proof (rule that [of ?es])
    show "held_at (planned object sid plan t) = (held_at t)(object := ?es)"
      by (auto simp: held_at_def eq objectLocked_other)
    show "set ?es = (set (held_at t object) - set (p_remove plan)) \<union> set (freshEntries (lt_nextID t) (p_insert plan))"
      using spec(2) o1(2) by simp
    show "int (length (filter P ?es)) = int (length (filter P (held_at t object))) - int (length (filter P (p_remove plan)))
       + int (length (filter P (freshEntries (lt_nextID t) (p_insert plan))))"
      unfolding o1(2) [symmetric]
      by (rule length_filter_exchange)
         (use d [OF hok] d [OF spec(3)] plan1 spec(2,6) freshEntries_distinct in \<open>simp_all add: plan_ok_def\<close>)
    show "ie_value ` set ?es = plan_result (set (held_at t object)) plan"
      using spec(4) o1(2) by (simp add: held_locks_def)
    show "ie_id e \<le> lt_nextID (planned object sid plan t)" if "e \<in> set ?es" for e
      using spec(5) [OF that] spec(1) by (simp add: eq)
    show "lt_nextID t \<le> lt_nextID (planned object sid plan t)" using spec(1) by (simp add: eq)
    show "shape_inv (planned object sid plan t)" using shape spec(3) o1(1) by (auto simp: shape_inv_def eq)
  qed
qed

lemma filter_of_session_plan:
  assumes "plan_of sid object plan"
  shows "filter (of_session x) (p_remove plan) = (if x = sid then p_remove plan else [])"
    and "filter (of_session x) (freshEntries n (p_insert plan)) =
           (if x = sid then freshEntries n (p_insert plan) else [])"
proof -
  have rem: "of_session x e \<longleftrightarrow> x = sid" if "e \<in> set (p_remove plan)" for e
    using assms that by (auto simp: plan_of_def of_session_def)
  then show "filter (of_session x) (p_remove plan) = (if x = sid then p_remove plan else [])"
    by (auto simp: filter_empty_conv intro!: filter_True)
  have "of_session x e \<longleftrightarrow> x = sid" if "e \<in> set (freshEntries n (p_insert plan))" for e
  proof -
    have "ie_value e \<in> set (p_insert plan)" using that freshEntries_value by (metis image_eqI list.set_map)
    then show ?thesis using assms by (auto simp: plan_of_def of_session_def)
  qed
  then show "filter (of_session x) (freshEntries n (p_insert plan)) =
           (if x = sid then freshEntries n (p_insert plan) else [])"
    by (auto simp: filter_empty_conv intro!: filter_True)
qed

lemma planned_counts:
  assumes ok: "table_ok t" and adm: "\<not> plan_refused sid plan t" and plan: "plan_ok (set (held_at t object)) plan"
    and own: "plan_of sid object plan"
  shows "int (length (filter (of_session x) (held_at (planned object sid plan t) key))) =
           int (length (filter (of_session x) (held_at t key))) + (if key = object \<and> x = sid then plan_delta plan else 0)"
    and "int (length (held_at (planned object sid plan t) object)) = int (length (held_at t object)) + plan_delta plan"
proof -
  show "int (length (filter (of_session x) (held_at (planned object sid plan t) key))) =
           int (length (filter (of_session x) (held_at t key))) + (if key = object \<and> x = sid then plan_delta plan else 0)"
    by (rule planned_held [OF ok adm plan, where P = "of_session x"])
       (auto simp: filter_of_session_plan [OF own])
  show "int (length (held_at (planned object sid plan t) object)) = int (length (held_at t object)) + plan_delta plan"
    by (rule planned_held [OF ok adm plan, where P = "\<lambda>_. True"]) simp
qed

lemma planned_ok:
  assumes ok: "table_ok t" and adm: "\<not> plan_refused sid plan t" and plan: "plan_ok (set (held_at t object)) plan"
    and own: "plan_of sid object plan" and reg: "registered t sid"
  shows "table_ok (planned object sid plan t)"
proof -
  let ?u = "planned object sid plan t"
  note f = planned_fields [OF adm, of object]
  note c = planned_counts [OF ok adm plan own]
  obtain es where es: "held_at ?u = (held_at t)(object := es)"
    "set es = (set (held_at t object) - set (p_remove plan)) \<union> set (freshEntries (lt_nextID t) (p_insert plan))"
    "\<And>e. e \<in> set es \<Longrightarrow> ie_id e \<le> lt_nextID ?u" "lt_nextID t \<le> lt_nextID ?u" "shape_inv ?u"
    using planned_held [OF ok adm plan, where P = "\<lambda>_. True"] by metis
  have inv: "shape_inv t" "held_inv t" "queue_inv t" "index_inv t" "count_inv t" "total_inv t"
    using ok by (simp_all add: table_ok_def)
  have "held_inv ?u"
    unfolding held_inv_def
  proof (intro allI ballI)
    fix key e assume e: "e \<in> set (held_at ?u key)"
    show "lk_Object (ie_value e) = key \<and> ie_id e \<le> lt_nextID ?u \<and> registered ?u (ow_Session (lk_Owner (ie_value e)))"
    proof (cases "e \<in> set (held_at t key)")
      case True
      then show ?thesis using inv(2) es(4) unfolding held_inv_def f by (meson order_trans)
    next
      case False
      then have k: "key = object" "e \<in> set (freshEntries (lt_nextID t) (p_insert plan))" using e es(1,2) by (auto split: if_splits)
      then have "ie_value e \<in> set (p_insert plan)" using freshEntries_value by (metis image_eqI list.set_map)
      then show ?thesis using own reg e es(1,3) k by (auto simp: plan_of_def f)
    qed
  qed
  moreover have "queue_inv ?u" using inv(3) by (simp add: queue_inv_def f)
  moreover have "index_inv ?u"
    using inv(4) by (auto simp: index_inv_def f split: if_splits)
  moreover have "count_inv ?u"
    unfolding count_inv_def
  proof (intro allI impI)
    fix x s assume s: "session_of ?u x = Some s"
    show "session_count ?u x s"
    proof (cases "x = sid")
      case True
      then obtain s0 where s0: "session_of t sid = Some s0" "s = recount object plan s0" using s f(9) by auto
      then have "session_count t sid s0" using inv(5) by (auto simp: count_inv_def)
      moreover have "s_records s0 + plan_delta plan \<le> lt_maxPerSession t"
        using adm calculation by (auto simp: plan_refused_def sessionRecords_def s0 session_count_def)
      ultimately show ?thesis
        using True by (auto simp: session_count_def s0 recount_lookup recount_count recount_sum c f Let_def)
    next
      case False
      then have "session_count t x s" using s f(9) inv(5) by (auto simp: count_inv_def)
      then show ?thesis using False by (simp add: session_count_def c f)
    qed
  qed
  moreover have "total_inv ?u"
  proof -
    have "total_len (held_at ?u) = total_len (held_at t) + plan_delta plan"
      using total_len_upd [OF views_finite(1) [OF inv(1)], of object es] c(2) by (simp add: es(1))
    moreover have "lt_held t + lt_waiting t + plan_delta plan \<le> lt_maxRecords t"
      using adm inv(6) by (auto simp: plan_refused_def total_inv_def)
    ultimately show ?thesis using inv(6) by (simp add: total_inv_def f)
  qed
  ultimately show ?thesis using es(5) by (simp add: table_ok_def)
qed

section \<open>The byte map\<close>

text \<open>
  The abstract state of the table: for every object, owner and byte the modes held. Acquiring
  replaces the owner's mode on the requested bytes, releasing clears it.
\<close>

type_synonym byteMap = "ObjectKey \<Rightarrow> LockOwner \<Rightarrow> u64 \<Rightarrow> LockType set"

definition cover :: "LockTable \<Rightarrow> byteMap" where
  "cover t key = modes (ie_value ` set (held_at t key))"

definition acquireBytes :: "Lock \<Rightarrow> byteMap \<Rightarrow> byteMap" where
  "acquireBytes l c = (\<lambda>key ow b.
     if key = lk_Object l \<and> ow = lk_Owner l \<and> b \<in> bytes (lk_Range l) then {lk_Type l} else c key ow b)"

definition releaseBytes :: "ObjectKey \<Rightarrow> LockOwner \<Rightarrow> LockRange \<Rightarrow> byteMap \<Rightarrow> byteMap" where
  "releaseBytes object owner r c = (\<lambda>key ow b.
     if key = object \<and> ow = owner \<and> b \<in> bytes r then {} else c key ow b)"

definition dropSessionBytes :: "SessionID \<Rightarrow> byteMap \<Rightarrow> byteMap" where
  "dropSessionBytes sid c = (\<lambda>key ow b. if ow_Session ow = sid then {} else c key ow b)"

lemma planAcquire_owned:
  assumes "object_held_ok ob" "validLock l" "on_object (lk_Object l) ob"
  shows "plan_of (ow_Session (lk_Owner l)) (lk_Object l) (planAcquireLocked ob l)"
proof -
  obtain merged rest where "p_insert (planAcquireLocked ob l) = rest @ [merged]"
    "own_valid (lk_Owner l) (lk_Object l) (merged # rest)"
    by (rule planAcquire_merged [OF assms])
  then have "lk_Owner x = lk_Owner l \<and> lk_Object x = lk_Object l" if "x \<in> set (p_insert (planAcquireLocked ob l))" for x
    using that by (auto simp: own_valid_def)
  moreover have "lk_Owner (ie_value e) = lk_Owner l" if "e \<in> set (p_remove (planAcquireLocked ob l))" for e
    using that by (simp add: planAcquireLocked_parts(1) [OF assms(1,2)] affected_iff)
  ultimately show ?thesis by (simp add: plan_of_def)
qed

lemma planRelease_owned:
  assumes "object_held_ok ob" "valid_range r" "on_object object ob"
  shows "plan_of (ow_Session owner) object (planReleaseLocked ob owner r)"
proof -
  have rem: "e \<in> object_entries ob \<and> lk_Owner (ie_value e) = owner" if "e \<in> set (released ob owner r)" for e
    using that by (simp add: released_iff)
  then have "lk_Owner x = owner \<and> lk_Object x = object"
    if "e \<in> set (released ob owner r)" "x \<in> set (subtractLock (ie_value e) r)" for e x
    using subtractLock_same [OF that(2)] assms(3) rem [OF that(1)] by (auto simp: on_object_def object_locks_entries)
  with rem show ?thesis
    unfolding plan_of_def planReleaseLocked_parts(1,2) [OF assms(1)] by auto
qed

lemma planned_cover:
  assumes "table_ok t" "\<not> plan_refused sid plan t" "plan_ok (set (held_at t object)) plan"
  shows "cover (planned object sid plan t) = (cover t)(object := modes (plan_result (set (held_at t object)) plan))"
  by (rule planned_held [OF assms, where P = "\<lambda>_. True"]) (auto simp: cover_def)

lemma acquire_plan:
  fixes l
  assumes "table_ok t" "validLock l" "conflictLocked (lt_objects t (lk_Object l)) l = None"
  defines "plan \<equiv> planAcquireLocked (lt_objects t (lk_Object l)) l"
  shows "plan_ok (set (held_at t (lk_Object l))) plan"
    and "plan_of (ow_Session (lk_Owner l)) (lk_Object l) plan"
    and "(cover t)(lk_Object l := modes (plan_result (set (held_at t (lk_Object l))) plan)) = acquireBytes l (cover t)"
proof -
  let ?ob = "lt_objects t (lk_Object l)"
  note v = object_view [OF assms(1), of "lk_Object l"]
  have free: "\<not> conflicts l x" if "x \<in> object_locks ?ob" for x
    using assms(3) that conflictLocked_None_iff [OF v(1), of l] by blast
  show "plan_ok (set (held_at t (lk_Object l))) plan"
    using planAcquire_ok [OF v(1) assms(2) v(2)] free by (simp add: plan_def v(3))
  show "plan_of (ow_Session (lk_Owner l)) (lk_Object l) plan"
    unfolding plan_def by (rule planAcquire_owned [OF v(1) assms(2) v(2)])
  show "(cover t)(lk_Object l := modes (plan_result (set (held_at t (lk_Object l))) plan)) = acquireBytes l (cover t)"
    using planAcquire_modes [OF v(1) assms(2) v(2)]
    by (auto simp: fun_eq_iff acquireBytes_def plan_def v(3,4) cover_def)
qed

lemma release_plan:
  fixes object owner
  assumes "table_ok t" "valid_range r"
  defines "plan \<equiv> planReleaseLocked (lt_objects t object) owner r"
  shows "plan_ok (set (held_at t object)) plan" "plan_of (ow_Session owner) object plan"
    and "(cover t)(object := modes (plan_result (set (held_at t object)) plan)) = releaseBytes object owner r (cover t)"
proof -
  let ?ob = "lt_objects t object"
  note v = object_view [OF assms(1), of object]
  show "plan_ok (set (held_at t object)) plan"
    using planRelease_ok [OF v(1) assms(2)] by (simp add: plan_def v(3))
  show "plan_of (ow_Session owner) object plan"
    unfolding plan_def by (rule planRelease_owned [OF v(1) assms(2) v(2)])
  show "(cover t)(object := modes (plan_result (set (held_at t object)) plan)) = releaseBytes object owner r (cover t)"
    using planRelease_modes [OF v(1) assms(2)]
    by (auto simp: fun_eq_iff releaseBytes_def plan_def v(3,4) cover_def)
qed

section \<open>Cascades\<close>

text \<open>
  What running the wake cascade may do: the waiters in \<open>ws\<close>, queued before, are granted in
  that order; every waiter that left the queue is settled, without error exactly when it was
  granted; nothing joins the queue and no decision changes.
\<close>

definition cascade :: "LockTable \<Rightarrow> lockWaiter list \<Rightarrow> LockTable \<Rightarrow> bool" where
  "cascade t ws u \<longleftrightarrow>
     table_ok u \<and> cover u = fold acquireBytes (map w_lock ws) (cover t) \<and> distinct ws \<and>
     (\<forall>w \<in> set ws. queued t w \<and> \<not> queued u w) \<and> (\<forall>w. queued u w \<longrightarrow> queued t w) \<and>
     (\<forall>w. queued t w \<longrightarrow> \<not> queued u w \<longrightarrow>
        (\<exists>r. lt_settled u (w_seq w) = Some r \<and> (r = None \<longleftrightarrow> w \<in> set ws))) \<and>
     (\<forall>q r. lt_settled t q = Some r \<longrightarrow> lt_settled u q = Some r) \<and>
     (\<forall>q r. lt_settled u q = Some r \<longrightarrow>
        lt_settled t q = Some r \<or> (\<exists>w. queued t w \<and> \<not> queued u w \<and> w_seq w = q)) \<and>
     registered u = registered t \<and> lt_nextSeq u = lt_nextSeq t \<and>
     lt_maxRecords u = lt_maxRecords t \<and> lt_maxPerSession u = lt_maxPerSession t"

lemma cascadeD:
  assumes "cascade t ws u"
  shows "table_ok u" "cover u = fold acquireBytes (map w_lock ws) (cover t)" "distinct ws"
    and "w \<in> set ws \<Longrightarrow> queued t w" "w \<in> set ws \<Longrightarrow> \<not> queued u w" "queued u w \<Longrightarrow> queued t w"
    and "queued t w \<Longrightarrow> \<not> queued u w \<Longrightarrow> \<exists>r. lt_settled u (w_seq w) = Some r \<and> (r = None \<longleftrightarrow> w \<in> set ws)"
    and "lt_settled t q = Some r \<Longrightarrow> lt_settled u q = Some r"
    and "lt_settled u q = Some r \<Longrightarrow>
           lt_settled t q = Some r \<or> (\<exists>w. queued t w \<and> \<not> queued u w \<and> w_seq w = q)"
    and "registered u = registered t" "lt_nextSeq u = lt_nextSeq t" "lt_maxRecords u = lt_maxRecords t"
    and "lt_maxPerSession u = lt_maxPerSession t"
  using assms unfolding cascade_def by simp_all

lemma cascade_trans:
  assumes a: "cascade t ws u" and b: "cascade u vs v"
  shows "cascade t (ws @ vs) v"
  unfolding cascade_def
proof (intro conjI allI ballI impI)
  show "table_ok v" "registered v = registered t" "lt_nextSeq v = lt_nextSeq t"
    "lt_maxRecords v = lt_maxRecords t" "lt_maxPerSession v = lt_maxPerSession t"
    using cascadeD(1,10-13) [OF a] cascadeD(1,10-13) [OF b] by simp_all
  show "cover v = fold acquireBytes (map w_lock (ws @ vs)) (cover t)"
    using cascadeD(2) [OF a] cascadeD(2) [OF b] by simp
  have "set ws \<inter> set vs = {}" using cascadeD(5) [OF a] cascadeD(4) [OF b] by blast
  then show "distinct (ws @ vs)" using cascadeD(3) [OF a] cascadeD(3) [OF b] by simp
  fix w
  show "queued t w" if "w \<in> set (ws @ vs)"
    using that cascadeD(4,6) [OF a, of w] cascadeD(4) [OF b, of w] by auto
  show "\<not> queued v w" if "w \<in> set (ws @ vs)"
    using that cascadeD(5) [OF a, of w] cascadeD(5,6) [OF b, of w] by auto
  show "queued t w" if "queued v w" using that cascadeD(6) [OF a] cascadeD(6) [OF b] by blast
  show "\<exists>r. lt_settled v (w_seq w) = Some r \<and> (r = None \<longleftrightarrow> w \<in> set (ws @ vs))"
    if qt: "queued t w" and qv: "\<not> queued v w"
  proof (cases "queued u w")
    case True
    then obtain r where "lt_settled v (w_seq w) = Some r" "r = None \<longleftrightarrow> w \<in> set vs"
      using cascadeD(7) [OF b _ qv] by blast
    then show ?thesis using cascadeD(5) [OF a, of w] True by auto
  next
    case False
    then obtain r where r: "lt_settled u (w_seq w) = Some r" "r = None \<longleftrightarrow> w \<in> set ws"
      using cascadeD(7) [OF a qt] by blast
    then show ?thesis using cascadeD(8) [OF b r(1)] cascadeD(4) [OF b, of w] False by auto
  qed
next
  fix q r
  show "lt_settled v q = Some r" if "lt_settled t q = Some r"
    using that cascadeD(8) [OF a] cascadeD(8) [OF b] by blast
  show "lt_settled t q = Some r \<or> (\<exists>w. queued t w \<and> \<not> queued v w \<and> w_seq w = q)"
    if "lt_settled v q = Some r"
    using cascadeD(9) [OF b that] cascadeD(9) [OF a, of q r] cascadeD(6) [OF a] cascadeD(6) [OF b] by blast
qed

lemma cascade_same:
  assumes "table_ok u" "held_at u = held_at t" "queue_at u = queue_at t" "lt_settled u = lt_settled t"
    "lt_sessions u = lt_sessions t" "lt_nextSeq u = lt_nextSeq t"
    "lt_maxRecords u = lt_maxRecords t" "lt_maxPerSession u = lt_maxPerSession t"
  shows "cascade t [] u"
proof -
  have "queued u = queued t" using assms(3) by (simp add: queued_def fun_eq_iff)
  moreover have "registered u = registered t" using assms(5) by (simp add: registered_def fun_eq_iff)
  ultimately show ?thesis using assms by (simp add: cascade_def cover_def fun_eq_iff)
qed

lemma cascade_ok: "cascade t ws u \<Longrightarrow> table_ok u"
  by (simp add: cascade_def)

lemma cascade_refl: "table_ok t \<Longrightarrow> cascade t [] t"
  by (simp add: cascade_same)

lemma cascade_prune: "table_ok t \<Longrightarrow> cascade t [] (pruneObjectLocked key t)"
  using prune_views [of t key] by (intro cascade_same prune_ok) (simp_all add: table_ok_def)

lemma queueWake_fields [simp]:
  "lt_objects (queueWake object span t) = lt_objects t" "lt_sessions (queueWake object span t) = lt_sessions t"
  "lt_held (queueWake object span t) = lt_held t" "lt_waiting (queueWake object span t) = lt_waiting t"
  "lt_nextID (queueWake object span t) = lt_nextID t" "lt_nextSeq (queueWake object span t) = lt_nextSeq t"
  "lt_maxRecords (queueWake object span t) = lt_maxRecords t"
  "lt_maxPerSession (queueWake object span t) = lt_maxPerSession t"
  "lt_settled (queueWake object span t) = lt_settled t" "lt_waking (queueWake object span t) = lt_waking t"
  "lt_pendingWake (queueWake object span t) = lt_pendingWake t @ [\<lparr>wk_object = object, wk_span = span\<rparr>]"
  by (simp_all add: queueWake_def)

lemma queueWake_ok: "table_ok t \<Longrightarrow> table_ok (queueWake object span t)"
  by (erule table_ok_same_objects) simp_all

lemma queueWake_views [simp]:
  "held_at (queueWake object span t) = held_at t" "queue_at (queueWake object span t) = queue_at t"
  "queued (queueWake object span t) = queued t"
  by (rule views_cong, simp)+

lemma cascade_queueWake: "table_ok t \<Longrightarrow> cascade t [] (queueWake object span t)"
  by (intro cascade_same queueWake_ok) simp_all

lemma settle_fields [simp]:
  "lt_objects (settleWaiterLocked w err t) = lt_objects t" "lt_sessions (settleWaiterLocked w err t) = lt_sessions t"
  "lt_nextSeq (settleWaiterLocked w err t) = lt_nextSeq t" "lt_maxRecords (settleWaiterLocked w err t) = lt_maxRecords t"
  "lt_maxPerSession (settleWaiterLocked w err t) = lt_maxPerSession t"
  "lt_pendingWake (settleWaiterLocked w err t) = lt_pendingWake t" "lt_waking (settleWaiterLocked w err t) = lt_waking t"
  by (simp_all add: settleWaiterLocked_def)

lemma settle_views [simp]:
  "held_at (settleWaiterLocked w err t) = held_at t" "queue_at (settleWaiterLocked w err t) = queue_at t"
  "queued (settleWaiterLocked w err t) = queued t"
  by (rule views_cong, simp)+

lemma dropWaiter_ok:
  assumes "table_ok t" "queued t w"
  shows "table_ok (dropWaiter err w t)" "lt_settled (dropWaiter err w t) = (lt_settled t)(w_seq w \<mapsto> err)"
    "queued (dropWaiter err w t) v \<longleftrightarrow> queued t v \<and> v \<noteq> w" "cover (dropWaiter err w t) = cover t"
    "registered (dropWaiter err w t) = registered t"
proof -
  note v = removeWaiter_views [OF assms]
  show "table_ok (dropWaiter err w t)"
    unfolding dropWaiter_def
    using removeWaiter_ok [OF assms] queued_facts(4) [OF assms] by (intro settle_ok) (auto simp: v(3))
  show "lt_settled (dropWaiter err w t) = (lt_settled t)(w_seq w \<mapsto> err)"
    using queued_facts(1) [OF assms] by (simp add: dropWaiter_def settleWaiterLocked_def settledWaiter_def)
  show "queued (dropWaiter err w t) v \<longleftrightarrow> queued t v \<and> v \<noteq> w" by (simp add: dropWaiter_def v(3))
  show "cover (dropWaiter err w t) = cover t" by (simp add: dropWaiter_def cover_def v(1) fun_eq_iff)
  show "registered (dropWaiter err w t) = registered t"
    by (auto simp: dropWaiter_def registered_def v(4) fun_eq_iff)
qed

lemma cascade_drop:
  assumes "table_ok t" "queued t w"
  shows "cascade t [] (dropWaiter (Some e) w t)"
proof -
  note d = dropWaiter_ok [OF assms, of "Some e"]
  have "lt_nextSeq (dropWaiter (Some e) w t) = lt_nextSeq t"
    "lt_maxRecords (dropWaiter (Some e) w t) = lt_maxRecords t"
    "lt_maxPerSession (dropWaiter (Some e) w t) = lt_maxPerSession t" by (simp_all add: dropWaiter_def)
  then show ?thesis
    unfolding cascade_def d(2-5) using d(1) queued_facts(1) [OF assms] assms(2) by auto
qed

lemma eligible_no_conflict: "waiterEligibleLocked ob w \<Longrightarrow> conflictLocked ob (w_lock w) = None"
  by (simp add: waiterEligibleLocked_def split: if_splits)

lemma cascade_grant:
  assumes ok: "table_ok t" and q: "queued t w"
    and free: "conflictLocked (lt_objects t (lk_Object (w_lock w))) (w_lock w) = None"
    and adm: "\<not> plan_refused (w_session w) (planAcquireLocked (lt_objects t (lk_Object (w_lock w))) (w_lock w)) (removeWaiterLocked w t)"
    and u: "lt_objects u = lt_objects v" "lt_sessions u = lt_sessions v" "lt_held u = lt_held v"
      "lt_waiting u = lt_waiting v" "lt_nextID u = lt_nextID v" "lt_nextSeq u = lt_nextSeq v"
      "lt_maxRecords u = lt_maxRecords v" "lt_maxPerSession u = lt_maxPerSession v" "lt_settled u = lt_settled v"
    and v: "v = planned (lk_Object (w_lock w)) (w_session w)
              (planAcquireLocked (lt_objects t (lk_Object (w_lock w))) (w_lock w)) (removeWaiterLocked w t)"
  shows "cascade t [w] (settleWaiterLocked w None u)"
proof -
  let ?key = "lk_Object (w_lock w)" and ?t = "removeWaiterLocked w t"
  let ?plan = "planAcquireLocked (lt_objects t ?key) (w_lock w)"
  note qf = queued_facts [OF ok q]
  note rv = removeWaiter_views [OF ok q]
  note plan = acquire_plan [OF ok qf(5) free]
  have okr: "table_ok ?t" by (rule removeWaiter_ok [OF ok q])
  have plan1: "plan_ok (set (held_at ?t ?key)) ?plan" using plan(1) by (simp add: rv(1))
  have own: "plan_of (w_session w) ?key ?plan" using plan(2) qf(6) by simp
  have reg: "registered ?t = registered t" by (auto simp: registered_def rv(4) fun_eq_iff)
  note f = planned_fields [OF adm, of ?key, folded v]
  have okv: "table_ok v" unfolding v by (rule planned_ok [OF okr adm plan1 own]) (use qf(3) reg in simp)
  have "cover ?t = cover t" by (simp add: cover_def rv(1) fun_eq_iff)
  then have cov: "cover v = acquireBytes (w_lock w) (cover t)"
    unfolding v planned_cover [OF okr adm plan1] using plan(3) by (simp add: rv(1))
  have oku: "table_ok u" using okv by (rule table_ok_same_objects) (use u in simp_all)
  have qu: "queued u x \<longleftrightarrow> queued t x \<and> x \<noteq> w" for x
    using views_cong(3) [OF u(1)] f(11) rv(3) by simp
  have "table_ok (settleWaiterLocked w None u)"
    using qf(4) by (intro settle_ok oku) (auto simp: qu)
  moreover have "cover (settleWaiterLocked w None u) = acquireBytes (w_lock w) (cover t)"
    using cov views_cong(1) [OF u(1)] by (simp add: cover_def fun_eq_iff)
  moreover have "registered (settleWaiterLocked w None u) = registered t"
    using f(12) reg by (simp add: registered_def u(2) fun_eq_iff)
  moreover have "lt_settled (settleWaiterLocked w None u) = (lt_settled t)(w_seq w \<mapsto> None)"
    using qf(1) by (simp add: settleWaiterLocked_def settledWaiter_def u f)
  ultimately show ?thesis
    unfolding cascade_def settle_fields settle_views qu u
    using q qf(1) by (auto simp: f)
qed

text \<open>The requests on which the loop has yet to decide: queued on the object, or already settled.\<close>

definition pendingOn :: "LockTable \<Rightarrow> ObjectKey \<Rightarrow> lockWaiter \<Rightarrow> bool" where
  "pendingOn t object w \<longleftrightarrow> lk_Object (w_lock w) = object \<and> (queued t w \<or> settledWaiter t w)"

lemma cascade_pendingOn: "cascade t ws u \<Longrightarrow> pendingOn t object w \<Longrightarrow> pendingOn u object w"
  using cascadeD(7) [of t ws u w] cascadeD(8) [of t ws u "w_seq w"]
  by (fastforce simp: pendingOn_def settledWaiter_def)

text \<open>The part of a step that matters to the drain loop: requests are only appended, for the
  same object, and never more of them than waiters left the queue.\<close>

definition drains :: "ObjectKey \<Rightarrow> LockTable \<Rightarrow> LockTable \<Rightarrow> bool" where
  "drains object t u \<longleftrightarrow>
     (\<exists>reqs. lt_pendingWake u = lt_pendingWake t @ reqs \<and> (\<forall>r \<in> set reqs. wk_object r = object) \<and>
       length reqs + length (queue_at u object) \<le> length (queue_at t object)) \<and> lt_waking u = lt_waking t"

lemma drains_refl: "drains object t t"
  by (simp add: drains_def)

lemma drains_trans:
  assumes "drains object t u" "drains object u v"
  shows "drains object t v"
proof -
  obtain r1 where r1: "lt_pendingWake u = lt_pendingWake t @ r1" "\<forall>r \<in> set r1. wk_object r = object"
    "length r1 + length (queue_at u object) \<le> length (queue_at t object)" "lt_waking u = lt_waking t"
    using assms(1) by (auto simp: drains_def)
  obtain r2 where r2: "lt_pendingWake v = lt_pendingWake u @ r2" "\<forall>r \<in> set r2. wk_object r = object"
    "length r2 + length (queue_at v object) \<le> length (queue_at u object)" "lt_waking v = lt_waking u"
    using assms(2) by (auto simp: drains_def)
  show ?thesis unfolding drains_def using r1 r2 by (intro conjI exI [of _ "r1 @ r2"]) auto
qed

lemma drains_one:
  assumes "lt_pendingWake u = lt_pendingWake t \<or>
           lt_pendingWake u = lt_pendingWake t @ [\<lparr>wk_object = object, wk_span = span\<rparr>]"
    and "length (queue_at t object) = Suc (length (queue_at u object))" "lt_waking u = lt_waking t"
  shows "drains object t u"
  using assms by (auto simp: drains_def)

lemma cancelQueue_step:
  assumes ok: "table_ok t" and q: "queued t w"
  shows "cascade t [] (cancelWaiterLocked queueWake w (Some e) t)"
    and "drains (lk_Object (w_lock w)) t (cancelWaiterLocked queueWake w (Some e) t)"
proof -
  let ?key = "lk_Object (w_lock w)" and ?d = "dropWaiter (Some e) w t"
  obtain o1 where "lt_objects t ?key = Some o1"
    using queued_key [OF ok q] by (cases "lt_objects t ?key") (auto simp: queue_at_def)
  then have eq: "cancelWaiterLocked queueWake w (Some e) t = pruneObjectLocked ?key (queueWake ?key (lk_Range (w_lock w)) ?d)"
    by (simp add: cancelWaiterLocked_def dropWaiter_def Let_def)
  have okd: "table_ok ?d" by (rule dropWaiter_ok [OF ok q])
  note okw = queueWake_ok [OF okd, of ?key "lk_Range (w_lock w)"]
  show "cascade t [] (cancelWaiterLocked queueWake w (Some e) t)"
    using cascade_trans [OF cascade_drop [OF ok q] cascade_trans [OF cascade_queueWake [OF okd] cascade_prune [OF okw]]]
    by (simp add: eq)
  have "queue_at (pruneObjectLocked ?key (queueWake ?key (lk_Range (w_lock w)) ?d)) = queue_at ?d"
    using prune_views(2) okw by (simp add: table_ok_def)
  then show "drains ?key t (cancelWaiterLocked queueWake w (Some e) t)"
    using removeWaiter_views(6) [OF ok q] unfolding eq
    by (intro drains_one) (simp_all add: dropWaiter_def)
qed

lemma grant_step:
  assumes ok: "table_ok t" and q: "queued t w" and ob: "lt_objects t (lk_Object (w_lock w)) = Some o1"
    and el: "waiterEligibleLocked (Some o1) w"
  defines "key \<equiv> lk_Object (w_lock w)"
  defines "res \<equiv> applyPlanLocked queueWake key (w_session w) (planAcquireLocked (Some o1) (w_lock w)) (removeWaiterLocked w t)"
  defines "u \<equiv> (case res of (Some err, t2) \<Rightarrow> queueWake key (lk_Range (w_lock w)) (settleWaiterLocked w (Some err) t2)
                | (None, t2) \<Rightarrow> settleWaiterLocked w None t2)"
  shows "\<exists>ws. cascade t ws u" "drains key t u"
proof -
  let ?plan = "planAcquireLocked (Some o1) (w_lock w)" and ?t = "removeWaiterLocked w t"
  have free: "conflictLocked (lt_objects t key) (w_lock w) = None"
    using eligible_no_conflict [OF el] by (simp add: ob key_def)
  note len = removeWaiter_views(6) [OF ok q, folded key_def]
  have "(\<exists>ws. cascade t ws u) \<and> drains key t u"
  proof (cases "plan_refused (w_session w) ?plan ?t")
    case True
    then have u: "u = queueWake key (lk_Range (w_lock w)) (dropWaiter (Some ErrAdmission) w t)"
      by (simp add: u_def res_def applyPlan_refused dropWaiter_def)
    have "table_ok (dropWaiter (Some ErrAdmission) w t)" by (rule dropWaiter_ok [OF ok q])
    then have "cascade t ([] @ []) u"
      unfolding u by (intro cascade_trans [OF cascade_drop [OF ok q, of ErrAdmission]] cascade_queueWake)
    moreover have "drains key t u"
      unfolding u using len by (intro drains_one) (simp_all add: dropWaiter_def)
    ultimately show ?thesis by blast
  next
    case False
    let ?v = "planned key (w_session w) ?plan ?t"
    define t2 where "t2 = (if p_weakens ?plan then queueWake key (p_touched ?plan) ?v else ?v)"
    have u: "u = settleWaiterLocked w None t2"
      by (simp add: u_def res_def applyPlan_admitted [OF False] t2_def)
    have "cascade t [w] u"
      unfolding u by (rule cascade_grant [OF ok q, where v = ?v]) (use False free in \<open>simp_all add: ob key_def t2_def\<close>)
    moreover have "drains key t u"
      unfolding u using len planned_fields(6,7,10) [OF False, of key]
      by (intro drains_one [where span = "p_touched ?plan"]) (simp_all add: t2_def)
    ultimately show ?thesis by blast
  qed
  then show "\<exists>ws. cascade t ws u" "drains key t u" by blast+
qed

lemma grantLoop_step:
  assumes "table_ok t" "\<forall>w \<in> set ws. pendingOn t object w"
  shows "(\<exists>gs. cascade t gs (grantLoop object now ws t)) \<and> drains object t (grantLoop object now ws t)"
  using assms
proof (induction ws arbitrary: t)
  case Nil
  then show ?case using cascade_refl drains_refl by auto
next
  case (Cons w ws)
  note refl = cascade_refl [OF Cons.prems(1)] drains_refl [of object t]
  have step: "(\<exists>gs. cascade t gs (grantLoop object now ws u)) \<and> drains object t (grantLoop object now ws u)"
    if c: "cascade t cs u" and d: "drains object t u" for cs u
  proof -
    have "\<forall>x \<in> set ws. pendingOn u object x" using Cons.prems(2) cascade_pendingOn [OF c] by simp
    from Cons.IH [OF cascade_ok [OF c] this] show ?thesis
      using cascade_trans [OF c] drains_trans [OF d] by blast
  qed
  show ?case
  proof (cases "settledWaiter t w \<or> lt_objects t object = None")
    case True
    then show ?thesis using step [OF refl] refl by auto
  next
    case False
    then obtain o1 where o1: "lt_objects t object = Some o1" by auto
    have q: "queued t w" and key: "lk_Object (w_lock w) = object"
      using False Cons.prems(2) by (auto simp: pendingOn_def)
    consider "\<not> session_live_at t (w_session w) now"
      | "session_live_at t (w_session w) now" "\<not> waiterEligibleLocked (Some o1) w"
      | "session_live_at t (w_session w) now" "waiterEligibleLocked (Some o1) w" by blast
    then show ?thesis
    proof cases
      case 1
      then show ?thesis
        using step [OF cancelQueue_step [OF Cons.prems(1) q, of ErrSessionExpired, unfolded key]] False o1 by simp
    next
      case 2
      then show ?thesis using step [OF refl] False o1 by simp
    next
      case 3
      obtain gs where "cascade t gs
          (case applyPlanLocked queueWake object (w_session w) (planAcquireLocked (Some o1) (w_lock w)) (removeWaiterLocked w t)
           of (Some err, t2) \<Rightarrow> queueWake object (lk_Range (w_lock w)) (settleWaiterLocked w (Some err) t2)
            | (None, t2) \<Rightarrow> settleWaiterLocked w None t2)"
        using grant_step(1) [OF Cons.prems(1) q, unfolded key, OF o1 3(2)] by blast
      from step [OF this grant_step(2) [OF Cons.prems(1) q, unfolded key, OF o1 3(2)]]
      show ?thesis using False o1 3 by (simp add: Let_def split: prod.splits option.splits)
    qed
  qed
qed

lemma readClock_fields [simp]:
  "lt_objects (snd (readClock t)) = lt_objects t" "lt_sessions (snd (readClock t)) = lt_sessions t"
  "lt_held (snd (readClock t)) = lt_held t" "lt_waiting (snd (readClock t)) = lt_waiting t"
  "lt_nextID (snd (readClock t)) = lt_nextID t" "lt_nextSeq (snd (readClock t)) = lt_nextSeq t"
  "lt_maxRecords (snd (readClock t)) = lt_maxRecords t" "lt_maxPerSession (snd (readClock t)) = lt_maxPerSession t"
  "lt_settled (snd (readClock t)) = lt_settled t" "lt_pendingWake (snd (readClock t)) = lt_pendingWake t"
  "lt_waking (snd (readClock t)) = lt_waking t"
  by (simp_all add: readClock_def)

lemma readClock_views [simp]:
  "held_at (snd (readClock t)) = held_at t" "queue_at (snd (readClock t)) = queue_at t"
  "queued (snd (readClock t)) = queued t"
  by (rule views_cong, simp)+

lemma readClock_ok: "table_ok t \<Longrightarrow> table_ok (snd (readClock t))"
  by (erule table_ok_same_objects) simp_all

lemma cascade_readClock: "table_ok t \<Longrightarrow> cascade t [] (snd (readClock t))"
  by (intro cascade_same readClock_ok) simp_all

lemma grantEligible_step:
  assumes "table_ok t"
  shows "(\<exists>gs. cascade t gs (grantEligibleLocked object span t)) \<and> drains object t (grantEligibleLocked object span t)"
proof (cases "lt_objects t object")
  case None
  then show ?thesis using cascade_refl [OF assms] drains_refl by (auto simp: grantEligibleLocked_def)
next
  case (Some o1)
  show ?thesis
  proof (cases "it_size (o_waiting o1) = 0")
    case True
    then show ?thesis using cascade_refl [OF assms] drains_refl Some by (auto simp: grantEligibleLocked_def)
  next
    case False
    let ?cs = "sort_key w_seq (tree_overlap (o_waiting o1) span (\<lambda>n acc. (True, acc @ [ie_value n])) [])"
    let ?t = "snd (readClock t)"
    have inv: "tree_invar (o_waiting o1)" using assms Some by (auto simp: table_ok_def shape_inv_def)
    have "set ?cs \<subseteq> ie_value ` set (queue_at t object)"
      using tree_overlap_collect [OF inv, of span "\<lambda>_. True" ie_value] by (auto simp: queue_at_def Some)
    then have "pendingOn t object w" if w: "w \<in> set ?cs" for w
    proof -
      obtain e where e: "e \<in> set (queue_at t object)" "w = ie_value e" using w \<open>set ?cs \<subseteq> _\<close> by blast
      then have "queued_entry object e" using assms by (simp add: table_ok_def queue_inv_def)
      then show ?thesis using e by (auto simp: pendingOn_def queued_def queued_entry_def Let_def)
    qed
    then have "\<forall>w \<in> set ?cs. pendingOn ?t object w"
      using cascade_pendingOn [OF cascade_readClock [OF assms]] by blast
    note loop = grantLoop_step [OF readClock_ok [OF assms] this, of "fst (readClock t)"]
    have "drains object t ?t" by (simp add: drains_def)
    then show ?thesis
      using loop cascade_trans [OF cascade_readClock [OF assms]] drains_trans [of object t ?t] False
      unfolding grantEligibleLocked_def Some option.case Let_def case_prod_unfold by auto
  qed
qed

lemma wakeDrain_cascade: "table_ok t \<Longrightarrow> \<exists>gs. cascade t gs (wakeDrain n i t)"
proof (induction n arbitrary: i t)
  case 0
  then show ?case using cascade_refl by auto
next
  case (Suc n)
  show ?case
  proof (cases "i < length (lt_pendingWake t)")
    case True
    let ?r = "lt_pendingWake t ! i"
    let ?u = "grantEligibleLocked (wk_object ?r) (wk_span ?r) t"
    obtain gs where gs: "cascade t gs ?u" using grantEligible_step [OF Suc.prems] by blast
    obtain hs where "cascade ?u hs (wakeDrain n (Suc i) ?u)" using Suc.IH [OF cascade_ok [OF gs]] by blast
    then show ?thesis using cascade_trans [OF gs] True by (auto simp: Let_def)
  next
    case False
    then show ?thesis using cascade_refl [OF Suc.prems] by auto
  qed
qed

lemma setWaking_ok: "table_ok t \<Longrightarrow> table_ok (t\<lparr>lt_waking := b\<rparr>)"
  "table_ok t \<Longrightarrow> table_ok (t\<lparr>lt_pendingWake := p, lt_waking := b\<rparr>)"
  by (erule table_ok_same_objects; simp)+

lemma setWaking_views [simp]:
  "held_at (t\<lparr>lt_waking := b\<rparr>) = held_at t" "queue_at (t\<lparr>lt_waking := b\<rparr>) = queue_at t"
  "held_at (t\<lparr>lt_pendingWake := p\<rparr>) = held_at t" "queue_at (t\<lparr>lt_pendingWake := p\<rparr>) = queue_at t"
  by (rule views_cong, simp)+

lemma wakeEligible_cascade:
  assumes "table_ok t"
  shows "\<exists>gs. cascade t gs (wakeEligibleLocked object span t)"
proof (cases "lt_waking t")
  case True
  then show ?thesis using cascade_queueWake [OF assms] by (auto simp: wakeEligibleLocked_def Let_def)
next
  case False
  define t2 where "t2 = (queueWake object span t)\<lparr>lt_waking := True\<rparr>"
  define t3 where "t3 = wakeDrain (Suc (length (lt_pendingWake t2) + queue_length t2 object)) 0 t2"
  have ok2: "table_ok t2" unfolding t2_def by (intro setWaking_ok queueWake_ok assms)
  have c2: "cascade t [] t2" by (rule cascade_same [OF ok2]) (simp_all add: t2_def)
  obtain gs where c3: "cascade t2 gs t3" unfolding t3_def using wakeDrain_cascade [OF ok2] by blast
  have "cascade t3 [] (t3\<lparr>lt_pendingWake := [], lt_waking := False\<rparr>)"
    by (rule cascade_same) (use setWaking_ok(2) [OF cascade_ok [OF c3]] in simp_all)
  from cascade_trans [OF c2 cascade_trans [OF c3 this]] show ?thesis
    using False by (auto simp: wakeEligibleLocked_def Let_def t2_def t3_def)
qed

subsection \<open>The drain loop has enough fuel\<close>

lemma wakeDrain_more:
  assumes "table_ok t" "\<forall>r \<in> set (drop i (lt_pendingWake t)). wk_object r = object"
    "length (lt_pendingWake t) - i + length (queue_at t object) \<le> n"
  shows "wakeDrain (n + k) i t = wakeDrain n i t"
  using assms
proof (induction n arbitrary: i t)
  case 0
  then have "\<not> i < length (lt_pendingWake t)" by simp
  then show ?case by (cases k) simp_all
next
  case (Suc n)
  show ?case
  proof (cases "i < length (lt_pendingWake t)")
    case True
    let ?r = "lt_pendingWake t ! i"
    let ?u = "grantEligibleLocked (wk_object ?r) (wk_span ?r) t"
    have obj: "wk_object ?r = object" using Suc.prems(2) True by (metis Cons_nth_drop_Suc list.set_intros(1))
    obtain gs where "cascade t gs ?u" using grantEligible_step [OF Suc.prems(1)] by blast
    then have ok: "table_ok ?u" by (rule cascade_ok)
    have "drains object t ?u" using grantEligible_step [OF Suc.prems(1), of object "wk_span ?r"] obj by simp
    then obtain reqs where reqs: "lt_pendingWake ?u = lt_pendingWake t @ reqs" "\<forall>r \<in> set reqs. wk_object r = object"
      "length reqs + length (queue_at ?u object) \<le> length (queue_at t object)"
      by (auto simp: drains_def)
    have "set (drop (Suc i) (lt_pendingWake t)) \<subseteq> set (drop i (lt_pendingWake t))"
      by (simp add: set_drop_subset_set_drop)
    then have "\<forall>r \<in> set (drop (Suc i) (lt_pendingWake ?u)). wk_object r = object"
      using Suc.prems(2) reqs(1,2) True by auto
    moreover have "length (lt_pendingWake ?u) - Suc i + length (queue_at ?u object) \<le> n"
      using Suc.prems(3) reqs True by simp
    ultimately have "wakeDrain (n + k) (Suc i) ?u = wakeDrain n (Suc i) ?u" by (rule Suc.IH [OF ok])
    then show ?thesis using True by (simp add: Let_def)
  next
    case False
    then show ?thesis by simp
  qed
qed

lemma queue_length_eq: "queue_length t key = length (queue_at t key)"
  by (simp add: queue_length_def queue_at_def split: option.split)

lemma wakeDrain_done:
  fixes object span
  assumes "table_ok t" "lt_pendingWake t = []"
  defines "t2 \<equiv> (queueWake object span t)\<lparr>lt_waking := True\<rparr>"
  defines "n \<equiv> Suc (length (lt_pendingWake t2) + queue_length t2 object)"
  shows "wakeDrain (n + k) 0 t2 = wakeDrain n 0 t2"
proof (rule wakeDrain_more [where object = object])
  show "table_ok t2" unfolding t2_def by (intro setWaking_ok queueWake_ok assms)
  show "\<forall>r \<in> set (drop 0 (lt_pendingWake t2)). wk_object r = object" by (simp add: t2_def assms(2))
  show "length (lt_pendingWake t2) - 0 + length (queue_at t2 object) \<le> n" by (simp add: n_def queue_length_eq)
qed

lemma wakeEligibleLocked_waking: "lt_waking t \<Longrightarrow> wakeEligibleLocked object span t = queueWake object span t"
  by (simp add: wakeEligibleLocked_def Let_def)

end
