(* ===== verification/Lock_Operations.thy ===== *)
theory Lock_Operations
  imports Lock_Safety
begin

text \<open>
  Every exported operation of the lock table (\<open>RegisterSession\<close>, \<open>Renew\<close>, \<open>ReleaseSession\<close>, \<open>Get\<close>,
  \<open>Set\<close>, \<open>BeginWait\<close>, \<open>Await\<close>, \<open>InterruptWaiters\<close>, \<open>Unlock\<close>) keeps the invariant, and what it does to the byte
  map, to the queue and to the decisions handed to waiters. Reachable tables are those the
  operations produce from an empty table in any order.
\<close>

section \<open>Joining the queue\<close>

lemma objectLocked_at:
  assumes "lt_objects (objectLocked key t) key = Some o1"
  shows "tree_entries (o_held o1) = held_at t key" "tree_entries (o_waiting o1) = queue_at t key"
proof -
  have "tree_entries (o_held o1) = held_at (objectLocked key t) key"
    "tree_entries (o_waiting o1) = queue_at (objectLocked key t) key"
    unfolding held_at_def queue_at_def by (simp_all add: assms)
  then show "tree_entries (o_held o1) = held_at t key" "tree_entries (o_waiting o1) = queue_at t key" by simp_all
qed

lemma insertWaiter_step:
  assumes ok: "table_ok t" and w: "validLock (w_lock w)" "w_session w = ow_Session (lk_Owner (w_lock w))"
    and seq: "w_seq w \<le> lt_nextSeq t" "lt_settled t (w_seq w) = None" "\<And>x. queued t x \<Longrightarrow> w_seq x \<noteq> w_seq w"
    and s: "session_of t (w_session w) = Some s"
    and adm: "lt_held t + lt_waiting t + 1 \<le> lt_maxRecords t" "s_records s + 1 \<le> lt_maxPerSession t"
  shows "table_ok (insertWaiterLocked w t)" "queued (insertWaiterLocked w t) x \<longleftrightarrow> queued t x \<or> x = w"
    and "cover (insertWaiterLocked w t) = cover t" "lt_settled (insertWaiterLocked w t) = lt_settled t"
    and "registered (insertWaiterLocked w t) = registered t" "lt_nextSeq (insertWaiterLocked w t) = lt_nextSeq t"
    and "lt_maxRecords (insertWaiterLocked w t) = lt_maxRecords t"
    and "lt_maxPerSession (insertWaiterLocked w t) = lt_maxPerSession t"
    and "lt_pendingWake (insertWaiterLocked w t) = lt_pendingWake t" "lt_waking (insertWaiterLocked w t) = lt_waking t"
proof -
  let ?key = "lk_Object (w_lock w)" and ?r = "lk_Range (w_lock w)" and ?u = "insertWaiterLocked w t"
  let ?link = "\<lambda>s. s\<lparr>s_waiters := s_waiters s @ [w], s_records := s_records s + 1\<rparr>"
  let ?e = "fresh_entry (lr_Start ?r) (lr_End ?r) (w_seq w) w"
  obtain o1 where o1: "lt_objects (objectLocked ?key t) ?key = Some o1" using objectLocked_some by blast
  let ?tr = "tree_insert (lr_Start ?r) (lr_End ?r) (w_seq w) w (o_waiting o1)"
  let ?o2 = "o1\<lparr>o_waiting := ?tr\<rparr>"
  have eq: "?u = (modSession (w_session w) ?link
      ((objectLocked ?key t)\<lparr>lt_objects := (lt_objects (objectLocked ?key t))(?key \<mapsto> ?o2)\<rparr>))\<lparr>lt_waiting := lt_waiting t + 1\<rparr>"
    by (simp add: insertWaiterLocked_def Let_def o1)
  have at: "tree_entries (o_held o1) = held_at t ?key" "tree_entries (o_waiting o1) = queue_at t ?key"
    by (fact objectLocked_at [OF o1])+
  have inv: "shape_inv t" "held_inv t" "queue_inv t" "index_inv t" "count_inv t" "total_inv t"
    using ok by (simp_all add: table_ok_def)
  have shape1: "shape_inv (objectLocked ?key t)" using objectLocked_ok [OF ok] by (simp add: table_ok_def)
  have trees: "held_ok (o_held o1)" "tree_invar (o_waiting o1)" using shape1 o1 by (auto simp: shape_inv_def)
  have "IKey (lr_Start ?r) (lr_End ?r) (w_seq w) \<notin> ekey ` set (tree_entries (o_waiting o1))"
  proof
    assume "IKey (lr_Start ?r) (lr_End ?r) (w_seq w) \<in> ekey ` set (tree_entries (o_waiting o1))"
    then obtain e where e: "e \<in> set (queue_at t ?key)" "ie_id e = w_seq w" by (auto simp: ekey_def at(2))
    then have "queued t (ie_value e)" "queued_entry ?key e" using inv(3) by (auto simp: queued_def queue_inv_def)
    then show False using seq(3) e(2) by (auto simp: queued_entry_def Let_def)
  qed
  then have tr: "tree_invar ?tr" "set (tree_entries ?tr) = insert ?e (set (queue_at t ?key))"
    using trees(2) by (simp_all add: tree_insert_invar treap.set_ins at(2))
  have "mset (tree_entries ?tr) = add_mset ?e (mset (queue_at t ?key))"
    unfolding at(2) [symmetric] by (simp add: tree_entries_def tree_insert_def mset_insertInterval)
  from arg_cong [OF this, of size] have len: "length (tree_entries ?tr) = Suc (length (queue_at t ?key))" by simp
  have held: "held_at ?u = held_at t"
    using at(1) by (auto simp: held_at_def eq objectLocked_other fun_eq_iff)
  have que: "queue_at ?u = (queue_at t)(?key := tree_entries ?tr)"
    by (auto simp: queue_at_def eq objectLocked_other fun_eq_iff)
  have sess: "session_of ?u = (session_of t)(w_session w \<mapsto> ?link s)" by (simp add: eq session_of_modSession s)
  have qiff: "queued ?u x \<longleftrightarrow> queued t x \<or> x = w" for x
  proof -
    have "x \<in> ie_value ` set (queue_at ?u k) \<longleftrightarrow> x \<in> ie_value ` set (queue_at t k) \<or> (k = ?key \<and> x = w)" for k
      by (auto simp: que tr(2) fresh_entry_def)
    then show ?thesis by (auto simp: queued_def)
  qed
  show "queued ?u x \<longleftrightarrow> queued t x \<or> x = w" by (rule qiff)
  show fields: "lt_settled ?u = lt_settled t" "lt_nextSeq ?u = lt_nextSeq t" "lt_maxRecords ?u = lt_maxRecords t"
    "lt_maxPerSession ?u = lt_maxPerSession t" "lt_pendingWake ?u = lt_pendingWake t" "lt_waking ?u = lt_waking t"
    by (simp_all add: eq)
  show reg: "registered ?u = registered t" using s by (auto simp: registered_def sess fun_eq_iff)
  show "cover ?u = cover t" by (simp add: cover_def held fun_eq_iff)
  have "shape_inv ?u" using shape1 trees(1) tr(1) by (auto simp: shape_inv_def eq)
  moreover have more: "lt_nextID ?u = lt_nextID t" "lt_held ?u = lt_held t" "lt_waiting ?u = lt_waiting t + 1"
    by (simp_all add: eq)
  moreover have "held_inv ?u" using inv(2) unfolding held_inv_def held reg more .
  moreover have "queue_inv ?u"
  proof -
    have new: "queued_entry ?key ?e" using w by (simp add: queued_entry_def fresh_entry_def entry_range_def)
    have "queued_entry k e" if "e \<in> set (queue_at ?u k)" for k e
      using that inv(3) new by (auto simp: que tr(2) queue_inv_def split: if_splits)
    moreover have "\<forall>x. queued t x \<longrightarrow> w_seq x \<noteq> w_seq w \<and> w_seq w \<noteq> w_seq x" using seq(3) by metis
    ultimately show ?thesis
      using inv(3) seq(1,2) s unfolding queue_inv_def qiff fields reg by (auto simp: registered_def)
  qed
  moreover have "index_inv ?u"
    unfolding index_inv_def qiff
  proof (intro allI impI)
    fix sid s1 assume s1: "session_of ?u sid = Some s1"
    have "set (s_waiters s) = {x. queued t x \<and> x_session = w_session w \<and> w_session x = w_session w}"
      if "x_session = w_session w" for x_session
      using inv(4) s that by (auto simp: index_inv_def)
    moreover have "w \<notin> set (s_waiters s)" using inv(4) s seq(3) by (auto simp: index_inv_def)
    ultimately show "set (s_waiters s1) = {x. (queued t x \<or> x = w) \<and> w_session x = sid} \<and> distinct (s_waiters s1)"
      using s1 inv(4) s unfolding sess index_inv_def by (auto split: if_splits)
  qed
  moreover have "count_inv ?u"
    unfolding count_inv_def
  proof (intro allI impI)
    fix sid s1 assume s1: "session_of ?u sid = Some s1"
    show "session_count ?u sid s1"
    proof (cases "sid = w_session w")
      case True
      then have "s1 = ?link s" "session_count t sid s" using s1 s inv(5) by (auto simp: sess count_inv_def)
      then show ?thesis using adm(2) by (simp add: session_count_def held fields object_count_def)
    next
      case False
      then have "session_count t sid s1" using s1 inv(5) by (auto simp: sess count_inv_def)
      then show ?thesis by (simp add: session_count_def held fields)
    qed
  qed
  moreover have "total_inv ?u"
    using inv(6) adm(1) len total_len_upd [OF views_finite(2) [OF inv(1)], of ?key "tree_entries ?tr"]
    by (simp add: total_inv_def held que more fields)
  ultimately show "table_ok ?u" by (simp add: table_ok_def)
qed

section \<open>Sessions\<close>

lemma liveSession_cases:
  "(\<exists>s. liveSessionLocked sid t = (Some s, snd (readClock t)) \<and> session_of t sid = Some s) \<or>
   (\<exists>u. liveSessionLocked sid t = (None, u) \<and> (u = t \<or> u = snd (readClock t)))"
  by (cases "session_of t sid") (auto simp: liveSessionLocked_def Let_def case_prod_unfold)

lemma Renew_step:
  assumes "table_ok t"
  shows "table_ok (Renew sid expires t)" "held_at (Renew sid expires t) = held_at t"
    "queue_at (Renew sid expires t) = queue_at t" "lt_settled (Renew sid expires t) = lt_settled t"
    "registered (Renew sid expires t) = registered t"
    "lt_nextSeq (Renew sid expires t) = lt_nextSeq t"
proof -
  let ?u = "Renew sid expires t"
  have v: "held_at ?u = held_at t" "queue_at ?u = queue_at t" "queued ?u = queued t"
    by (rule views_cong, simp add: Renew_def)+
  have sess: "session_of ?u = (session_of t)(sid := map_option (\<lambda>s. s\<lparr>s_expires := expires\<rparr>) (session_of t sid))"
    by (simp add: Renew_def session_of_modSession)
  have reg: "registered ?u = registered t" by (auto simp: registered_def sess fun_eq_iff)
  have inv: "shape_inv t" "held_inv t" "queue_inv t" "index_inv t" "count_inv t" "total_inv t"
    using assms by (simp_all add: table_ok_def)
  have "shape_inv ?u" using inv(1) by (simp add: shape_inv_def Renew_def)
  moreover have "held_inv ?u" using inv(2) unfolding held_inv_def v reg by (simp add: Renew_def)
  moreover have "queue_inv ?u" using inv(3) unfolding queue_inv_def v reg by (simp add: Renew_def)
  moreover have "index_inv ?u" using inv(4) unfolding index_inv_def v sess by (auto split: if_splits)
  moreover have "count_inv ?u"
    unfolding count_inv_def
  proof (intro allI impI)
    fix x s assume x: "session_of ?u x = Some s"
    then obtain s0 where s0: "session_of t x = Some s0" "s_objects s = s_objects s0" "s_records s = s_records s0"
      "s_waiters s = s_waiters s0" by (auto simp: sess split: if_splits)
    then have "session_count t x s0" using inv(5) by (simp add: count_inv_def)
    then show "session_count ?u x s" by (simp add: session_count_def s0 v object_count_def) (simp add: Renew_def)
  qed
  moreover have "total_inv ?u" using inv(6) unfolding total_inv_def v by (simp add: Renew_def)
  ultimately show "table_ok ?u" by (simp add: table_ok_def)
  show "held_at ?u = held_at t" "queue_at ?u = queue_at t" "registered ?u = registered t" by (fact v reg)+
  show "lt_settled ?u = lt_settled t" "lt_nextSeq ?u = lt_nextSeq t" by (simp_all add: Renew_def)
qed

lemma Register_step:
  assumes "table_ok t" "0 \<le> lt_maxPerSession t"
  shows "table_ok (RegisterSession sid expires t)" "held_at (RegisterSession sid expires t) = held_at t"
    "queue_at (RegisterSession sid expires t) = queue_at t" "lt_settled (RegisterSession sid expires t) = lt_settled t"
    "registered (RegisterSession sid expires t) = (registered t)(sid := True)"
    "lt_nextSeq (RegisterSession sid expires t) = lt_nextSeq t"
proof -
  let ?u = "RegisterSession sid expires t"
  let ?s = "\<lparr>s_expires = expires, s_records = 0, s_objects = [], s_waiters = []\<rparr>"
  have objs: "lt_objects ?u = lt_objects t" by (simp add: RegisterSession_def split: option.split)
  note v = views_cong [OF objs]
  have fields: "lt_held ?u = lt_held t" "lt_waiting ?u = lt_waiting t" "lt_nextID ?u = lt_nextID t"
    "lt_nextSeq ?u = lt_nextSeq t" "lt_maxRecords ?u = lt_maxRecords t" "lt_maxPerSession ?u = lt_maxPerSession t"
    "lt_settled ?u = lt_settled t"
    by (simp_all add: RegisterSession_def split: option.split)
  have sess: "session_of ?u = (session_of t)(sid := (case session_of t sid of None \<Rightarrow> Some ?s | Some s \<Rightarrow> Some s))"
    by (auto simp: RegisterSession_def update_conv' fun_eq_iff split: option.split)
  have reg: "registered ?u = (registered t)(sid := True)"
    by (auto simp: registered_def sess fun_eq_iff split: option.split)
  have inv: "shape_inv t" "held_inv t" "queue_inv t" "index_inv t" "count_inv t" "total_inv t"
    using assms by (simp_all add: table_ok_def)
  have none: "filter (of_session sid) (held_at t key) = []" if "session_of t sid = None" for key
    using that inv(2) by (fastforce simp: held_inv_def registered_def of_session_def filter_empty_conv)
  have noq: "\<not> (queued t w \<and> w_session w = sid)" if "session_of t sid = None" for w
    using that inv(3) by (auto simp: queue_inv_def registered_def)
  have "shape_inv ?u" using inv(1) by (simp add: shape_inv_def objs) (simp add: RegisterSession_def distinct_update split: option.split)
  moreover have "held_inv ?u" using inv(2) unfolding held_inv_def v reg fields by auto
  moreover have "queue_inv ?u" using inv(3) unfolding queue_inv_def v reg fields by auto
  moreover have "index_inv ?u"
    using inv(4) noq unfolding index_inv_def v sess by (auto split: if_splits option.splits)
  moreover have "count_inv ?u"
    unfolding count_inv_def
  proof (intro allI impI)
    fix x s assume x: "session_of ?u x = Some s"
    show "session_count ?u x s"
    proof (cases "x = sid \<and> session_of t sid = None")
      case True
      then have "s = ?s" using x by (simp add: sess)
      then show ?thesis using True assms(2) none by (simp add: session_count_def object_count_def v fields)
    next
      case False
      then have "session_count t x s" using x inv(5) by (auto simp: sess count_inv_def split: if_splits option.splits)
      then show ?thesis by (simp add: session_count_def v fields)
    qed
  qed
  moreover have "total_inv ?u" using inv(6) unfolding total_inv_def v fields .
  ultimately show "table_ok ?u" by (simp add: table_ok_def)
  show "held_at ?u = held_at t" "queue_at ?u = queue_at t" "registered ?u = (registered t)(sid := True)"
    "lt_settled ?u = lt_settled t" "lt_nextSeq ?u = lt_nextSeq t" by (fact v reg fields)+
qed

section \<open>Acquisition and release\<close>

text \<open>
  An operation changes the records once, by \<open>f\<close> on the byte map, and then runs the cascade:
  \<open>v\<close> is the table in between.
\<close>

definition effect :: "(byteMap \<Rightarrow> byteMap) \<Rightarrow> LockTable \<Rightarrow> lockWaiter list \<Rightarrow> LockTable \<Rightarrow> bool" where
  "effect f t ws u \<longleftrightarrow>
     (\<exists>v. cover v = f (cover t) \<and> queued v = queued t \<and> lt_settled v = lt_settled t \<and>
          registered v = registered t \<and> lt_nextSeq v = lt_nextSeq t \<and>
          lt_maxRecords v = lt_maxRecords t \<and> lt_maxPerSession v = lt_maxPerSession t \<and> cascade v ws u)"

lemma cascade_effect: "cascade t ws u \<Longrightarrow> effect id t ws u"
  unfolding effect_def by (intro exI [of _ t]) simp

lemma effect_ok: "effect f t ws u \<Longrightarrow> table_ok u"
  by (auto simp: effect_def dest: cascade_ok)

lemma effect_trans: "effect f t ws u \<Longrightarrow> cascade u vs v \<Longrightarrow> effect f t (ws @ vs) v"
  unfolding effect_def using cascade_trans by blast

lemma effectD:
  assumes "effect f t ws u"
  shows "cover u = fold acquireBytes (map w_lock ws) (f (cover t))"
    and "w \<in> set ws \<Longrightarrow> queued t w" "queued u w \<Longrightarrow> queued t w"
    and "queued t w \<Longrightarrow> \<not> queued u w \<Longrightarrow> \<exists>r. lt_settled u (w_seq w) = Some r \<and> (r = None \<longleftrightarrow> w \<in> set ws)"
    and "lt_settled t q = Some r \<Longrightarrow> lt_settled u q = Some r"
    and "lt_settled u q = Some r \<Longrightarrow>
           lt_settled t q = Some r \<or> (\<exists>w. queued t w \<and> \<not> queued u w \<and> w_seq w = q)"
    and "registered u = registered t" "lt_nextSeq u = lt_nextSeq t" "lt_maxRecords u = lt_maxRecords t"
    and "lt_maxPerSession u = lt_maxPerSession t" "distinct ws" "w \<in> set ws \<Longrightarrow> \<not> queued u w"
proof -
  obtain v where v: "cover v = f (cover t)" "queued v = queued t" "lt_settled v = lt_settled t"
    "registered v = registered t" "lt_nextSeq v = lt_nextSeq t" "lt_maxRecords v = lt_maxRecords t"
    "lt_maxPerSession v = lt_maxPerSession t" "cascade v ws u"
    using assms by (auto simp: effect_def)
  note c = cascadeD [OF v(8)]
  show "cover u = fold acquireBytes (map w_lock ws) (f (cover t))" using c(2) v(1) by simp
  show "w \<in> set ws \<Longrightarrow> queued t w" "queued u w \<Longrightarrow> queued t w" "w \<in> set ws \<Longrightarrow> \<not> queued u w" "distinct ws"
    using c(3-6) v(2) by simp_all
  show "queued t w \<Longrightarrow> \<not> queued u w \<Longrightarrow> \<exists>r. lt_settled u (w_seq w) = Some r \<and> (r = None \<longleftrightarrow> w \<in> set ws)"
    using c(7) v(2) by simp
  show "lt_settled t q = Some r \<Longrightarrow> lt_settled u q = Some r" using c(8) v(3) by simp
  show "lt_settled u q = Some r \<Longrightarrow>
           lt_settled t q = Some r \<or> (\<exists>w. queued t w \<and> \<not> queued u w \<and> w_seq w = q)"
    using c(9) v(2,3) by simp
  show "registered u = registered t" "lt_nextSeq u = lt_nextSeq t" "lt_maxRecords u = lt_maxRecords t"
    "lt_maxPerSession u = lt_maxPerSession t" using c(10-13) v(4-7) by simp_all
qed

lemma applyPlan_effect:
  assumes ok: "table_ok t" and plan: "plan_ok (set (held_at t object)) plan" "plan_of sid object plan"
    and reg: "registered t sid"
    and cov: "(cover t)(object := modes (plan_result (set (held_at t object)) plan)) = f (cover t)"
    and res: "applyPlanLocked wakeEligibleLocked object sid plan t = (err, u)"
  shows "if plan_refused sid plan t then err = Some ErrAdmission \<and> u = t
         else err = None \<and> (\<exists>ws. effect f t ws u)"
proof (cases "plan_refused sid plan t")
  case True
  then show ?thesis using applyPlan_refused res by simp
next
  case False
  let ?v = "planned object sid plan t"
  note f = planned_fields [OF False, of object]
  have okv: "table_ok ?v" by (rule planned_ok [OF ok False plan reg])
  have "cover ?v = f (cover t)" using planned_cover [OF ok False plan(1)] cov by simp
  moreover obtain ws where "cascade ?v ws u" "err = None"
    using res wakeEligible_cascade [OF okv] cascade_refl [OF okv] by (auto simp: applyPlan_admitted [OF False] split: if_splits)
  ultimately show ?thesis using f False unfolding effect_def by auto
qed

lemma readClock_same:
  "registered (snd (readClock t)) = registered t" "cover (snd (readClock t)) = cover t"
  by (simp_all add: registered_def cover_def fun_eq_iff)

lemma effect_readClock: "effect f (snd (readClock t)) ws u \<longleftrightarrow> effect f t ws u"
  by (simp add: effect_def readClock_same)

definition unchanged :: "LockTable \<Rightarrow> LockTable \<Rightarrow> bool" where
  "unchanged t u \<longleftrightarrow>
     held_at u = held_at t \<and> queue_at u = queue_at t \<and> lt_settled u = lt_settled t \<and>
     lt_sessions u = lt_sessions t \<and> lt_nextSeq u = lt_nextSeq t \<and>
     lt_maxRecords u = lt_maxRecords t \<and> lt_maxPerSession u = lt_maxPerSession t"

lemma unchanged_cascade: "table_ok u \<Longrightarrow> unchanged t u \<Longrightarrow> cascade t [] u"
  by (intro cascade_same) (simp_all add: unchanged_def)

lemma unchanged_readClock: "unchanged t (snd (readClock t))"
  by (simp add: unchanged_def)

lemma unchanged_prune: "table_ok t \<Longrightarrow> unchanged t (pruneObjectLocked key t)"
  using prune_views [of t key] by (simp add: unchanged_def table_ok_def)

lemma unchanged_trans: "unchanged t u \<Longrightarrow> unchanged u v \<Longrightarrow> unchanged t v"
  by (simp add: unchanged_def)

lemma liveSession_table:
  assumes "table_ok t" "liveSessionLocked sid t = (so, u)"
  shows "table_ok u" "unchanged t u" "lt_objects u = lt_objects t"
    and "so = Some s \<Longrightarrow> session_of t sid = Some s \<and> registered u sid \<and> lt_now t (lt_ticks t) < s_expires s"
  using assms
  by (auto simp: liveSessionLocked_def Let_def case_prod_unfold readClock_ok unchanged_readClock registered_def
      lease_live_def split: option.splits if_splits) (simp_all add: unchanged_def readClock_def)

lemma Set_step:
  assumes ok: "table_ok t" and res: "Set lock t = (err, u)"
  shows "case err of None \<Rightarrow> \<exists>ws. effect (acquireBytes lock) t ws u | Some e \<Rightarrow> table_ok u \<and> unchanged t u"
proof (cases "validLock lock")
  case False
  then show ?thesis using ok res by (auto simp: Set_def unchanged_def)
next
  case valid: True
  obtain so t1 where live: "liveSessionLocked (ow_Session (lk_Owner lock)) t = (so, t1)" by fastforce
  note l = liveSession_table [OF ok live]
  let ?ob = "lt_objects t1 (lk_Object lock)"
  let ?refuse = "conflictLocked ?ob lock \<noteq> None \<or>
    (residualLocked ?ob lock \<noteq> [] \<and> queuedAheadLocked ?ob lock (residualLocked ?ob lock) maxSeq \<noteq> None)"
  show ?thesis
  proof (cases "so = None \<or> ?refuse")
    case True
    then show ?thesis using l(1,2) res valid by (cases so) (auto simp: Set_def live Let_def split: if_splits)
  next
    case False
    then have free: "conflictLocked ?ob lock = None" and reg: "registered t1 (ow_Session (lk_Owner lock))"
      using l(4) by auto
    note plan = acquire_plan [OF l(1) valid free]
    obtain err1 t2 where ap: "applyPlanLocked wakeEligibleLocked (lk_Object lock) (ow_Session (lk_Owner lock))
        (planAcquireLocked ?ob lock) t1 = (err1, t2)" by fastforce
    have out: "err = err1" "u = pruneObjectLocked (lk_Object lock) t2"
      using False res valid ap by (auto simp: Set_def live Let_def)
    note eff = applyPlan_effect [where f = "acquireBytes lock", OF l(1) plan(1,2) reg plan(3) ap]
    show ?thesis
    proof (cases err1)
      case None
      then obtain ws where ws: "effect (acquireBytes lock) t1 ws t2" using eff by (auto split: if_splits)
      have "effect (acquireBytes lock) t1 (ws @ []) u"
        unfolding out(2) by (rule effect_trans [OF ws cascade_prune [OF effect_ok [OF ws]]])
      moreover have "cover t1 = cover t" "queued t1 = queued t" "registered t1 = registered t"
        using l(2) by (auto simp: unchanged_def cover_def queued_def registered_def fun_eq_iff)
      ultimately have "effect (acquireBytes lock) t ws u" using l(2) by (simp add: effect_def unchanged_def)
      then show ?thesis using out(1) None by auto
    next
      case (Some e)
      then have "t2 = t1" using eff by (auto split: if_splits)
      then show ?thesis
        using Some out prune_ok [OF l(1)] unchanged_trans [OF l(2) unchanged_prune [OF l(1)]] by simp
    qed
  qed
qed

lemma Unlock_step:
  assumes ok: "table_ok t" and res: "Unlock object owner r t = (err, u)"
  shows "case err of
           None \<Rightarrow> \<exists>ws. effect (releaseBytes object owner r) t ws u
         | Some e \<Rightarrow> table_ok u \<and> unchanged t u"
proof (cases "lr_Start r > lr_End r")
  case True
  then show ?thesis using ok res by (auto simp: Unlock_def unchanged_def)
next
  case False
  then have valid: "valid_range r" by (simp add: valid_range_def)
  obtain so t1 where live: "liveSessionLocked (ow_Session owner) t = (so, t1)" by fastforce
  note l = liveSession_table [OF ok live]
  let ?plan = "planReleaseLocked (lt_objects t1 object) owner r"
  note plan = release_plan [OF l(1) valid, where object = object and owner = owner]
  have same: "cover t1 = cover t" "queued t1 = queued t" "registered t1 = registered t"
    using l(2) by (auto simp: unchanged_def cover_def queued_def registered_def fun_eq_iff)
  show ?thesis
  proof (cases so)
    case None
    then show ?thesis using l(1,2) res False by (auto simp: Unlock_def live)
  next
    case (Some s)
    then have reg: "registered t1 (ow_Session owner)" using l(4) by simp
    show ?thesis
    proof (cases "p_remove ?plan = []")
      case True
      note v = object_view [OF l(1), of object]
      have "p_insert ?plan = []"
        using True planReleaseLocked_parts(1,2) [OF v(1), of owner r] by simp
      then have "plan_result (set (held_at t1 object)) ?plan = ie_value ` set (held_at t1 object)"
        using True by (simp add: plan_result_def)
      then have "cover t1 = releaseBytes object owner r (cover t1)"
        using plan(3) by (metis cover_def fun_upd_triv)
      then have "effect (releaseBytes object owner r) t [] t1"
        unfolding effect_def using cascade_refl [OF l(1)] l(2) same
        by (intro exI [of _ t1]) (auto simp: unchanged_def)
      then show ?thesis using res False True Some by (auto simp: Unlock_def live Let_def)
    next
      case rem: False
      obtain err1 t2 where ap: "applyPlanLocked wakeEligibleLocked object (ow_Session owner) ?plan t1 = (err1, t2)"
        by fastforce
      have out: "err = err1" "u = pruneObjectLocked object t2"
        using False res rem ap Some by (auto simp: Unlock_def live Let_def)
      note eff = applyPlan_effect [where f = "releaseBytes object owner r", OF l(1) plan(1,2) reg plan(3) ap]
      show ?thesis
      proof (cases err1)
        case None
        then obtain ws where ws: "effect (releaseBytes object owner r) t1 ws t2" using eff by (auto split: if_splits)
        have "effect (releaseBytes object owner r) t1 (ws @ []) u"
          unfolding out(2) by (rule effect_trans [OF ws cascade_prune [OF effect_ok [OF ws]]])
        then have "effect (releaseBytes object owner r) t ws u" using l(2) same by (simp add: effect_def unchanged_def)
        then show ?thesis using out(1) None by auto
      next
        case (Some e)
        then have "t2 = t1" using eff by (auto split: if_splits)
        then show ?thesis
          using Some out prune_ok [OF l(1)] unchanged_trans [OF l(2) unchanged_prune [OF l(1)]] by simp
      qed
    qed
  qed
qed

lemma Get_step:
  assumes ok: "table_ok t" and res: "Get want t = (r, u)"
  shows "table_ok u" "unchanged t u"
    and "r = Inr found \<Longrightarrow>
           (case found of
              None \<Rightarrow> \<forall>e \<in> set (held_at t (lk_Object want)). \<not> conflicts want (ie_value e)
            | Some l \<Rightarrow> l \<in> ie_value ` set (held_at t (lk_Object want)) \<and> conflicts want l)"
proof -
  obtain so t1 where live: "liveSessionLocked (ow_Session (lk_Owner want)) t = (so, t1)" by fastforce
  note l = liveSession_table [OF ok live]
  note v = object_view [OF ok, of "lk_Object want"]
  show "table_ok u" "unchanged t u"
    using res l(1,2) ok by (auto simp: Get_def live unchanged_def split: if_splits option.splits)
  show "r = Inr found \<Longrightarrow>
           (case found of
              None \<Rightarrow> \<forall>e \<in> set (held_at t (lk_Object want)). \<not> conflicts want (ie_value e)
            | Some l \<Rightarrow> l \<in> ie_value ` set (held_at t (lk_Object want)) \<and> conflicts want l)"
    using res conflictLocked_None_iff [OF v(1), of want] conflictLocked_Some [OF v(1), of want]
    by (auto simp: Get_def live l(3) v(4) split: if_splits option.splits)
qed

section \<open>Waiting\<close>

lemma cancelWaiter_step:
  assumes ok: "table_ok t" and q: "queued t w"
  shows "\<exists>ws. cascade t ws (cancelWaiterLocked wakeEligibleLocked w (Some e) t) \<and> w \<notin> set ws"
    and "lt_settled (cancelWaiterLocked wakeEligibleLocked w (Some e) t) (w_seq w) = Some (Some e)"
proof -
  let ?key = "lk_Object (w_lock w)" and ?d = "dropWaiter (Some e) w t"
  obtain o1 where "lt_objects t ?key = Some o1"
    using queued_key [OF ok q] by (cases "lt_objects t ?key") (auto simp: queue_at_def)
  then have eq: "cancelWaiterLocked wakeEligibleLocked w (Some e) t =
      pruneObjectLocked ?key (wakeEligibleLocked ?key (lk_Range (w_lock w)) ?d)"
    by (simp add: cancelWaiterLocked_def dropWaiter_def Let_def)
  note d = dropWaiter_ok [OF ok q, of "Some e"]
  obtain ws where ws: "cascade ?d ws (wakeEligibleLocked ?key (lk_Range (w_lock w)) ?d)"
    using wakeEligible_cascade [OF d(1)] by blast
  have all: "cascade t ([] @ ws @ []) (cancelWaiterLocked wakeEligibleLocked w (Some e) t)"
    unfolding eq by (intro cascade_trans [OF cascade_drop [OF ok q, of e]] cascade_trans [OF ws cascade_prune [OF cascade_ok [OF ws]]])
  moreover have "w \<notin> set ws" using cascadeD(4) [OF ws, of w] d(3) by blast
  ultimately show "\<exists>ws. cascade t ws (cancelWaiterLocked wakeEligibleLocked w (Some e) t) \<and> w \<notin> set ws" by auto
  have "lt_settled (wakeEligibleLocked ?key (lk_Range (w_lock w)) ?d) (w_seq w) = Some (Some e)"
    by (rule cascadeD(8) [OF ws]) (simp add: d(2))
  then show "lt_settled (cancelWaiterLocked wakeEligibleLocked w (Some e) t) (w_seq w) = Some (Some e)"
    by (simp add: eq)
qed

lemma Await_step:
  assumes ok: "table_ok t" and w: "queued t w \<or> settledWaiter t w" and res: "Await w ctx t = (r, u)"
  shows "\<exists>ws. cascade t ws u" and "ctx \<noteq> None \<Longrightarrow> r \<noteq> None"
    and "lt_settled t (w_seq w) = Some d \<Longrightarrow> r = Some d \<and> u = t"
    and "ctx = Some e \<Longrightarrow> lt_settled t (w_seq w) = None \<Longrightarrow> r = Some (Some (ErrCaller e)) \<and> \<not> queued u w"
proof -
  have q: "queued t w" if "lt_settled t (w_seq w) = None" using w that by (simp add: settledWaiter_def)
  show "\<exists>ws. cascade t ws u"
    using res cancelWaiter_step(1) [OF ok q] cascade_refl [OF ok]
    by (fastforce simp: Await_def Let_def settledWaiter_def split: option.splits if_splits)
  show decided: "lt_settled t (w_seq w) = Some d \<Longrightarrow> r = Some d \<and> u = t" for d
    using res by (auto simp: Await_def Let_def settledWaiter_def split: option.splits)
  show last: "r = Some (Some (ErrCaller e)) \<and> \<not> queued u w" if "ctx = Some e" and n: "lt_settled t (w_seq w) = None" for e
  proof -
    let ?c = "cancelWaiterLocked wakeEligibleLocked w (Some (ErrCaller e)) t"
    have u: "u = ?c" "r = lt_settled ?c (w_seq w)"
      using res that by (auto simp: Await_def Let_def settledWaiter_def)
    have s: "lt_settled ?c (w_seq w) = Some (Some (ErrCaller e))" by (rule cancelWaiter_step(2) [OF ok q [OF n]])
    obtain ws where "cascade t ws ?c" using cancelWaiter_step(1) [OF ok q [OF n]] by blast
    then have "\<not> queued ?c w" using queued_facts(1) [of ?c w] cascade_ok s by force
    then show ?thesis using u s by simp
  qed
  show "ctx \<noteq> None \<Longrightarrow> r \<noteq> None"
    using last decided by (cases "lt_settled t (w_seq w)") auto
qed

text \<open>The waiter \<open>BeginWait\<close> creates and the table it creates it in.\<close>

definition newWaiter :: "Lock \<Rightarrow> LockTable \<Rightarrow> lockWaiter" where
  "newWaiter lock t =
     \<lparr>w_lock = lock, w_seq = Suc (lt_nextSeq t), w_session = ow_Session (lk_Owner lock)\<rparr>"

definition numbered :: "LockTable \<Rightarrow> LockTable" where
  "numbered t = (snd (readClock t))\<lparr>lt_nextSeq := Suc (lt_nextSeq t)\<rparr>"

definition settled_bound :: "LockTable \<Rightarrow> bool" where
  "settled_bound t \<longleftrightarrow> (\<forall>q. lt_settled t q \<noteq> None \<longrightarrow> q \<le> lt_nextSeq t)"

lemma numbered_simps [simp]:
  "lt_objects (numbered t) = lt_objects t" "lt_sessions (numbered t) = lt_sessions t"
  "lt_held (numbered t) = lt_held t" "lt_waiting (numbered t) = lt_waiting t"
  "lt_maxRecords (numbered t) = lt_maxRecords t" "lt_maxPerSession (numbered t) = lt_maxPerSession t"
  "lt_settled (numbered t) = lt_settled t" "lt_nextSeq (numbered t) = Suc (lt_nextSeq t)"
  "lt_nextID (numbered t) = lt_nextID t"
  "lt_pendingWake (numbered t) = lt_pendingWake t" "lt_waking (numbered t) = lt_waking t"
  by (simp_all add: numbered_def)

lemma numbered_views [simp]:
  "held_at (numbered t) = held_at t" "queue_at (numbered t) = queue_at t" "queued (numbered t) = queued t"
  by (rule views_cong, simp)+

lemma numbered_ok: "table_ok t \<Longrightarrow> table_ok (numbered t)"
  by (erule table_ok_same_objects) simp_all

lemma numbered_same: "registered (numbered t) = registered t" "cover (numbered t) = cover t"
  by (simp_all add: registered_def cover_def fun_eq_iff)

lemma newWaiter_fresh:
  assumes "table_ok t" "settled_bound t"
  shows "lt_settled t (w_seq (newWaiter lock t)) = None" "queued t x \<Longrightarrow> w_seq x \<noteq> w_seq (newWaiter lock t)"
proof -
  show "lt_settled t (w_seq (newWaiter lock t)) = None"
    using assms(2) by (cases "lt_settled t (w_seq (newWaiter lock t))") (auto simp: settled_bound_def newWaiter_def)
  show "queued t x \<Longrightarrow> w_seq x \<noteq> w_seq (newWaiter lock t)"
    using queued_facts(2) [OF assms(1), of x] by (simp add: newWaiter_def)
qed

lemma BeginWait_step:
  assumes ok: "table_ok t" and sb: "settled_bound t" and res: "BeginWait lock t = (r, u)"
  defines "w \<equiv> newWaiter lock t"
  obtains (refused) e where "r = Inl e" "table_ok u" "unchanged t u"
  | (admission) "r = Inl ErrAdmission" "u = numbered t"
  | (deadlock) ws where "r = Inl ErrDeadlock" "deadlockLocked w (insertWaiterLocked w (numbered t))"
      "queued (insertWaiterLocked w (numbered t)) = (queued t)(w := True)"
      "table_ok (insertWaiterLocked w (numbered t))"
      "cascade (insertWaiterLocked w (numbered t)) ws u" "w \<notin> set ws"
      "lt_settled u (w_seq w) = Some (Some ErrDeadlock)"
  | (queued) "r = Inr w" "u = insertWaiterLocked w (numbered t)" "table_ok u" "\<not> deadlockLocked w u"
      "queued u = (queued t)(w := True)" "cover u = cover t"
  | (granted) ws v where "r = Inr w" "effect (acquireBytes lock) (numbered t) ws v" "u = settleWaiterLocked w None v"
      "table_ok u" "lt_settled v (w_seq w) = None" "validLock lock"
  | (full) v where "r = Inr w" "unchanged (numbered t) v" "table_ok v" "u = settleWaiterLocked w (Some ErrAdmission) v"
      "table_ok u"
proof (cases "validLock lock")
  case False
  then show ?thesis using ok res by (intro refused [of ErrInvalidLock]) (auto simp: BeginWait_def unchanged_def)
next
  case valid: True
  have fresh: "lt_settled t (w_seq w) = None" "\<And>x. queued t x \<Longrightarrow> w_seq x \<noteq> w_seq w"
    unfolding w_def by (fact newWaiter_fresh [OF ok sb])+
  obtain so t1 where live: "liveSessionLocked (ow_Session (lk_Owner lock)) t = (so, t1)" by fastforce
  note l = liveSession_table [OF ok live]
  show ?thesis
  proof (cases so)
    case None
    then show ?thesis using l(1,2) res valid by (intro refused [of ErrSessionExpired]) (auto simp: BeginWait_def live)
  next
    case (Some s)
    then have sess: "session_of t (ow_Session (lk_Owner lock)) = Some s" using l(4) by simp
    have t1: "t1 = snd (readClock t)"
      using live Some by (auto simp: liveSessionLocked_def Let_def case_prod_unfold split: option.splits if_splits)
    let ?t2 = "numbered t" and ?ob = "lt_objects t (lk_Object lock)"
    have t2: "t1\<lparr>lt_nextSeq := Suc (lt_nextSeq t1)\<rparr> = ?t2" by (simp add: t1 numbered_def)
    have ok2: "table_ok ?t2" by (rule numbered_ok [OF ok])
    have wf: "w_lock w = lock" "w_session w = ow_Session (lk_Owner lock)" "w_seq w = Suc (lt_nextSeq t)"
      by (simp_all add: w_def newWaiter_def)
    have w_eq: "\<lparr>w_lock = lock, w_seq = lt_nextSeq ?t2, w_session = ow_Session (lk_Owner lock)\<rparr> = w"
      by (simp add: w_def newWaiter_def)
    have body: "BeginWait lock t =
      (if waiterEligibleLocked ?ob w
       then let (err, t3) = applyPlanLocked wakeEligibleLocked (lk_Object lock) (w_session w) (planAcquireLocked ?ob lock) ?t2
            in (Inr w, settleWaiterLocked w err (pruneObjectLocked (lk_Object lock) t3))
       else if lt_held t + lt_waiting t + 1 > lt_maxRecords t \<or> s_records s + 1 > lt_maxPerSession t
       then (Inl ErrAdmission, ?t2)
       else let t3 = insertWaiterLocked w ?t2
            in if deadlockLocked w t3
               then let t4 = cancelWaiterLocked wakeEligibleLocked w (Some ErrDeadlock) t3
                    in (Inl (case lt_settled t4 (w_seq w) of Some (Some err) \<Rightarrow> err | _ \<Rightarrow> ErrDeadlock), t4)
               else (Inr w, t3))"
      unfolding BeginWait_def live prod.case Some option.case Let_def t2 w_eq using valid by simp
    show ?thesis
    proof (cases "waiterEligibleLocked ?ob w")
      case True
      have free: "conflictLocked (lt_objects ?t2 (lk_Object lock)) lock = None"
        using eligible_no_conflict [OF True] by (simp add: wf)
      note plan = acquire_plan [OF ok2 valid free]
      have reg: "registered ?t2 (ow_Session (lk_Owner lock))" using sess by (simp add: registered_def)
      obtain err t3 where ap: "applyPlanLocked wakeEligibleLocked (lk_Object lock) (ow_Session (lk_Owner lock))
          (planAcquireLocked (lt_objects ?t2 (lk_Object lock)) lock) ?t2 = (err, t3)" by fastforce
      note eff = applyPlan_effect [where f = "acquireBytes lock", OF ok2 plan(1,2) reg plan(3) ap]
      let ?v = "pruneObjectLocked (lk_Object lock) t3"
      have out: "r = Inr w" "u = settleWaiterLocked w err ?v" using res body True ap by (simp_all add: wf)
      show ?thesis
      proof (cases err)
        case None
        then obtain ws where ws: "effect (acquireBytes lock) ?t2 ws t3" using eff by (auto split: if_splits)
        have e2: "effect (acquireBytes lock) ?t2 (ws @ []) ?v"
          by (rule effect_trans [OF ws cascade_prune [OF effect_ok [OF ws]]])
        have nq: "\<not> (queued ?v x \<and> w_seq x = w_seq w)" for x using effectD(3) [OF e2, of x] fresh(2) [of x] by auto
        have "lt_settled ?v (w_seq w) = None"
        proof (rule ccontr)
          assume "lt_settled ?v (w_seq w) \<noteq> None"
          then obtain d where "lt_settled ?v (w_seq w) = Some d" by blast
          from effectD(6) [OF e2 this] show False using fresh by auto
        qed
        moreover have "table_ok u" unfolding out(2) using nq by (intro settle_ok effect_ok [OF e2]) auto
        ultimately show ?thesis using e2 out None valid by (intro granted [of ws ?v]) simp_all
      next
        case (Some e)
        then have "t3 = ?t2" "e = ErrAdmission" using eff by (auto split: if_splits)
        moreover have "table_ok u"
          unfolding out(2) calculation using fresh(2) prune_views(2) [of ?t2] ok2
          by (intro settle_ok prune_ok ok2) (auto simp: queued_def table_ok_def)
        ultimately show ?thesis
          using out Some unchanged_prune [OF ok2] prune_ok [OF ok2] by (intro full [of ?v]) simp_all
      qed
    next
      case ne: False
      show ?thesis
      proof (cases "lt_held t + lt_waiting t + 1 > lt_maxRecords t \<or> s_records s + 1 > lt_maxPerSession t")
        case True
        then show ?thesis using res body ne by (intro admission) simp_all
      next
        case False
        let ?t3 = "insertWaiterLocked w ?t2"
        have ins: "table_ok ?t3" "\<And>x. queued ?t3 x \<longleftrightarrow> queued t x \<or> x = w"
          using insertWaiter_step(1,2) [OF ok2, of w s] valid fresh sess False by (simp_all add: wf)
        have c3: "cover ?t3 = cover t"
          using insertWaiter_step(3) [OF ok2, of w s] valid fresh sess False by (simp add: wf numbered_same)
        from ins have q3: "queued ?t3 = (queued t)(w := True)" by (auto simp: fun_eq_iff)
        show ?thesis
        proof (cases "deadlockLocked w ?t3")
          case True
          have qw: "queued ?t3 w" by (simp add: q3)
          note c = cancelWaiter_step [OF ins(1) qw, of ErrDeadlock]
          obtain ws where "cascade ?t3 ws (cancelWaiterLocked wakeEligibleLocked w (Some ErrDeadlock) ?t3)" "w \<notin> set ws"
            using c(1) by blast
          then show ?thesis
            using res body ne False True c(2) q3 ins(1) by (intro deadlock [of ws]) (auto simp: Let_def)
        next
          case nd: False
          then show ?thesis using res body ne False q3 ins(1) c3 by (intro queued) (auto simp: Let_def)
        qed
      qed
    qed
  qed
qed

section \<open>Retiring every waiter\<close>

lemma dropWaiters_cascade:
  assumes "table_ok t" "distinct ws" "\<forall>w \<in> set ws. queued t w"
  shows "cascade t [] (fold (dropWaiter (Some e)) ws t) \<and>
         (\<forall>x. queued (fold (dropWaiter (Some e)) ws t) x \<longleftrightarrow> queued t x \<and> x \<notin> set ws) \<and>
         (\<forall>w \<in> set ws. lt_settled (fold (dropWaiter (Some e)) ws t) (w_seq w) = Some (Some e)) \<and>
         held_at (fold (dropWaiter (Some e)) ws t) = held_at t"
  using assms
proof (induction ws arbitrary: t)
  case Nil
  then show ?case using cascade_refl by simp
next
  case (Cons w ws)
  let ?d = "dropWaiter (Some e) w t"
  have q: "queued t w" using Cons.prems(3) by simp
  note d = dropWaiter_ok [OF Cons.prems(1) q, of "Some e"]
  have held: "held_at ?d = held_at t" using removeWaiter_views(1) [OF Cons.prems(1) q] by (simp add: dropWaiter_def)
  have "\<forall>x \<in> set ws. queued ?d x" using Cons.prems(2,3) d(3) by auto
  note IH = Cons.IH [OF d(1) _ this]
  have c: "cascade ?d [] (fold (dropWaiter (Some e)) ws ?d)" using IH Cons.prems(2) by simp
  have "lt_settled (fold (dropWaiter (Some e)) ws ?d) (w_seq w) = Some (Some e)"
    by (rule cascadeD(8) [OF c]) (simp add: d(2))
  then show ?case
    using IH Cons.prems(2) held d(3) cascade_trans [OF cascade_drop [OF Cons.prems(1) q, of e] c] by auto
qed

lemma prunes_cascade: "table_ok t \<Longrightarrow> cascade t [] (fold pruneObjectLocked keys t)"
proof (induction keys arbitrary: t)
  case Nil
  then show ?case using cascade_refl by simp
next
  case (Cons key keys)
  then show ?case using cascade_trans [OF cascade_prune [OF Cons.prems] Cons.IH [OF prune_ok [OF Cons.prems]]] by simp
qed

lemma prunes_held: "table_ok t \<Longrightarrow> held_at (fold pruneObjectLocked keys t) = held_at t"
proof (induction keys arbitrary: t)
  case (Cons key keys)
  have "held_at (pruneObjectLocked key t) = held_at t" using Cons.prems by (intro prune_views) (simp add: table_ok_def)
  with Cons.IH [OF prune_ok [OF Cons.prems]] show ?case by (simp only: fold_simps)
qed simp

lemma all_waiters:
  assumes "table_ok t"
  shows "set (concat (map (s_waiters \<circ> snd) (lt_sessions t))) = {w. queued t w}"
    and "distinct (concat (map (s_waiters \<circ> snd) (lt_sessions t)))"
proof -
  have inv: "distinct (map fst (lt_sessions t))" "index_inv t" "queue_inv t"
    using assms by (simp_all add: table_ok_def shape_inv_def)
  have s: "set (s_waiters s) = {w. queued t w \<and> w_session w = sid}" "distinct (s_waiters s)"
    if "(sid, s) \<in> set (lt_sessions t)" for sid s
    using inv(1,2) that by (auto simp: index_inv_def)
  show "set (concat (map (s_waiters \<circ> snd) (lt_sessions t))) = {w. queued t w}"
  proof (intro equalityI subsetI)
    fix w assume "w \<in> set (concat (map (s_waiters \<circ> snd) (lt_sessions t)))"
    then obtain sid s1 where "(sid, s1) \<in> set (lt_sessions t)" "w \<in> set (s_waiters s1)" by auto
    then show "w \<in> {w. queued t w}" using s(1) by blast
  next
    fix w assume w: "w \<in> {w. queued t w}"
    then obtain s1 where "(w_session w, s1) \<in> set (lt_sessions t)"
      using inv(3) map_of_SomeD by (fastforce simp: queue_inv_def registered_def)
    then show "w \<in> set (concat (map (s_waiters \<circ> snd) (lt_sessions t)))" using s(1) w by force
  qed
  have "distinct (concat (map (s_waiters \<circ> snd) xs))"
    if "set xs \<subseteq> set (lt_sessions t)" "distinct (map fst xs)" for xs
    using that
  proof (induction xs)
    case (Cons x xs)
    obtain sid s1 where x: "x = (sid, s1)" by (cases x)
    have "set (s_waiters s1) \<inter> set (s_waiters s2) = {}" if "(sid2, s2) \<in> set xs" for sid2 s2
    proof -
      have "sid2 \<noteq> sid" using Cons.prems(2) that x by (auto simp: rev_image_eqI)
      then show ?thesis using s [of sid s1] s [of sid2 s2] Cons.prems(1) that x by auto
    qed
    moreover have "distinct (s_waiters s1)" using s(2) [of sid s1] Cons.prems(1) x by simp
    moreover have "distinct (concat (map (s_waiters \<circ> snd) xs))" using Cons by (simp add: comp_def)
    ultimately show ?case using x by (fastforce simp: comp_def disjoint_iff)
  qed simp
  then show "distinct (concat (map (s_waiters \<circ> snd) (lt_sessions t)))" using inv(1) by blast
qed

lemma Interrupt_step:
  assumes "table_ok t"
  shows "cascade t [] (InterruptWaiters err t)" "\<not> queued (InterruptWaiters err t) w"
    and "held_at (InterruptWaiters err t) = held_at t"
    and "queued t w \<Longrightarrow> lt_settled (InterruptWaiters err t) (w_seq w) =
           Some (Some (case err of None \<Rightarrow> ErrSessionExpired | Some e \<Rightarrow> e))"
proof -
  let ?e = "case err of None \<Rightarrow> ErrSessionExpired | Some e \<Rightarrow> e"
  let ?ws = "concat (map (s_waiters \<circ> snd) (lt_sessions t))"
  let ?d = "fold (dropWaiter (Some ?e)) ?ws t"
  let ?keys = "remdups (map (lk_Object \<circ> w_lock) ?ws)"
  note all = all_waiters [OF assms]
  have "\<forall>w \<in> set ?ws. queued t w" using all(1) by blast
  note d = dropWaiters_cascade [OF assms all(2) this, of ?e]
  have eq: "InterruptWaiters err t = fold pruneObjectLocked ?keys ?d" by (simp add: InterruptWaiters_def Let_def)
  have okd: "table_ok ?d" using d cascade_ok by blast
  note p = prunes_cascade [OF okd, of ?keys]
  show c: "cascade t [] (InterruptWaiters err t)" using cascade_trans [OF _ p] d unfolding eq by fastforce
  show "\<not> queued (InterruptWaiters err t) w" using cascadeD(6) [OF p, of w] d all(1) unfolding eq by blast
  show "held_at (InterruptWaiters err t) = held_at t" using d prunes_held [OF okd] unfolding eq by simp
  show "lt_settled (InterruptWaiters err t) (w_seq w) = Some (Some ?e)" if "queued t w"
  proof -
    have "lt_settled ?d (w_seq w) = Some (Some ?e)" using d that all(1) by blast
    then show ?thesis unfolding eq by (rule cascadeD(8) [OF p])
  qed
qed

section \<open>Session release\<close>

text \<open>
  \<open>ReleaseSession\<close> unregisters the session first and empties it afterwards. Unregistering
  commutes with the emptying steps, so the invariant can be carried through them on the table in
  which the session is still known, and be transferred at the end.
\<close>

definition forget :: "SessionID \<Rightarrow> LockTable \<Rightarrow> LockTable" where
  "forget sid t = t\<lparr>lt_sessions := AList.delete sid (lt_sessions t)\<rparr>"

lemma forget_simps [simp]:
  "lt_objects (forget sid t) = lt_objects t" "lt_held (forget sid t) = lt_held t"
  "lt_waiting (forget sid t) = lt_waiting t" "lt_nextID (forget sid t) = lt_nextID t"
  "lt_nextSeq (forget sid t) = lt_nextSeq t" "lt_maxRecords (forget sid t) = lt_maxRecords t"
  "lt_maxPerSession (forget sid t) = lt_maxPerSession t" "lt_settled (forget sid t) = lt_settled t"
  "lt_pendingWake (forget sid t) = lt_pendingWake t" "lt_waking (forget sid t) = lt_waking t"
  "session_of (forget sid t) = (session_of t)(sid := None)"
  by (simp_all add: forget_def delete_conv')

lemma forget_views [simp]:
  "held_at (forget sid t) = held_at t" "queue_at (forget sid t) = queue_at t" "queued (forget sid t) = queued t"
  by (rule views_cong, simp)+

lemma forget_modSession [simp]:
  "modSession sid f (forget sid t) = forget sid t" "forget sid (modSession sid f t) = forget sid t"
proof -
  show "modSession sid f (forget sid t) = forget sid t" unfolding modSession_def forget_simps by simp
  show "forget sid (modSession sid f t) = forget sid t"
    by (simp add: modSession_def forget_def delete_update_same split: option.split)
qed

lemma forget_upd:
  "(forget sid t)\<lparr>lt_objects := m\<rparr> = forget sid (t\<lparr>lt_objects := m\<rparr>)"
  "(forget sid t)\<lparr>lt_waiting := n\<rparr> = forget sid (t\<lparr>lt_waiting := n\<rparr>)"
  "(forget sid t)\<lparr>lt_settled := f\<rparr> = forget sid (t\<lparr>lt_settled := f\<rparr>)"
  "(forget sid t)\<lparr>lt_held := n\<rparr> = forget sid (t\<lparr>lt_held := n\<rparr>)"
  by (simp_all add: forget_def)

lemma forget_modSession_objects [simp]:
  "modSession sid f ((forget sid t)\<lparr>lt_objects := m\<rparr>) = (forget sid t)\<lparr>lt_objects := m\<rparr>"
  unfolding forget_upd(1) forget_modSession(1) ..

lemma forget_dropWaiter:
  assumes "w_session w = sid"
  shows "dropWaiter err w (forget sid t) = forget sid (dropWaiter err w t)"
proof -
  have "removeWaiterLocked w (forget sid t) = forget sid (removeWaiterLocked w t)"
    using assms
    by (simp add: removeWaiterLocked_def Let_def case_prod_unfold forget_upd [symmetric] split: option.split)
  moreover have "settleWaiterLocked w err (forget sid u) = forget sid (settleWaiterLocked w err u)" for u
    by (simp add: settleWaiterLocked_def settledWaiter_def forget_upd)
  ultimately show ?thesis by (simp add: dropWaiter_def)
qed

lemma forget_dropWaiters:
  "\<forall>w \<in> set ws. w_session w = sid \<Longrightarrow>
     fold (dropWaiter err) ws (forget sid t) = forget sid (fold (dropWaiter err) ws t)"
  by (induction ws arbitrary: t) (simp_all add: forget_dropWaiter)

lemma forget_ok:
  assumes "table_ok t" "session_of t sid = Some s" "s_objects s = []" "s_waiters s = []"
  shows "table_ok (forget sid t)"
proof -
  have inv: "shape_inv t" "held_inv t" "queue_inv t" "index_inv t" "count_inv t" "total_inv t"
    using assms by (simp_all add: table_ok_def)
  have none: "\<not> of_session sid e" if "e \<in> set (held_at t key)" for key e
  proof -
    have "object_count s key = int (length (filter (of_session sid) (held_at t key)))"
      using inv(5) assms(2) by (simp add: count_inv_def session_count_def)
    then show ?thesis using assms(3) that by (auto simp: object_count_def filter_empty_conv)
  qed
  have noq: "w_session w \<noteq> sid" if "queued t w" for w
  proof -
    have "set (s_waiters s) = {w. queued t w \<and> w_session w = sid}" using inv(4) assms(2) by (simp add: index_inv_def)
    then show ?thesis using assms(4) that by auto
  qed
  have "shape_inv (forget sid t)"
    using inv(1) unfolding shape_inv_def forget_simps by (simp add: forget_def distinct_delete)
  moreover have "held_inv (forget sid t)"
    using inv(2) none unfolding held_inv_def registered_def forget_simps forget_views by (auto simp: of_session_def)
  moreover have "queue_inv (forget sid t)"
    using inv(3) noq unfolding queue_inv_def registered_def forget_simps forget_views by auto
  moreover have "index_inv (forget sid t)"
    using inv(4) unfolding index_inv_def forget_simps forget_views by (auto split: if_splits)
  moreover have "count_inv (forget sid t)"
  proof -
    have "session_count (forget sid t) x y = session_count t x y" for x y by (simp add: session_count_def)
    then show ?thesis using inv(5) by (simp add: count_inv_def)
  qed
  moreover have "total_inv (forget sid t)" using inv(6) by (simp add: total_inv_def)
  ultimately show ?thesis by (simp add: table_ok_def)
qed

definition dropPlan :: "SessionID \<Rightarrow> ObjectKey \<Rightarrow> LockTable \<Rightarrow> lockPlan" where
  "dropPlan sid object t =
     \<lparr>p_remove = filter (of_session sid) (held_at t object), p_insert = [],
      p_touched = \<lparr>lr_Start = 0, lr_End = 0\<rparr>, p_weakens = False\<rparr>"

lemma dropPlan_ok:
  assumes "table_ok t"
  shows "plan_ok (set (held_at t object)) (dropPlan sid object t)" "plan_of sid object (dropPlan sid object t)"
    and "\<not> plan_refused sid (dropPlan sid object t) t"
proof -
  have "distinct (held_at t object)"
    using assms
    by (auto simp: table_ok_def shape_inv_def held_ok_def tree_invar_def held_at_def key_ordered_distinct split: option.split)
  then show "plan_ok (set (held_at t object)) (dropPlan sid object t)" by (auto simp: plan_ok_def dropPlan_def)
  show "plan_of sid object (dropPlan sid object t)" by (simp add: plan_of_def dropPlan_def of_session_def)
  show "\<not> plan_refused sid (dropPlan sid object t) t" by (simp add: plan_refused_def dropPlan_def)
qed

lemma dropSessionObject_planned:
  assumes ok: "table_ok t" and o1: "lt_objects t object = Some o1"
  shows "\<exists>touched'. dropSessionObject sid object (forget sid t, touched) =
           (forget sid (planned object sid (dropPlan sid object t) t), touched')"
proof -
  have inv: "tree_invar (o_held o1)" using ok o1 by (auto simp: table_ok_def shape_inv_def held_ok_def)
  have doomed: "tree_all (o_held o1)
      (\<lambda>n acc. (True, if ow_Session (lk_Owner (ie_value n)) = sid then acc @ [n] else acc)) [] =
      filter (of_session sid) (held_at t object)"
    using fold_until_collect [of "of_session sid" "\<lambda>n. n" "tree_entries (o_held o1)" "[]"]
    by (simp add: tree_all_spec [OF inv] held_at_def o1 of_session_def [abs_def])
  have "objectLocked object t = t" by (simp add: objectLocked_def o1)
  moreover have "\<not> plan_refused sid (dropPlan sid object t) t" by (rule dropPlan_ok [OF ok])
  moreover have "t\<lparr>lt_objects := m, lt_nextID := lt_nextID t, lt_held := h\<rparr> = t\<lparr>lt_objects := m, lt_held := h\<rparr>" for m h
    by (rule LockTable.equality) simp_all
  ultimately have "planned object sid (dropPlan sid object t) t =
      modSession sid (recount object (dropPlan sid object t))
        (t\<lparr>lt_objects := (lt_objects t)(object \<mapsto> o1\<lparr>o_held := removeEntries (filter (of_session sid) (held_at t object)) (o_held o1)\<rparr>),
           lt_held := lt_held t - int (length (filter (of_session sid) (held_at t object)))\<rparr>)"
    by (simp add: planned_def applyPlanLocked_def Let_def o1 dropPlan_def recount_def [abs_def] cong: if_cong)
  then show ?thesis by (simp add: dropSessionObject_def Let_def o1 doomed forget_upd)
qed

lemma dropPlan_cover:
  assumes "table_ok t" "ow_Session ow \<noteq> sid"
  shows "cover (planned object sid (dropPlan sid object t) t) key ow = cover t key ow"
  unfolding planned_cover [OF assms(1) dropPlan_ok(3,1) [OF assms(1)]]
  using assms(2) by (fastforce simp: cover_def modes_def plan_result_def dropPlan_def of_session_def)

lemma dropObjects_step:
  assumes "table_ok t" "session_of t sid = Some s" "s_objects s = objs"
  shows "\<exists>u touched' s'. fold (dropSessionObject sid) (map fst objs) (forget sid t, touched) = (forget sid u, touched') \<and>
           table_ok u \<and> session_of u sid = Some s' \<and> s_objects s' = [] \<and> s_waiters s' = s_waiters s \<and>
           queue_at u = queue_at t \<and> lt_settled u = lt_settled t \<and> registered u = registered t \<and>
           lt_nextSeq u = lt_nextSeq t \<and> lt_maxRecords u = lt_maxRecords t \<and>
           lt_maxPerSession u = lt_maxPerSession t \<and> lt_pendingWake u = lt_pendingWake t \<and> lt_waking u = lt_waking t \<and>
           (\<forall>key ow. ow_Session ow \<noteq> sid \<longrightarrow> cover u key ow = cover t key ow)"
  using assms
proof (induction objs arbitrary: t s touched)
  case Nil
  then show ?case by auto
next
  case (Cons x objs)
  obtain k n where x: "x = (k, n)" by (cases x)
  let ?plan = "dropPlan sid k t"
  let ?u = "planned k sid ?plan t"
  note p = dropPlan_ok [OF Cons.prems(1), where sid = sid and object = k]
  note f = planned_fields [OF p(3), of k]
  have cnt: "session_count t sid s" using Cons.prems(1,2) by (simp add: table_ok_def count_inv_def)
  have n: "object_count s k = n" "n \<noteq> 0" using cnt Cons.prems(3) x by (auto simp: object_count_def session_count_def dest: spec [of _ k])
  then have len: "int (length (filter (of_session sid) (held_at t k))) = n" using cnt by (simp add: session_count_def)
  then have "held_at t k \<noteq> []" using n(2) by auto
  then obtain o1 where o1: "lt_objects t k = Some o1" by (cases "lt_objects t k") (auto simp: held_at_def)
  obtain touched1 where step: "dropSessionObject sid k (forget sid t, touched) = (forget sid ?u, touched1)"
    using dropSessionObject_planned [OF Cons.prems(1) o1] by blast
  have ok: "table_ok ?u"
    by (rule planned_ok [OF Cons.prems(1) p(3,1,2)]) (simp add: registered_def Cons.prems(2))
  have sess: "session_of ?u sid = Some (recount k ?plan s)" by (simp add: f Cons.prems(2))
  have "k \<notin> fst ` set objs" using cnt Cons.prems(3) x by (auto simp: session_count_def)
  then have objs: "s_objects (recount k ?plan s) = objs"
    using n len Cons.prems(3) x by (simp add: recount_def dropPlan_def Let_def delete_idem)
  obtain u touched' s' where "fold (dropSessionObject sid) (map fst objs) (forget sid ?u, touched1) = (forget sid u, touched')"
    "table_ok u" "session_of u sid = Some s'" "s_objects s' = []" "s_waiters s' = s_waiters (recount k ?plan s)"
    "queue_at u = queue_at ?u" "lt_settled u = lt_settled ?u" "registered u = registered ?u"
    "lt_nextSeq u = lt_nextSeq ?u" "lt_maxRecords u = lt_maxRecords ?u"
    "lt_maxPerSession u = lt_maxPerSession ?u" "lt_pendingWake u = lt_pendingWake ?u" "lt_waking u = lt_waking ?u"
    "\<forall>key ow. ow_Session ow \<noteq> sid \<longrightarrow> cover u key ow = cover ?u key ow"
    using Cons.IH [OF ok sess objs, of touched1] by blast
  then show ?case
    using step x dropPlan_cover [OF Cons.prems(1), where sid = sid and object = k]
    by (intro exI [of _ u] exI [of _ touched'] exI [of _ s']) (simp add: f)
qed

lemma wakes_cascade: "table_ok t \<Longrightarrow> \<exists>ws. cascade t ws (fold (\<lambda>(object, span). wakeEligibleLocked object span) xs t)"
proof (induction xs arbitrary: t)
  case Nil
  then show ?case using cascade_refl by auto
next
  case (Cons x xs)
  obtain ws where ws: "cascade t ws (wakeEligibleLocked (fst x) (snd x) t)"
    using wakeEligible_cascade [OF Cons.prems] by blast
  from Cons.IH [OF cascade_ok [OF ws]] show ?case using cascade_trans [OF ws] by (auto simp: case_prod_unfold)
qed

lemma dropWaiters_objects:
  assumes "table_ok t" "distinct ws" "\<forall>w \<in> set ws. queued t w" "session_of t sid = Some s"
  shows "\<exists>s'. session_of (fold (dropWaiter (Some e)) ws t) sid = Some s' \<and> s_objects s' = s_objects s"
  using assms
proof (induction ws arbitrary: t s)
  case Nil
  then show ?case by simp
next
  case (Cons w ws)
  let ?d = "dropWaiter (Some e) w t"
  have q: "queued t w" using Cons.prems(3) by simp
  note d = dropWaiter_ok [OF Cons.prems(1) q, of "Some e"]
  obtain s1 where s1: "session_of ?d sid = Some s1" "s_objects s1 = s_objects s"
    using Cons.prems(4) removeWaiter_views(4) [OF Cons.prems(1) q]
    by (cases "sid = w_session w") (auto simp: dropWaiter_def)
  have "\<forall>x \<in> set ws. queued ?d x" using Cons.prems(2,3) d(3) by auto
  from Cons.IH [OF d(1) _ this s1(1)] show ?case using Cons.prems(2) s1(2) by simp
qed

text \<open>\<open>v\<close> is the table once the session has nothing left, before any other waiter is woken.\<close>

lemma Release_step:
  assumes ok: "table_ok t" and s: "session_of t sid = Some s"
  obtains v ws where "table_ok v" "cascade v ws (ReleaseSession sid t)"
    "registered v = (registered t)(sid := False)" "cover v = dropSessionBytes sid (cover t)"
    "\<forall>w. queued v w \<longleftrightarrow> queued t w \<and> w_session w \<noteq> sid"
    "\<forall>w. queued t w \<longrightarrow> w_session w = sid \<longrightarrow> lt_settled v (w_seq w) = Some (Some ErrSessionExpired)"
    "\<forall>q r. lt_settled t q = Some r \<longrightarrow> lt_settled v q = Some r"
    "\<forall>q r. lt_settled v q = Some r \<longrightarrow> lt_settled t q = Some r \<or> (\<exists>w. queued t w \<and> w_seq w = q)"
    "lt_nextSeq v = lt_nextSeq t" "lt_maxRecords v = lt_maxRecords t" "lt_maxPerSession v = lt_maxPerSession t"
proof -
  let ?ws = "s_waiters s" and ?e = "Some ErrSessionExpired"
  let ?d = "fold (dropWaiter ?e) ?ws t"
  have ws: "set ?ws = {w. queued t w \<and> w_session w = sid}" "distinct ?ws"
    using ok s by (simp_all add: table_ok_def index_inv_def)
  then have qws: "\<forall>w \<in> set ?ws. queued t w" by simp
  note d = dropWaiters_cascade [OF ok ws(2) qws, of ErrSessionExpired]
  have cd: "cascade t [] ?d" and okd: "table_ok ?d" using d cascade_ok by blast+
  obtain s1 where s1: "session_of ?d sid = Some s1" "s_objects s1 = s_objects s"
    using dropWaiters_objects [OF ok ws(2) qws s] by blast
  then have "set (s_waiters s1) = {w. queued ?d w \<and> w_session w = sid}" using okd by (simp add: table_ok_def index_inv_def)
  moreover have qd: "queued ?d w \<longleftrightarrow> queued t w \<and> w \<notin> set ?ws" for w using d by blast
  ultimately have "set (s_waiters s1) = {}" unfolding qd ws(1) by simp
  then have w1: "s_waiters s1 = []" by simp
  let ?touched = "fold (\<lambda>w. extendTouched (lk_Object (w_lock w)) (lk_Range (w_lock w))) ?ws []"
  obtain u touched s2 where u: "fold (dropSessionObject sid) (map fst (s_objects s)) (forget sid ?d, ?touched) = (forget sid u, touched)"
    "table_ok u" "session_of u sid = Some s2" "s_objects s2 = []" "s_waiters s2 = []"
    "queue_at u = queue_at ?d" "lt_settled u = lt_settled ?d" "registered u = registered ?d"
    "lt_nextSeq u = lt_nextSeq ?d" "lt_maxRecords u = lt_maxRecords ?d" "lt_maxPerSession u = lt_maxPerSession ?d"
    "\<forall>key ow. ow_Session ow \<noteq> sid \<longrightarrow> cover u key ow = cover ?d key ow"
    using dropObjects_step [OF okd s1, of ?touched] w1 by auto
  let ?v = "forget sid u"
  have okv: "table_ok ?v" by (rule forget_ok [OF u(2-5)])
  have eq: "ReleaseSession sid t =
      fold (pruneObjectLocked \<circ> fst) touched (fold (\<lambda>(object, span). wakeEligibleLocked object span) touched ?v)"
    using forget_dropWaiters [of ?ws sid ?e t] ws(1) u(1)
    by (simp add: ReleaseSession_def s Let_def forget_def [symmetric])
  obtain gs where gs: "cascade ?v gs (fold (\<lambda>(object, span). wakeEligibleLocked object span) touched ?v)"
    using wakes_cascade [OF okv] by blast
  have "cascade ?v (gs @ []) (ReleaseSession sid t)"
    unfolding eq using cascade_trans [OF gs prunes_cascade [OF cascade_ok [OF gs], of "map fst touched"]]
    by (simp add: fold_map)
  moreover have "queued u = queued ?d" using u(6) by (simp add: queued_def fun_eq_iff)
  then have "queued ?v w \<longleftrightarrow> queued t w \<and> w_session w \<noteq> sid" for w using qd [of w] ws(1) by auto
  moreover have "cover ?v = dropSessionBytes sid (cover t)"
  proof -
    have "cover u key ow b = {}" if "ow_Session ow = sid" for key ow b
    proof -
      have "registered ?v (ow_Session (lk_Owner (ie_value e)))" if "e \<in> set (held_at ?v key)" for e
        using okv that by (simp add: table_ok_def held_inv_def)
      then show ?thesis using \<open>ow_Session ow = sid\<close> by (fastforce simp: cover_def modes_def registered_def)
    qed
    moreover have "cover ?d = cover t" using cascadeD(2) [OF cd] by simp
    moreover have "cover ?v = cover u" by (simp add: cover_def fun_eq_iff)
    ultimately show ?thesis using u(12) by (auto simp: dropSessionBytes_def fun_eq_iff)
  qed
  moreover have "registered ?v = (registered t)(sid := False)"
    using u(8) cascadeD(10) [OF cd] by (auto simp: registered_def fun_eq_iff)
  moreover have "lt_settled ?v (w_seq w) = Some (Some ErrSessionExpired)" if "queued t w" "w_session w = sid" for w
    using d that ws(1) u(7) by simp
  moreover have "lt_settled ?v q = Some r" if "lt_settled t q = Some r" for q r
    using cascadeD(8) [OF cd that] u(7) by simp
  moreover have "lt_settled t q = Some r \<or> (\<exists>w. queued t w \<and> w_seq w = q)" if "lt_settled ?v q = Some r" for q r
    using cascadeD(9) [OF cd, of q r] that u(7) by auto
  ultimately show ?thesis
    using okv u(9-11) cascadeD(11-13) [OF cd] by (intro that [of ?v gs] allI impI) simp_all
qed

end
