(* ===== verification/Lock_Reach.thy ===== *)
theory Lock_Reach
  imports Lock_Operations
begin

text \<open>
  The lock tables that operations produce from \<open>NewLockTable\<close> in any order, and the theorems
  about all of them: mutual exclusion, the session bounds, the refinement of the byte map, the end
  of every wake cascade and what the deadlock search decides.
\<close>

section \<open>Between operations no cascade is running\<close>

definition idle :: "LockTable \<Rightarrow> bool" where
  "idle t \<longleftrightarrow> \<not> lt_waking t \<and> lt_pendingWake t = []"

lemma idle_wake: "idle t \<Longrightarrow> idle (wakeEligibleLocked object span t)"
  by (simp add: idle_def wakeEligibleLocked_def Let_def)

lemma idle_prim [simp]:
  "idle (pruneObjectLocked key t) = idle t" "idle (settleWaiterLocked w err t) = idle t"
  "idle (removeWaiterLocked w t) = idle t" "idle (snd (readClock t)) = idle t" "idle (forget sid t) = idle t"
  "idle (Renew sid e t) = idle t" "idle (numbered t) = idle t" "idle (objectLocked key t) = idle t"
  by (simp_all add: idle_def Renew_def)

lemma idle_insert [simp]: "idle (insertWaiterLocked w t) = idle t"
  by (cases "lt_objects (objectLocked (lk_Object (w_lock w)) t) (lk_Object (w_lock w))")
     (simp_all add: insertWaiterLocked_def idle_def Let_def)

lemma idle_register [simp]: "idle (RegisterSession sid e t) = idle t"
  by (simp add: idle_def RegisterSession_def split: option.split)

lemma idle_drop [simp]: "idle (dropWaiter err w t) = idle t"
  by (simp add: dropWaiter_def)

lemma idle_drops [simp]: "idle (fold (dropWaiter err) ws t) = idle t"
  by (induction ws arbitrary: t) simp_all

lemma idle_prunes [simp]: "idle (fold pruneObjectLocked keys t) = idle t"
  by (induction keys arbitrary: t) simp_all

lemma idle_apply:
  assumes "idle t" "applyPlanLocked wakeEligibleLocked object sid plan t = (err, u)"
  shows "idle u"
proof (cases "plan_refused sid plan t")
  case True
  then show ?thesis using assms applyPlan_refused by simp
next
  case False
  have "idle (planned object sid plan t)" using assms(1) planned_fields(6,7) [OF False, of object] by (simp add: idle_def)
  then show ?thesis using assms(2) idle_wake by (auto simp: applyPlan_admitted [OF False] split: if_splits)
qed

lemma idle_cancel: "idle t \<Longrightarrow> idle (cancelWaiterLocked wakeEligibleLocked w err t)"
  by (simp add: cancelWaiterLocked_def Let_def idle_wake split: option.split)

lemma idle_live: "idle t \<Longrightarrow> liveSessionLocked sid t = (so, u) \<Longrightarrow> idle u"
  by (auto simp: liveSessionLocked_def Let_def case_prod_unfold split: option.splits if_splits)

lemma idle_Set:
  assumes "idle t" "Set lock t = (err, u)"
  shows "idle u"
proof -
  let ?sid = "ow_Session (lk_Owner lock)"
  obtain so t1 where live: "liveSessionLocked ?sid t = (so, t1)" by fastforce
  let ?plan = "planAcquireLocked (lt_objects t1 (lk_Object lock)) lock"
  obtain err1 t2 where ap: "applyPlanLocked wakeEligibleLocked (lk_Object lock) ?sid ?plan t1 = (err1, t2)" by fastforce
  note i1 = idle_live [OF assms(1) live]
  note i2 = idle_apply [OF i1 ap]
  show ?thesis using assms i1 i2 by (cases so) (auto simp: Set_def live ap Let_def split: if_splits)
qed

lemma idle_Unlock:
  assumes "idle t" "Unlock object owner r t = (err, u)"
  shows "idle u"
proof -
  obtain so t1 where live: "liveSessionLocked (ow_Session owner) t = (so, t1)" by fastforce
  let ?plan = "planReleaseLocked (lt_objects t1 object) owner r"
  obtain err1 t2 where ap: "applyPlanLocked wakeEligibleLocked object (ow_Session owner) ?plan t1 = (err1, t2)" by fastforce
  note i1 = idle_live [OF assms(1) live]
  note i2 = idle_apply [OF i1 ap]
  show ?thesis using assms i1 i2 by (cases so) (auto simp: Unlock_def live ap Let_def split: if_splits)
qed

lemma idle_Get:
  assumes "idle t" "Get want t = (r, u)"
  shows "idle u"
proof -
  obtain so t1 where live: "liveSessionLocked (ow_Session (lk_Owner want)) t = (so, t1)" by fastforce
  show ?thesis using assms idle_live [OF assms(1) live] by (cases so) (auto simp: Get_def live split: if_splits)
qed

lemma idle_Await: "idle t \<Longrightarrow> Await w ctx t = (r, u) \<Longrightarrow> idle u"
  by (auto simp: Await_def Let_def idle_cancel split: if_splits option.splits)

lemma idle_nextSeq [simp]: "idle (t\<lparr>lt_nextSeq := n\<rparr>) = idle t"
  by (simp add: idle_def)

lemma idle_BeginWait:
  assumes "idle t" "BeginWait lock t = (r, u)"
  shows "idle u"
proof (cases "validLock lock")
  case False
  then show ?thesis using assms by (auto simp: BeginWait_def)
next
  case True
  obtain so t1 where live: "liveSessionLocked (ow_Session (lk_Owner lock)) t = (so, t1)" by fastforce
  have t1: "idle (t1\<lparr>lt_nextSeq := n\<rparr>)" for n using idle_live [OF assms(1) live] by simp
  show ?thesis
    using assms(2) True t1
    by (auto simp: BeginWait_def live Let_def intro!: idle_cancel dest: idle_apply [OF t1]
        split: if_splits prod.splits option.splits)
qed

lemma idle_Interrupt: "idle t \<Longrightarrow> idle (InterruptWaiters err t)"
  by (simp add: InterruptWaiters_def Let_def)

lemma idle_dropObjects:
  "idle (fst st) \<Longrightarrow> idle (fst (fold (dropSessionObject sid) keys st))"
proof (induction keys arbitrary: st)
  case (Cons key keys)
  have "idle (fst (dropSessionObject sid key st))"
    using Cons.prems by (cases st) (auto simp: dropSessionObject_def Let_def idle_def split: option.split)
  then show ?case using Cons.IH by simp
qed simp

lemma idle_wakes: "idle t \<Longrightarrow> idle (fold (\<lambda>(object, span). wakeEligibleLocked object span) xs t)"
  by (induction xs arbitrary: t) (auto simp: idle_wake)

lemma idle_Release: "idle t \<Longrightarrow> idle (ReleaseSession sid t)"
proof (cases "session_of t sid")
  case (Some s)
  assume "idle t"
  have prunes: "idle (fold (pruneObjectLocked \<circ> fst) xs u) = idle u" for xs :: touchedSpans and u
    by (induction xs arbitrary: u) simp_all
  obtain t3 touched3 where f: "fold (dropSessionObject sid) (map fst (s_objects s))
      (fold (dropWaiter (Some ErrSessionExpired)) (s_waiters s) (forget sid t),
       fold (\<lambda>w. extendTouched (lk_Object (w_lock w)) (lk_Range (w_lock w))) (s_waiters s) []) = (t3, touched3)"
    by fastforce
  have "idle t3"
    using idle_dropObjects [of "(fold (dropWaiter (Some ErrSessionExpired)) (s_waiters s) (forget sid t),
       fold (\<lambda>w. extendTouched (lk_Object (w_lock w)) (lk_Range (w_lock w))) (s_waiters s) [])" sid "map fst (s_objects s)"]
      f \<open>idle t\<close> by simp
  then show ?thesis using Some f by (simp add: ReleaseSession_def Let_def forget_def [symmetric] prunes idle_wakes)
qed (simp add: ReleaseSession_def)

section \<open>Reachable tables\<close>

text \<open>The second component holds the \<open>PendingLock\<close> handles that \<open>BeginWait\<close> gave out.\<close>

inductive lock_reach :: "LockTable \<Rightarrow> lockWaiter set \<Rightarrow> bool" where
  new: "NewLockTable maxRecords maxPerSession now = Some t \<Longrightarrow> 0 \<le> maxPerSession \<Longrightarrow> lock_reach t {}"
| register: "lock_reach t P \<Longrightarrow> lock_reach (RegisterSession sid expires t) P"
| renew: "lock_reach t P \<Longrightarrow> lock_reach (Renew sid expires t) P"
| release: "lock_reach t P \<Longrightarrow> lock_reach (ReleaseSession sid t) P"
| get: "lock_reach t P \<Longrightarrow> Get want t = (r, u) \<Longrightarrow> lock_reach u P"
| set: "lock_reach t P \<Longrightarrow> Set lock t = (err, u) \<Longrightarrow> lock_reach u P"
| wait_refused: "lock_reach t P \<Longrightarrow> BeginWait lock t = (Inl e, u) \<Longrightarrow> lock_reach u P"
| wait: "lock_reach t P \<Longrightarrow> BeginWait lock t = (Inr w, u) \<Longrightarrow> lock_reach u (insert w P)"
| await: "lock_reach t P \<Longrightarrow> w \<in> P \<Longrightarrow> Await w ctx t = (d, u) \<Longrightarrow> lock_reach u P"
| interrupt: "lock_reach t P \<Longrightarrow> lock_reach (InterruptWaiters err t) P"
| unlock: "lock_reach t P \<Longrightarrow> Unlock object owner r t = (err, u) \<Longrightarrow> lock_reach u P"

definition sys_inv :: "LockTable \<Rightarrow> lockWaiter set \<Rightarrow> bool" where
  "sys_inv t P \<longleftrightarrow>
     table_ok t \<and> settled_bound t \<and> idle t \<and> 0 \<le> lt_maxPerSession t \<and>
     (\<forall>w. queued t w \<longrightarrow> w \<in> P) \<and> (\<forall>w \<in> P. queued t w \<or> settledWaiter t w)"

lemma sys_inv_step:
  assumes "sys_inv t P" "table_ok u" "idle u" "lt_maxPerSession u = lt_maxPerSession t" "lt_nextSeq t \<le> lt_nextSeq u"
    and new: "\<And>q r. lt_settled u q = Some r \<Longrightarrow> lt_settled t q = Some r \<or> q \<le> lt_nextSeq u"
    and old: "\<And>q r. lt_settled t q = Some r \<Longrightarrow> lt_settled u q = Some r"
    and join: "\<And>w. queued u w \<Longrightarrow> queued t w \<or> w \<in> Q" and sub: "P \<subseteq> Q"
    and leave: "\<And>w. queued t w \<Longrightarrow> queued u w \<or> settledWaiter u w"
    and issued: "\<And>w. w \<in> Q - P \<Longrightarrow> queued u w \<or> settledWaiter u w"
  shows "sys_inv u Q"
proof -
  note i = assms(1) [unfolded sys_inv_def]
  have "q \<le> lt_nextSeq u" if "lt_settled u q = Some r" for q r
    using new [OF that] i assms(5) by (auto simp: settled_bound_def intro: order_trans)
  then have "settled_bound u" by (auto simp: settled_bound_def)
  moreover have "queued u w \<or> settledWaiter u w" if "w \<in> Q" for w
  proof (cases "w \<in> P \<and> \<not> queued t w")
    case True
    then have "settledWaiter t w" using i by blast
    then show ?thesis using old by (auto simp: settledWaiter_def)
  next
    case False
    then show ?thesis using leave issued that by blast
  qed
  moreover have "\<forall>w. queued u w \<longrightarrow> w \<in> Q" using join i sub by blast
  ultimately show ?thesis using i assms(2-4) by (simp add: sys_inv_def)
qed

lemma sys_inv_effect:
  assumes "sys_inv t P" "effect f t ws u" "idle u"
  shows "sys_inv u P"
proof (rule sys_inv_step [OF assms(1) effect_ok [OF assms(2)] assms(3)])
  note e = effectD [OF assms(2)]
  have ok: "table_ok t" using assms(1) by (simp add: sys_inv_def)
  show "lt_settled t q = Some r \<or> q \<le> lt_nextSeq u" if "lt_settled u q = Some r" for q r
    using e(6) [OF that] e(8) queued_facts(2) [OF ok] by auto
  show "queued u w \<or> settledWaiter u w" if "queued t w" for w
    using e(4) [OF that] by (auto simp: settledWaiter_def)
  show "lt_settled u q = Some r" if "lt_settled t q = Some r" for q r using e(5) [OF that] .
qed (use effectD(3,8,10) [OF assms(2)] in auto)

lemma sys_inv_cascade: "sys_inv t P \<Longrightarrow> cascade t ws u \<Longrightarrow> idle u \<Longrightarrow> sys_inv u P"
  by (rule sys_inv_effect [OF _ cascade_effect])

lemma sys_inv_unchanged: "sys_inv t P \<Longrightarrow> table_ok u \<Longrightarrow> unchanged t u \<Longrightarrow> idle u \<Longrightarrow> sys_inv u P"
  using sys_inv_cascade unchanged_cascade by blast

lemma sys_inv_numbered:
  assumes "sys_inv t P"
  shows "sys_inv (numbered t) P"
  by (rule sys_inv_step [OF assms]) (use assms in \<open>auto simp: sys_inv_def numbered_ok\<close>)

lemma settle_settled:
  "lt_settled (settleWaiterLocked w err t) =
     (if settledWaiter t w then lt_settled t else (lt_settled t)(w_seq w \<mapsto> err))"
  by (simp add: settleWaiterLocked_def)

lemma sys_inv_settle:
  assumes i: "sys_inv t P" and ok: "table_ok (settleWaiterLocked w err t)" and seq: "w_seq w \<le> lt_nextSeq t"
  shows "sys_inv (settleWaiterLocked w err t) (insert w P)"
proof (rule sys_inv_step [OF i ok])
  show "idle (settleWaiterLocked w err t)" using i by (simp add: sys_inv_def)
  show "queued (settleWaiterLocked w err t) x \<or> settledWaiter (settleWaiterLocked w err t) x"
    if "x \<in> insert w P - P" for x
    using that by (auto simp: settledWaiter_def settle_settled split: if_splits)
  show "lt_settled (settleWaiterLocked w err t) q = Some r" if "lt_settled t q = Some r" for q r
    using that by (auto simp: settledWaiter_def settle_settled split: if_splits)
  show "lt_settled t q = Some r \<or> q \<le> lt_nextSeq (settleWaiterLocked w err t)"
    if "lt_settled (settleWaiterLocked w err t) q = Some r" for q r
    using that seq by (auto simp: settle_settled split: if_splits)
qed auto

lemma sys_inv_wait:
  assumes i: "sys_inv t P" and res: "BeginWait lock t = (r, u)"
  shows "sys_inv u (case r of Inl _ \<Rightarrow> P | Inr w \<Rightarrow> insert w P)"
proof -
  let ?w = "newWaiter lock t" and ?n = "numbered t"
  have ok: "table_ok t" and sb: "settled_bound t" using i by (simp_all add: sys_inv_def)
  have idle: "idle u" using idle_BeginWait res i by (auto simp: sys_inv_def)
  have seq: "w_seq ?w = lt_nextSeq ?n" by (simp add: newWaiter_def)
  note n = sys_inv_numbered [OF i]
  show ?thesis
    using ok sb res
  proof (cases rule: BeginWait_step)
    case (refused e)
    then show ?thesis using sys_inv_unchanged [OF i] idle by simp
  next
    case admission
    then show ?thesis using n by simp
  next
    case (deadlock ws)
    note c = cascadeD [OF deadlock(5)]
    have fields: "lt_settled (insertWaiterLocked ?w ?n) = lt_settled t" "lt_nextSeq (insertWaiterLocked ?w ?n) = lt_nextSeq ?n"
      "lt_maxPerSession (insertWaiterLocked ?w ?n) = lt_maxPerSession t"
      by (cases "lt_objects (objectLocked (lk_Object (w_lock ?w)) ?n) (lk_Object (w_lock ?w))";
          simp add: insertWaiterLocked_def Let_def)+
    have nq: "\<not> queued u ?w" using queued_facts(1) [OF c(1), of ?w] deadlock(7) by auto
    have "sys_inv u P"
    proof (rule sys_inv_step [OF i c(1) idle])
      show "lt_settled t q = Some d \<or> q \<le> lt_nextSeq u" if "lt_settled u q = Some d" for q d
        using c(9) [OF that] queued_facts(2) [OF deadlock(4)] c(11) fields by auto
      show "queued t x \<or> x \<in> P" if "queued u x" for x
        using c(6) [OF that] nq that deadlock(3) by (auto split: if_splits)
      show "queued u x \<or> settledWaiter u x" if "queued t x" for x
      proof -
        have "queued (insertWaiterLocked ?w ?n) x" using that deadlock(3) by simp
        from c(7) [OF this] show ?thesis by (auto simp: settledWaiter_def)
      qed
    qed (use c(8,11,13) fields in auto)
    then show ?thesis using deadlock(1) by simp
  next
    case queued
    have fields: "lt_settled u = lt_settled t" "lt_nextSeq u = lt_nextSeq ?n" "lt_maxPerSession u = lt_maxPerSession t"
      unfolding queued(2)
      by (cases "lt_objects (objectLocked (lk_Object (w_lock ?w)) ?n) (lk_Object (w_lock ?w))";
          simp add: insertWaiterLocked_def Let_def)+
    have "sys_inv u (insert ?w P)"
      by (rule sys_inv_step [OF i queued(3) idle]) (use queued(5) fields in \<open>auto split: if_splits\<close>)
    then show ?thesis using queued(1) by simp
  next
    case (granted ws v)
    have "idle v" using idle granted(3) by simp
    from sys_inv_effect [OF n granted(2) this] have v: "sys_inv v P" .
    have nv: "lt_nextSeq v = lt_nextSeq ?n" using effectD(8) [OF granted(2)] .
    have "sys_inv u (insert ?w P)"
      using granted(3,4) seq nv sys_inv_settle [OF v] by simp
    then show ?thesis using granted(1) by simp
  next
    case (full v)
    have "idle v" using idle full(4) by simp
    have v: "sys_inv v P" by (rule sys_inv_unchanged [OF n full(3,2) \<open>idle v\<close>])
    have nv: "lt_nextSeq v = lt_nextSeq ?n" using full(2) by (simp add: unchanged_def)
    have "sys_inv u (insert ?w P)"
      using full(4,5) seq nv sys_inv_settle [OF v] by simp
    then show ?thesis using full(1) by simp
  qed
qed

lemma sys_inv_release:
  assumes i: "sys_inv t P"
  shows "sys_inv (ReleaseSession sid t) P"
proof (cases "session_of t sid")
  case None
  then show ?thesis using i by (simp add: ReleaseSession_def)
next
  case (Some s)
  have ok: "table_ok t" and idle: "idle (ReleaseSession sid t)" using i by (simp_all add: sys_inv_def idle_Release)
  obtain v ws where v: "table_ok v" "cascade v ws (ReleaseSession sid t)"
    and "registered v = (registered t)(sid := False)" "cover v = dropSessionBytes sid (cover t)"
    and w: "\<forall>w. queued v w \<longleftrightarrow> queued t w \<and> w_session w \<noteq> sid"
    "\<forall>w. queued t w \<longrightarrow> w_session w = sid \<longrightarrow> lt_settled v (w_seq w) = Some (Some ErrSessionExpired)"
    "\<forall>q r. lt_settled t q = Some r \<longrightarrow> lt_settled v q = Some r"
    "\<forall>q r. lt_settled v q = Some r \<longrightarrow> lt_settled t q = Some r \<or> (\<exists>w. queued t w \<and> w_seq w = q)"
    "lt_nextSeq v = lt_nextSeq t" "lt_maxRecords v = lt_maxRecords t" "lt_maxPerSession v = lt_maxPerSession t"
    by (rule Release_step [OF ok Some])
  note c = cascadeD [OF v(2)]
  show ?thesis
  proof (rule sys_inv_step [OF i c(1) idle])
    show "lt_settled t q = Some r \<or> q \<le> lt_nextSeq (ReleaseSession sid t)"
      if "lt_settled (ReleaseSession sid t) q = Some r" for q r
      using c(9) [OF that] w(4) [rule_format, of q r] queued_facts(2) [OF ok] w(1,5) c(11) by auto
    show "lt_settled (ReleaseSession sid t) q = Some r" if "lt_settled t q = Some r" for q r
      using c(8) [OF w(3) [rule_format, OF that]] .
    show "queued (ReleaseSession sid t) w \<or> settledWaiter (ReleaseSession sid t) w" if "queued t w" for w
    proof (cases "w_session w = sid")
      case True
      then show ?thesis using c(8) [OF w(2) [rule_format, OF that True]] by (simp add: settledWaiter_def)
    next
      case False
      then show ?thesis using c(7) [of w] w(1) that by (auto simp: settledWaiter_def)
    qed
  qed (use c(6,11,13) w(1,5,7) in auto)
qed

lemma new_table_ok:
  assumes "NewLockTable maxRecords maxPerSession now = Some t" "0 \<le> maxPerSession"
  shows "sys_inv t {}"
proof -
  have t: "lt_objects t = Map.empty" "lt_sessions t = []" "lt_held t = 0" "lt_waiting t = 0" "lt_settled t = Map.empty"
    "lt_pendingWake t = []" "\<not> lt_waking t" "lt_maxPerSession t = maxPerSession" "0 \<le> lt_maxRecords t"
    using assms by (auto simp: NewLockTable_def split: if_splits)
  have v: "held_at t = (\<lambda>_. [])" "queue_at t = (\<lambda>_. [])" "queued t = (\<lambda>_. False)"
    by (auto simp: held_at_def queue_at_def queued_def t)
  show ?thesis
    using assms(2)
    by (simp add: sys_inv_def table_ok_def inv_defs v t idle_def settled_bound_def total_len_def)
qed

theorem lock_reach_inv: "lock_reach t P \<Longrightarrow> sys_inv t P"
proof (induction rule: lock_reach.induct)
  case (new maxRecords maxPerSession now t)
  then show ?case by (rule new_table_ok)
next
  case (register t P sid expires)
  then have ok: "table_ok t" "0 \<le> lt_maxPerSession t" by (simp_all add: sys_inv_def)
  note r = Register_step [OF ok, of sid expires]
  have "lt_maxPerSession (RegisterSession sid expires t) = lt_maxPerSession t"
    by (simp add: RegisterSession_def split: option.split)
  moreover have "queued (RegisterSession sid expires t) = queued t" using r(3) by (simp add: queued_def fun_eq_iff)
  ultimately show ?case
    using register.IH r by (intro sys_inv_step [OF register.IH r(1)]) (auto simp: sys_inv_def)
next
  case (renew t P sid expires)
  then have ok: "table_ok t" by (simp add: sys_inv_def)
  note r = Renew_step [OF ok, of sid expires]
  have "lt_maxPerSession (Renew sid expires t) = lt_maxPerSession t" by (simp add: Renew_def)
  moreover have "queued (Renew sid expires t) = queued t" using r(3) by (simp add: queued_def fun_eq_iff)
  ultimately show ?case
    using renew.IH r by (intro sys_inv_step [OF renew.IH r(1)]) (auto simp: sys_inv_def)
next
  case (release t P sid)
  then show ?case by (simp add: sys_inv_release)
next
  case (get t P want r u)
  then have ok: "table_ok t" "idle t" by (simp_all add: sys_inv_def)
  show ?case
    by (rule sys_inv_unchanged [OF get.IH Get_step(1,2) [OF ok(1) get.hyps(2)] idle_Get [OF ok(2) get.hyps(2)]])
next
  case (set t P lock err u)
  then have ok: "table_ok t" "idle t" by (simp_all add: sys_inv_def)
  show ?case
    using Set_step [OF ok(1) set.hyps(2)] sys_inv_effect [OF set.IH] sys_inv_unchanged [OF set.IH]
      idle_Set [OF ok(2) set.hyps(2)] by (cases err) auto
next
  case (wait_refused t P lock e u)
  then show ?case using sys_inv_wait [OF wait_refused.IH wait_refused.hyps(2)] by simp
next
  case (wait t P lock w u)
  then show ?case using sys_inv_wait [OF wait.IH wait.hyps(2)] by simp
next
  case (await t P w ctx d u)
  then have ok: "table_ok t" "idle t" "queued t w \<or> settledWaiter t w" by (simp_all add: sys_inv_def)
  show ?case
    using Await_step(1) [OF ok(1,3) await.hyps(3)] sys_inv_cascade [OF await.IH] idle_Await [OF ok(2) await.hyps(3)] by blast
next
  case (interrupt t P err)
  then have ok: "table_ok t" "idle t" by (simp_all add: sys_inv_def)
  show ?case
    using Interrupt_step(1) [OF ok(1)] sys_inv_cascade [OF interrupt.IH] idle_Interrupt [OF ok(2)] by blast
next
  case (unlock t P object owner r err u)
  then have ok: "table_ok t" "idle t" by (simp_all add: sys_inv_def)
  show ?case
    using Unlock_step [OF ok(1) unlock.hyps(2)] sys_inv_effect [OF unlock.IH] sys_inv_unchanged [OF unlock.IH]
      idle_Unlock [OF ok(2) unlock.hyps(2)] by (cases err) auto
qed

end
