(* ===== verification/Lock_Properties.thy ===== *)
theory Lock_Properties
  imports Lock_Reach
begin

text \<open>
  The properties of the lock table of \<^verbatim>\<open>src/vcs/internal/volumeserver/locks.go\<close>, over every reachable table: mutual
  exclusion, canonical records, bounds, refinement of the byte map by each operation, queue
  order, cancellation, deadlock search and the end of the wake cascade.
\<close>

section \<open>The wait-for graph\<close>

text \<open>An owner waits for the owners that block one of its queued requests, the request \<open>w\<close> itself apart.\<close>

definition waits_for :: "LockTable \<Rightarrow> lockWaiter \<Rightarrow> LockOwner rel" where
  "waits_for t w = {(x, y). \<exists>other \<in> set (ownerWaiters t x). other \<noteq> w \<and> y \<in> set (blockersLocked other t)}"

lemma waits_for_image:
  "waits_for t w `` {x} =
     set (concat (map (\<lambda>other. if other = w then [] else blockersLocked other t) (ownerWaiters t x)))"
  by (auto simp: waits_for_def split: if_splits)

lemma closed_reach:
  assumes "R `` V \<subseteq> V \<union> F" "o0 \<notin> V" "v \<in> V" "(v, o0) \<in> R\<^sup>*"
  shows "\<exists>f \<in> F. (f, o0) \<in> R\<^sup>*"
  using assms(4,3)
proof (induction rule: converse_rtrancl_induct)
  case base
  then show ?case using assms(2) by simp
next
  case (step x y)
  then show ?case using assms(1) by (cases "y \<in> V") auto
qed

lemma deadlockLoop_spec:
  assumes "waits_for t w `` set visited \<subseteq> set visited \<union> set frontier" "lk_Owner (w_lock w) \<notin> set visited"
  shows "deadlockLoop t w visited frontier \<longleftrightarrow>
           lk_Owner (w_lock w) \<in> (waits_for t w)\<^sup>* `` set frontier"
  using assms
proof (induction t w visited frontier rule: deadlockLoop.induct)
  case (1 t w visited frontier)
  let ?R = "waits_for t w" and ?o = "lk_Owner (w_lock w)"
  show ?case
  proof (cases "frontier = []")
    case True
    then show ?thesis by (subst deadlockLoop.simps) simp
  next
    case False
    let ?x = "last frontier" and ?rest = "butlast frontier"
    have split: "set frontier = insert ?x (set ?rest)"
      using append_butlast_last_id [OF False] by (metis list.set(1) list.set(2) set_append Un_insert_right sup_bot_right)
    consider "?x = ?o" | "?x \<noteq> ?o" "?x \<in> set visited" | "?x \<noteq> ?o" "?x \<notin> set visited" by blast
    then show ?thesis
    proof cases
      case 1
      then show ?thesis using False split by (subst deadlockLoop.simps) (auto simp: Let_def)
    next
      case 2
      have pre: "?R `` set visited \<subseteq> set visited \<union> set ?rest" using "1.prems"(1) 2(2) split by auto
      have "deadlockLoop t w visited frontier = deadlockLoop t w visited ?rest"
        using False 2 by (subst deadlockLoop.simps) (simp add: Let_def)
      also have "\<dots> \<longleftrightarrow> ?o \<in> ?R\<^sup>* `` set ?rest"
        using "1.IH"(1) [OF False refl refl 2 pre "1.prems"(2)] .
      also have "\<dots> \<longleftrightarrow> ?o \<in> ?R\<^sup>* `` set frontier"
        using closed_reach [OF pre "1.prems"(2) 2(2)] unfolding split by auto
      finally show ?thesis .
    next
      case 3
      let ?next = "?rest @ concat (map (\<lambda>other. if other = w then [] else blockersLocked other t) (ownerWaiters t ?x))"
      have succs: "set ?next = set ?rest \<union> ?R `` {?x}" unfolding set_append waits_for_image ..
      have pre: "?R `` set (?x # visited) \<subseteq> set (?x # visited) \<union> set ?next"
        using "1.prems"(1) split unfolding succs by auto
      have "deadlockLoop t w visited frontier = deadlockLoop t w (?x # visited) ?next"
        using False 3 by (subst deadlockLoop.simps) (simp add: Let_def)
      also have "\<dots> \<longleftrightarrow> ?o \<in> ?R\<^sup>* `` set ?next"
        using "1.IH"(2) [OF False refl refl 3 pre] "1.prems"(2) 3(1) by simp
      also have "\<dots> \<longleftrightarrow> ?o \<in> ?R\<^sup>* `` set frontier"
      proof -
        have "(?x, ?o) \<in> ?R\<^sup>* \<longleftrightarrow> (\<exists>y \<in> ?R `` {?x}. (y, ?o) \<in> ?R\<^sup>*)"
          using 3(1) by (auto elim: converse_rtranclE intro: converse_rtrancl_into_rtrancl)
        then show ?thesis unfolding succs split by auto
      qed
      finally show ?thesis .
    qed
  qed
qed

section \<open>Queue order\<close>

lemma queuedAheadSegments_None:
  assumes "tree_invar tr" "\<forall>e \<in> set (tree_entries tr). entry_range e = lk_Range (w_lock (ie_value e))"
  shows "queuedAheadSegments tr lock segs before = None \<longleftrightarrow>
           (\<forall>seg \<in> set segs. \<forall>e \<in> set (tree_entries tr).
              \<not> (int (w_seq (ie_value e)) < before \<and> conflicts (lock\<lparr>lk_Range := seg\<rparr>) (w_lock (ie_value e))))"
proof (induction segs)
  case Nil
  then show ?case by simp
next
  case (Cons seg segs)
  let ?P = "\<lambda>e. int (w_seq (ie_value e)) < before \<and> conflicts (lock\<lparr>lk_Range := seg\<rparr>) (w_lock (ie_value e))"
  have "find ?P (filter (meets seg) (tree_entries tr)) = None \<longleftrightarrow> (\<forall>e \<in> set (tree_entries tr). \<not> ?P e)"
    using assms(2) by (auto simp: find_None_iff conflicts_def overlaps_sym)
  then show ?case
    using Cons.IH tree_overlap_find [OF assms(1), of seg ?P ie_value] by (auto simp: Let_def split: option.split)
qed

lemma queuedAheadLocked_None:
  assumes "table_ok t"
  shows "queuedAheadLocked (lt_objects t key) lock segs before = None \<longleftrightarrow>
           (\<forall>seg \<in> set segs. \<forall>e \<in> set (queue_at t key).
              \<not> (int (w_seq (ie_value e)) < before \<and> conflicts (lock\<lparr>lk_Range := seg\<rparr>) (w_lock (ie_value e))))"
proof (cases "lt_objects t key")
  case None
  then show ?thesis by (simp add: queuedAheadLocked_def queue_at_def)
next
  case (Some o1)
  have inv: "tree_invar (o_waiting o1)" using assms Some by (auto simp: table_ok_def shape_inv_def)
  have at: "queue_at t key = tree_entries (o_waiting o1)" by (simp add: queue_at_def Some)
  have rng: "\<forall>e \<in> set (tree_entries (o_waiting o1)). entry_range e = lk_Range (w_lock (ie_value e))"
    using assms unfolding table_ok_def queue_inv_def queued_entry_def Let_def at [symmetric] by blast
  have "it_size (o_waiting o1) = 0 \<longleftrightarrow> tree_entries (o_waiting o1) = []" using inv by (simp add: tree_invar_def)
  then show ?thesis
    using queuedAheadSegments_None [OF inv rng, of lock segs before] by (auto simp: queuedAheadLocked_def Some at)
qed

text \<open>A request that passes the queue check needs no byte that an earlier conflicting request also wants.\<close>

lemma no_overtake:
  assumes ok: "table_ok t" and valid: "validLock lock"
    and pass: "queuedAheadLocked (lt_objects t (lk_Object lock)) lock
                 (residualLocked (lt_objects t (lk_Object lock)) lock) before = None"
    and w: "queued t w" "int (w_seq w) < before" "conflicts lock (w_lock w)" "lk_Object (w_lock w) = lk_Object lock"
    and b: "b \<in> bytes (lk_Range lock)" "b \<in> bytes (lk_Range (w_lock w))"
  shows "\<exists>m \<in> cover t (lk_Object lock) (lk_Owner lock) b. satisfies m (lk_Type lock)"
proof (rule ccontr)
  let ?ob = "lt_objects t (lk_Object lock)"
  note v = object_view [OF ok, of "lk_Object lock"]
  assume "\<not> (\<exists>m \<in> cover t (lk_Object lock) (lk_Owner lock) b. satisfies m (lk_Type lock))"
  then have "b \<in> (\<Union>s \<in> set (residualLocked ?ob lock). bytes s)"
    unfolding residualLocked_bytes [OF v(1) valid] using b(1) by (simp add: v(4) cover_def)
  then obtain seg where seg: "seg \<in> set (residualLocked ?ob lock)" "b \<in> bytes seg" by blast
  then have "conflicts (lock\<lparr>lk_Range := seg\<rparr>) (w_lock w)"
    using w(3) b(2) by (auto simp: conflicts_def overlaps_def mem_bytes)
  moreover obtain e where "e \<in> set (queue_at t (lk_Object lock))" "ie_value e = w"
    using queued_key [OF ok w(1)] w(4) by auto
  ultimately show False using pass seg(1) w(2) unfolding queuedAheadLocked_None [OF ok] by blast
qed

text \<open>A request that fails it needs such a byte: the check probes only the bytes the owner lacks.\<close>

lemma held_back:
  assumes ok: "table_ok t" and valid: "validLock lock"
    and fail: "queuedAheadLocked (lt_objects t (lk_Object lock)) lock
                 (residualLocked (lt_objects t (lk_Object lock)) lock) before \<noteq> None"
  shows "\<exists>w b. queued t w \<and> lk_Object (w_lock w) = lk_Object lock \<and> conflicts lock (w_lock w) \<and>
    b \<in> bytes (lk_Range lock) \<inter> bytes (lk_Range (w_lock w)) \<and>
    \<not> (\<exists>m \<in> cover t (lk_Object lock) (lk_Owner lock) b. satisfies m (lk_Type lock))"
proof -
  let ?ob = "lt_objects t (lk_Object lock)"
  note v = object_view [OF ok, of "lk_Object lock"]
  obtain seg e where seg: "seg \<in> set (residualLocked ?ob lock)" "e \<in> set (queue_at t (lk_Object lock))"
    "conflicts (lock\<lparr>lk_Range := seg\<rparr>) (w_lock (ie_value e))"
    using fail unfolding queuedAheadLocked_None [OF ok] by blast
  let ?w = "w_lock (ie_value e)"
  have q: "queued t (ie_value e)" "lk_Object ?w = lk_Object lock"
    using ok seg(2) by (auto simp: queued_def table_ok_def queue_inv_def queued_entry_def Let_def)
  have "overlaps seg (lk_Range ?w)" "valid_range (lk_Range ?w)"
    using seg(3) validLock_range [OF queued_facts(5) [OF ok q(1)]] by (simp_all add: conflicts_def)
  then have "bytes seg \<inter> bytes (lk_Range ?w) \<noteq> {}"
    using overlaps_bytes residualLocked_valid [OF valid seg(1)] by blast
  then obtain b where b: "b \<in> bytes seg" "b \<in> bytes (lk_Range ?w)" by blast
  then have "b \<in> bytes (lk_Range lock)" "\<not> (\<exists>m \<in> cover t (lk_Object lock) (lk_Owner lock) b. satisfies m (lk_Type lock))"
    using residualLocked_bytes [OF v(1) valid] seg(1) by (auto simp: v(4) cover_def)
  moreover from this(1) b(2) have "conflicts lock ?w"
    using seg(3) by (auto simp: conflicts_def overlaps_def mem_bytes)
  ultimately show ?thesis using q b(2) by blast
qed

section \<open>A small table\<close>

text \<open>
  Three sessions. Session 3 holds a write lock on byte 0 of object 7, session 1 is queued for
  bytes 0-10 and session 2 for byte 5, behind it.
\<close>

definition ownerOf :: "SessionID \<Rightarrow> LockOwner" where
  "ownerOf s = \<lparr>ow_Session = s, ow_Kernel = 1, ow_Flock = False\<rparr>"

definition writeLock :: "SessionID \<Rightarrow> u64 \<Rightarrow> u64 \<Rightarrow> Lock" where
  "writeLock s a b =
     \<lparr>lk_Object = 7, lk_Owner = ownerOf s, lk_Type = LockWrite, lk_Range = \<lparr>lr_Start = a, lr_End = b\<rparr>\<rparr>"

definition lockEx0 :: LockTable where
  "lockEx0 = the (NewLockTable 100 50 (\<lambda>_. 0))"

definition lockEx1 :: LockTable where
  "lockEx1 = RegisterSession 3 100 (RegisterSession 2 100 (RegisterSession 1 100 lockEx0))"

definition lockEx2 :: LockTable where
  "lockEx2 = snd (BeginWait (writeLock 3 0 0) lockEx1)"

definition lockEx3 :: LockTable where
  "lockEx3 = snd (BeginWait (writeLock 1 0 10) lockEx2)"

definition lockEx4 :: LockTable where
  "lockEx4 = snd (BeginWait (writeLock 2 5 5) lockEx3)"

definition lockEx5 :: LockTable where
  "lockEx5 = snd (BeginWait (writeLock 3 5 6) lockEx2)"

definition waiterEx :: "nat \<Rightarrow> SessionID \<Rightarrow> u64 \<Rightarrow> u64 \<Rightarrow> lockWaiter" where
  "waiterEx n s a b = \<lparr>w_lock = writeLock s a b, w_seq = n, w_session = s\<rparr>"

lemma lockEx_reach:
  "lock_reach lockEx1 {}"
  "lock_reach lockEx2 {waiterEx 1 3 0 0}"
  "lock_reach lockEx3 {waiterEx 2 1 0 10, waiterEx 1 3 0 0}"
  "lock_reach lockEx4 {waiterEx 3 2 5 5, waiterEx 2 1 0 10, waiterEx 1 3 0 0}"
  "lock_reach lockEx5 {waiterEx 2 3 5 6, waiterEx 1 3 0 0}"
proof -
  have "lock_reach lockEx0 {}"
    by (rule lock_reach.new [of 100 50 "\<lambda>_. 0"]) (simp_all add: lockEx0_def NewLockTable_def)
  then show 1: "lock_reach lockEx1 {}" unfolding lockEx1_def by (intro lock_reach.register)
  have "fst (BeginWait (writeLock 3 0 0) lockEx1) = Inr (waiterEx 1 3 0 0)" by code_simp
  then have "BeginWait (writeLock 3 0 0) lockEx1 = (Inr (waiterEx 1 3 0 0), lockEx2)" by (simp add: lockEx2_def prod_eq_iff)
  from lock_reach.wait [OF 1 this] show 2: "lock_reach lockEx2 {waiterEx 1 3 0 0}" .
  have "fst (BeginWait (writeLock 1 0 10) lockEx2) = Inr (waiterEx 2 1 0 10)" by code_simp
  then have "BeginWait (writeLock 1 0 10) lockEx2 = (Inr (waiterEx 2 1 0 10), lockEx3)" by (simp add: lockEx3_def prod_eq_iff)
  from lock_reach.wait [OF 2 this] show 3: "lock_reach lockEx3 {waiterEx 2 1 0 10, waiterEx 1 3 0 0}" .
  have "fst (BeginWait (writeLock 2 5 5) lockEx3) = Inr (waiterEx 3 2 5 5)" by code_simp
  then have "BeginWait (writeLock 2 5 5) lockEx3 = (Inr (waiterEx 3 2 5 5), lockEx4)" by (simp add: lockEx4_def prod_eq_iff)
  from lock_reach.wait [OF 3 this] show "lock_reach lockEx4 {waiterEx 3 2 5 5, waiterEx 2 1 0 10, waiterEx 1 3 0 0}" .
  have "fst (BeginWait (writeLock 3 5 6) lockEx2) = Inr (waiterEx 2 3 5 6)" by code_simp
  then have "BeginWait (writeLock 3 5 6) lockEx2 = (Inr (waiterEx 2 3 5 6), lockEx5)" by (simp add: lockEx5_def prod_eq_iff)
  from lock_reach.wait [OF 2 this] show "lock_reach lockEx5 {waiterEx 2 3 5 6, waiterEx 1 3 0 0}" .
qed

lemma reach_ok: "lock_reach t P \<Longrightarrow> table_ok t"
  using lock_reach_inv by (simp add: sys_inv_def)

lemma cover_witness:
  assumes "m \<in> cover t key ow b"
  obtains e where "e \<in> set (held_at t key)" "lk_Owner (ie_value e) = ow" "lk_Type (ie_value e) = m"
    "b \<in> bytes (lk_Range (ie_value e))"
  using assms by (auto simp: cover_def modes_def)

lemma held_coexist:
  assumes "table_ok t" "e1 \<in> set (held_at t key)" "e2 \<in> set (held_at t key)" "e1 \<noteq> e2"
  shows "coexist (ie_value e1) (ie_value e2)"
  using assms object_held_okD(3) [OF object_view(1) [OF assms(1)], of e1 key e2] object_view(3) [OF assms(1)] by blast

section \<open>Properties\<close>

text \<open>
  C1. Mutual exclusion: in every reachable table, when an owner holds a byte of an object in
  write mode, no other owner of the same kind (POSIX or flock) holds that byte in any mode.
\<close>

theorem mutual_exclusion:
  assumes "lock_reach t P" "LockWrite \<in> cover t key ow b" "ow \<noteq> ow'" "ow_Flock ow = ow_Flock ow'"
  shows "cover t key ow' b = {}"
proof (rule ccontr)
  assume "cover t key ow' b \<noteq> {}"
  then obtain m where "m \<in> cover t key ow' b" by blast
  then obtain e2 where e2: "e2 \<in> set (held_at t key)" "lk_Owner (ie_value e2) = ow'" "b \<in> bytes (lk_Range (ie_value e2))"
    by (rule cover_witness)
  obtain e1 where e1: "e1 \<in> set (held_at t key)" "lk_Owner (ie_value e1) = ow" "lk_Type (ie_value e1) = LockWrite"
    "b \<in> bytes (lk_Range (ie_value e1))" by (rule cover_witness [OF assms(2)])
  have "coexist (ie_value e1) (ie_value e2)"
    using held_coexist [OF reach_ok [OF assms(1)] e1(1) e2(1)] e1(2) e2(2) assms(3) by auto
  then show False
    using e1 e2 assms(3,4) by (auto simp: coexist_def conflicts_def overlaps_def mem_bytes)
qed

theorem mutual_exclusion_witness:
  "cover lockEx2 7 (ownerOf 1) 0 = {}"
proof -
  have "LockWrite \<in> cover lockEx2 7 (ownerOf 3) 0"
  proof -
    have "writeLock 3 0 0 \<in> ie_value ` set (held_at lockEx2 7)" by code_simp
    moreover have "lk_Type (writeLock 3 0 0) = LockWrite" "lk_Owner (writeLock 3 0 0) = ownerOf 3"
      "0 \<in> bytes (lk_Range (writeLock 3 0 0))" by (simp_all add: writeLock_def mem_bytes)
    ultimately show ?thesis unfolding cover_def modes_def by (intro CollectI exI [of _ "writeLock 3 0 0"]) simp
  qed
  then show ?thesis
    by (rule mutual_exclusion [OF lockEx_reach(2)]) (simp_all add: ownerOf_def)
qed

text \<open>
  C11. Canonical records: in every reachable table the records one owner holds on an object never
  share a byte, and two of the same mode are never adjacent (they would have been merged).
\<close>

theorem canonical_records:
  assumes "lock_reach t P" "e1 \<in> set (held_at t key)" "e2 \<in> set (held_at t key)" "e1 \<noteq> e2"
    "lk_Owner (ie_value e1) = lk_Owner (ie_value e2)"
  shows "bytes (lk_Range (ie_value e1)) \<inter> bytes (lk_Range (ie_value e2)) = {} \<and>
         (lk_Type (ie_value e1) = lk_Type (ie_value e2) \<longrightarrow>
            \<not> adjacent (lk_Range (ie_value e1)) (lk_Range (ie_value e2)))"
proof -
  have ok: "table_ok t" by (rule reach_ok [OF assms(1)])
  have v: "valid_range (lk_Range (ie_value e1))" "valid_range (lk_Range (ie_value e2))"
    using object_held_okD(2) [OF object_view(1) [OF ok]] object_view(3) [OF ok] assms(2,3) by blast+
  have "coexist (ie_value e1) (ie_value e2)" by (rule held_coexist [OF ok assms(2-4)])
  then show ?thesis using adjacent_touch [OF v] assms(5) by (simp add: coexist_def)
qed

theorem canonical_records_witness:
  "bytes (lk_Range (ie_value (held_at lockEx5 7 ! 0))) \<inter> bytes (lk_Range (ie_value (held_at lockEx5 7 ! 1))) = {}"
proof -
  have l: "length (held_at lockEx5 7) = 2" by code_simp
  have ne: "held_at lockEx5 7 ! 0 \<noteq> held_at lockEx5 7 ! 1" by code_simp
  have ow: "lk_Owner (ie_value (held_at lockEx5 7 ! 0)) = lk_Owner (ie_value (held_at lockEx5 7 ! 1))" by code_simp
  have mem: "held_at lockEx5 7 ! 0 \<in> set (held_at lockEx5 7)" "held_at lockEx5 7 ! 1 \<in> set (held_at lockEx5 7)"
    using l by simp_all
  show ?thesis using canonical_records [OF lockEx_reach(5) mem ne ow] by simp
qed

text \<open>
  C7. The counters are exact and bounded: in every reachable table \<open>held\<close> and \<open>waiting\<close> count the
  records and the queued requests of all objects, together they stay within \<open>maxRecords\<close>, and a
  session's \<open>records\<close> counts what it holds and waits for and stays within \<open>maxPerSession\<close>.
\<close>

theorem admission_bounds:
  assumes "lock_reach t P"
  shows "lt_held t = total_len (held_at t) \<and> lt_waiting t = total_len (queue_at t) \<and>
         lt_held t + lt_waiting t \<le> lt_maxRecords t \<and>
         (\<forall>sid s. session_of t sid = Some s \<longrightarrow>
            s_records s = sum_list (map snd (s_objects s)) + int (length (s_waiters s)) \<and>
            s_records s \<le> lt_maxPerSession t \<and> set (s_waiters s) = {w. queued t w \<and> w_session w = sid} \<and>
            (\<forall>key. object_count s key = int (length (filter (of_session sid) (held_at t key)))))"
proof -
  have "total_inv t" "count_inv t" "index_inv t" using reach_ok [OF assms] by (simp_all add: table_ok_def)
  then show ?thesis unfolding total_inv_def count_inv_def session_count_def index_inv_def by blast
qed

theorem admission_bounds_witness:
  "total_len (held_at lockEx4) + total_len (queue_at lockEx4) \<le> 100"
proof -
  have "lt_maxRecords lockEx4 = 100" by code_simp
  then show ?thesis using admission_bounds [OF lockEx_reach(4)] by simp
qed

text \<open>
  C2. \<open>Set\<close> refines POSIX replacement: when it succeeds, the owner's mode is the requested one on
  exactly the requested bytes and every other mode is unchanged, followed only by the grants of
  requests that were queued before; each of those is told so, once.
\<close>

theorem set_refines:
  assumes "lock_reach t P" "Set lock t = (None, u)"
  shows "\<exists>ws. cover u = fold acquireBytes (map w_lock ws) (acquireBytes lock (cover t)) \<and> distinct ws \<and>
           (\<forall>w \<in> set ws. queued t w \<and> \<not> queued u w \<and> lt_settled u (w_seq w) = Some None)"
proof -
  obtain ws where e: "effect (acquireBytes lock) t ws u"
    using Set_step [OF reach_ok [OF assms(1)] assms(2)] by auto
  have "lt_settled u (w_seq w) = Some None" if "w \<in> set ws" for w
    using effectD(4) [OF e effectD(2,12) [OF e that]] that by auto
  then show ?thesis using effectD(1,2,11,12) [OF e] by blast
qed

theorem set_refines_witness:
  "\<exists>ws :: lockWaiter list. cover (snd (Set (writeLock 3 0 0) lockEx1)) =
     fold acquireBytes (map w_lock ws) (acquireBytes (writeLock 3 0 0) (cover lockEx1))"
proof -
  have "fst (Set (writeLock 3 0 0) lockEx1) = None" by code_simp
  then have "Set (writeLock 3 0 0) lockEx1 = (None, snd (Set (writeLock 3 0 0) lockEx1))" by (simp add: prod_eq_iff)
  from set_refines [OF lockEx_reach(1) this] show ?thesis by blast
qed

text \<open>The refusals of \<open>Set\<close>, branch by branch.\<close>

lemma Set_refusal:
  assumes ok: "table_ok t" and res: "Set lock t = (Some e, u)"
  obtains (invalid) "e = ErrInvalidLock" "\<not> validLock lock"
  | (expired) "e = ErrSessionExpired"
      "\<forall>s. session_of t (ow_Session (lk_Owner lock)) = Some s \<longrightarrow> s_expires s \<le> lt_now t (lt_ticks t)"
  | (conflict) "e = ErrLockConflict" "conflictLocked (lt_objects t (lk_Object lock)) lock \<noteq> None"
  | (ahead) "e = ErrLockConflict" "validLock lock" "queuedAheadLocked (lt_objects t (lk_Object lock)) lock
      (residualLocked (lt_objects t (lk_Object lock)) lock) maxSeq \<noteq> None"
  | (full) "e = ErrAdmission"
      "plan_refused (ow_Session (lk_Owner lock)) (planAcquireLocked (lt_objects t (lk_Object lock)) lock) t"
proof -
  let ?ob = "lt_objects t (lk_Object lock)" and ?sid = "ow_Session (lk_Owner lock)"
  obtain so t1 where live: "liveSessionLocked ?sid t = (so, t1)" by fastforce
  note l = liveSession_table [OF ok live]
  have none: "queuedAheadLocked ?ob lock [] maxSeq = None" unfolding queuedAheadLocked_None [OF ok] by simp
  show ?thesis
  proof (cases "validLock lock \<and> so \<noteq> None \<and> conflictLocked ?ob lock = None \<and>
      queuedAheadLocked ?ob lock (residualLocked ?ob lock) maxSeq = None")
    case True
    have same: "plan_refused ?sid plan t1 = plan_refused ?sid plan t" for plan
      using live by (auto simp: liveSessionLocked_def readClock_def Let_def plan_refused_def sessionRecords_def
          split: option.splits if_splits)
    obtain err t2 where ap: "applyPlanLocked wakeEligibleLocked (lk_Object lock) ?sid (planAcquireLocked ?ob lock) t1 = (err, t2)"
      by fastforce
    then have "err = Some e" using res True by (auto simp: Set_def live l(3) Let_def split: if_splits)
    then have "e = ErrAdmission \<and> plan_refused ?sid (planAcquireLocked ?ob lock) t"
      using ap by (cases "plan_refused ?sid (planAcquireLocked ?ob lock) t1") (auto simp: applyPlan_refused applyPlan_admitted same)
    then show ?thesis using full by blast
  next
    case False
    show ?thesis
    proof (cases "validLock lock \<and> so = None")
      case True
      then have "\<forall>s. session_of t ?sid = Some s \<longrightarrow> s_expires s \<le> lt_now t (lt_ticks t)"
        using live by (auto simp: liveSessionLocked_def readClock_def Let_def lease_live_def split: option.splits if_splits)
      moreover have "e = ErrSessionExpired" using res True by (auto simp: Set_def live)
      ultimately show ?thesis using expired by blast
    next
      case notexpired: False
      show ?thesis
        using res False notexpired invalid conflict ahead none by (auto simp: Set_def live l(3) Let_def split: if_splits)
    qed
  qed
qed

text \<open>
  C13. A refused \<open>Set\<close> changes nothing, and it is refused for a reason that is there: no record, no queue
  entry, no decision and no session differ afterwards. An invalid lock is not valid; an expired
  session is unknown or past its lease at the clock reading of the call; an admission refusal means the
  plan would exceed a record bound; and a lock conflict means that a conflicting record is held on that
  object, or that a conflicting request queued on that object wants a byte of the lock on which the
  owner has no sufficient mode yet. No other error is returned.
\<close>

theorem set_refused:
  assumes "lock_reach t P" "Set lock t = (Some e, u)"
  shows "unchanged t u \<and>
    (case e of
       ErrInvalidLock \<Rightarrow> \<not> validLock lock
     | ErrSessionExpired \<Rightarrow>
         (\<forall>s. session_of t (ow_Session (lk_Owner lock)) = Some s \<longrightarrow> s_expires s \<le> lt_now t (lt_ticks t))
     | ErrLockConflict \<Rightarrow>
         (\<exists>r \<in> set (held_at t (lk_Object lock)). conflicts lock (ie_value r)) \<or>
         (\<exists>w b. queued t w \<and> lk_Object (w_lock w) = lk_Object lock \<and> conflicts lock (w_lock w) \<and>
            b \<in> bytes (lk_Range lock) \<inter> bytes (lk_Range (w_lock w)) \<and>
            \<not> (\<exists>m \<in> cover t (lk_Object lock) (lk_Owner lock) b. satisfies m (lk_Type lock)))
     | ErrAdmission \<Rightarrow>
         plan_refused (ow_Session (lk_Owner lock)) (planAcquireLocked (lt_objects t (lk_Object lock)) lock) t
     | _ \<Rightarrow> False)"
proof -
  have ok: "table_ok t" by (rule reach_ok [OF assms(1)])
  have same: "unchanged t u" using Set_step [OF ok assms(2)] by simp
  note v = object_view [OF ok, of "lk_Object lock"]
  have held: "\<exists>r \<in> set (held_at t (lk_Object lock)). conflicts lock (ie_value r)"
    if "conflictLocked (lt_objects t (lk_Object lock)) lock \<noteq> None"
    using that conflictLocked_None_iff [OF v(1), of lock] v(4) by auto
  show ?thesis
    by (rule Set_refusal [OF ok assms(2)]) (use same held held_back [OF ok] in simp_all)
qed

theorem set_refused_witness:
  "fst (Set (writeLock 2 6 6) lockEx4) = Some ErrLockConflict \<and> unchanged lockEx4 (snd (Set (writeLock 2 6 6) lockEx4)) \<and>
   (\<exists>w b. queued lockEx4 w \<and> lk_Object (w_lock w) = 7 \<and> b \<in> bytes (lk_Range (w_lock w)) \<and> b \<in> bytes (lk_Range (writeLock 2 6 6)))"
proof -
  have s: "fst (Set (writeLock 2 6 6) lockEx4) = Some ErrLockConflict" by code_simp
  then have eq: "Set (writeLock 2 6 6) lockEx4 = (Some ErrLockConflict, snd (Set (writeLock 2 6 6) lockEx4))"
    by (simp add: prod_eq_iff)
  have "\<forall>r \<in> set (held_at lockEx4 7). \<not> conflicts (writeLock 2 6 6) (ie_value r)" by code_simp
  moreover have "lk_Object (writeLock 2 6 6) = 7" by (simp add: writeLock_def)
  ultimately show ?thesis using set_refused [OF lockEx_reach(4) eq] s by auto
qed

text \<open>
  C5. \<open>Set\<close> never overtakes the queue: when it succeeds, then on every byte it shares with a queued
  conflicting request of the same object its owner already held a sufficient mode before the call.
\<close>

theorem set_no_overtake:
  assumes "lock_reach t P" "Set lock t = (None, u)" "int (lt_nextSeq t) < maxSeq" "queued t w"
    "lk_Object (w_lock w) = lk_Object lock" "conflicts lock (w_lock w)"
    "b \<in> bytes (lk_Range lock)" "b \<in> bytes (lk_Range (w_lock w))"
  shows "\<exists>m \<in> cover t (lk_Object lock) (lk_Owner lock) b. satisfies m (lk_Type lock)"
proof -
  have ok: "table_ok t" by (rule reach_ok [OF assms(1)])
  obtain so t1 where live: "liveSessionLocked (ow_Session (lk_Owner lock)) t = (so, t1)" by fastforce
  let ?ob = "lt_objects t (lk_Object lock)"
  have pass: "validLock lock \<and> (residualLocked ?ob lock = [] \<or> queuedAheadLocked ?ob lock (residualLocked ?ob lock) maxSeq = None)"
    using assms(2) liveSession_table(3) [OF ok live]
    by (cases so) (auto simp: Set_def live Let_def split: if_splits)
  have "queuedAheadLocked ?ob lock [] maxSeq = None" unfolding queuedAheadLocked_None [OF ok] by simp
  then have "queuedAheadLocked ?ob lock (residualLocked ?ob lock) maxSeq = None" using pass by auto
  moreover have "int (w_seq w) < maxSeq" using queued_facts(2) [OF ok assms(4)] assms(3) by simp
  ultimately show ?thesis using no_overtake [OF ok _ _ assms(4) _ assms(6,5,7,8)] pass by blast
qed

theorem set_no_overtake_witness:
  "fst (Set (writeLock 3 0 0) lockEx4) = None \<and>
   (\<exists>m \<in> cover lockEx4 7 (ownerOf 3) 0. satisfies m LockWrite)"
proof -
  have s: "fst (Set (writeLock 3 0 0) lockEx4) = None" by code_simp
  then have eq: "Set (writeLock 3 0 0) lockEx4 = (None, snd (Set (writeLock 3 0 0) lockEx4))" by (simp add: prod_eq_iff)
  have "waiterEx 2 1 0 10 \<in> ie_value ` set (queue_at lockEx4 7)" by code_simp
  then have q: "queued lockEx4 (waiterEx 2 1 0 10)" by (auto simp: queued_def)
  have n: "int (lt_nextSeq lockEx4) < maxSeq" by code_simp
  have "\<exists>m \<in> cover lockEx4 (lk_Object (writeLock 3 0 0)) (lk_Owner (writeLock 3 0 0)) 0.
      satisfies m (lk_Type (writeLock 3 0 0))"
    by (rule set_no_overtake [OF lockEx_reach(4) eq n q])
       (simp_all add: waiterEx_def writeLock_def conflicts_def ownerOf_def overlaps_def mem_bytes)
  then show ?thesis using s by (simp add: writeLock_def)
qed

text \<open>
  C3. \<open>Unlock\<close> refines release: when it succeeds, exactly the released bytes of exactly that owner
  lose their mode, followed only by grants of requests that were queued before.
\<close>

theorem unlock_refines:
  assumes "lock_reach t P" "Unlock object owner r t = (None, u)"
  shows "\<exists>ws. cover u = fold acquireBytes (map w_lock ws) (releaseBytes object owner r (cover t)) \<and> distinct ws \<and>
           (\<forall>w \<in> set ws. queued t w \<and> \<not> queued u w \<and> lt_settled u (w_seq w) = Some None)"
proof -
  obtain ws where e: "effect (releaseBytes object owner r) t ws u"
    using Unlock_step [OF reach_ok [OF assms(1)] assms(2)] by auto
  have "lt_settled u (w_seq w) = Some None" if "w \<in> set ws" for w
    using effectD(4) [OF e effectD(2,12) [OF e that]] that by auto
  then show ?thesis using effectD(1,2,11,12) [OF e] by blast
qed

theorem unlock_refines_witness:
  "\<exists>ws :: lockWaiter list. cover (snd (Unlock 7 (ownerOf 3) (ToEOF 0) lockEx4)) =
     fold acquireBytes (map w_lock ws) (releaseBytes 7 (ownerOf 3) (ToEOF 0) (cover lockEx4))"
proof -
  have "fst (Unlock 7 (ownerOf 3) (ToEOF 0) lockEx4) = None" by code_simp
  then have "Unlock 7 (ownerOf 3) (ToEOF 0) lockEx4 = (None, snd (Unlock 7 (ownerOf 3) (ToEOF 0) lockEx4))"
    by (simp add: prod_eq_iff)
  from unlock_refines [OF lockEx_reach(4) this] show ?thesis by blast
qed

text \<open>
  C4. Releasing a session leaves nothing of it: no registration, no byte held by any of its owners
  and no queued request; each of its queued requests is settled with \<open>ErrSessionExpired\<close>, and
  nobody else loses a byte: the byte map is the old one without the session, followed by grants of
  requests of other sessions.
\<close>

theorem release_session_clean:
  assumes "lock_reach t P" "session_of t sid = Some s"
  shows "\<not> registered (ReleaseSession sid t) sid \<and>
         (\<forall>w. queued (ReleaseSession sid t) w \<longrightarrow> queued t w \<and> w_session w \<noteq> sid) \<and>
         (\<forall>w. queued t w \<and> w_session w = sid \<longrightarrow>
            lt_settled (ReleaseSession sid t) (w_seq w) = Some (Some ErrSessionExpired)) \<and>
         (\<exists>ws. cover (ReleaseSession sid t) =
                 fold acquireBytes (map w_lock ws) (dropSessionBytes sid (cover t)) \<and>
               (\<forall>w \<in> set ws. queued t w \<and> ow_Session (lk_Owner (w_lock w)) \<noteq> sid \<and>
                  lt_settled (ReleaseSession sid t) (w_seq w) = Some None))"
proof -
  have ok: "table_ok t" by (rule reach_ok [OF assms(1)])
  obtain v ws where v: "table_ok v" "cascade v ws (ReleaseSession sid t)"
    "registered v = (registered t)(sid := False)" "cover v = dropSessionBytes sid (cover t)"
    "\<forall>w. queued v w \<longleftrightarrow> queued t w \<and> w_session w \<noteq> sid"
    "\<forall>w. queued t w \<longrightarrow> w_session w = sid \<longrightarrow> lt_settled v (w_seq w) = Some (Some ErrSessionExpired)"
    "\<forall>q r. lt_settled t q = Some r \<longrightarrow> lt_settled v q = Some r"
    "\<forall>q r. lt_settled v q = Some r \<longrightarrow> lt_settled t q = Some r \<or> (\<exists>w. queued t w \<and> w_seq w = q)"
    "lt_nextSeq v = lt_nextSeq t" "lt_maxRecords v = lt_maxRecords t" "lt_maxPerSession v = lt_maxPerSession t"
    by (rule Release_step [OF ok assms(2)])
  note c = cascadeD [OF v(2)]
  have "queued t w \<and> ow_Session (lk_Owner (w_lock w)) \<noteq> sid \<and> lt_settled (ReleaseSession sid t) (w_seq w) = Some None"
    if w: "w \<in> set ws" for w
  proof -
    have q: "queued t w" "w_session w \<noteq> sid" using c(4) [OF w] v(5) by auto
    then show ?thesis using queued_facts(6) [OF ok q(1)] c(7) [OF c(4,5) [OF w]] w by auto
  qed
  moreover have "\<not> registered (ReleaseSession sid t) sid" using c(10) v(3) by simp
  moreover have "lt_settled (ReleaseSession sid t) (w_seq w) = Some (Some ErrSessionExpired)"
    if "queued t w" "w_session w = sid" for w
    using c(8) v(6) that by blast
  moreover have "queued t w \<and> w_session w \<noteq> sid" if "queued (ReleaseSession sid t) w" for w
    using c(6) [OF that] v(5) by blast
  ultimately show ?thesis using c(2) v(4) by auto
qed

theorem release_session_clean_witness:
  "\<not> registered (ReleaseSession 3 lockEx4) 3 \<and> lt_settled (ReleaseSession 3 lockEx4) 2 = Some None"
proof -
  have "session_of lockEx4 3 \<noteq> None" by code_simp
  then obtain s where "session_of lockEx4 3 = Some s" by blast
  moreover have "lt_settled (ReleaseSession 3 lockEx4) 2 = Some None" by code_simp
  ultimately show ?thesis using release_session_clean [OF lockEx_reach(4), of 3 s] by blast
qed

text \<open>
  C9. A blocking request that \<open>BeginWait\<close> admits ends in one of three ways: it is granted at
  once, and then its bytes are acquired and the grant is recorded; its record is refused for
  admission, and then nothing is acquired and the refusal is recorded; or it is queued undecided,
  nothing is acquired, and the wait-for graph has no cycle through it.
\<close>

theorem wait_outcome:
  assumes "lock_reach t P" "BeginWait lock t = (Inr w, u)"
  shows "w_lock w = lock \<and>
         ((lt_settled u (w_seq w) = Some None \<and>
           (\<exists>ws. cover u = fold acquireBytes (map w_lock ws) (acquireBytes lock (cover t)) \<and>
                 (\<forall>v \<in> set ws. queued t v \<and> lt_settled u (w_seq v) = Some None))) \<or>
          (lt_settled u (w_seq w) = Some (Some ErrAdmission) \<and> cover u = cover t \<and> queued u = queued t) \<or>
          (queued u w \<and> lt_settled u (w_seq w) = None \<and> cover u = cover t \<and> \<not> deadlockLocked w u))"
proof -
  have i: "sys_inv t P" by (rule lock_reach_inv [OF assms(1)])
  then have ok: "table_ok t" and sb: "settled_bound t" by (simp_all add: sys_inv_def)
  have fresh: "lt_settled t (w_seq (newWaiter lock t)) = None" by (rule newWaiter_fresh [OF ok sb])
  have lk: "w_lock (newWaiter lock t) = lock" by (simp add: newWaiter_def)
  show ?thesis
    using ok sb assms(2)
  proof (cases rule: BeginWait_step)
    case queued
    have "lt_settled u (w_seq w) = None" using queued_facts(1) [OF queued(3)] queued(1,5) by simp
    then show ?thesis using queued(1,4,5,6) lk by auto
  next
    case (granted ws v)
    note e = effectD [OF granted(2)]
    have "lt_settled v (w_seq x) = Some None" if "x \<in> set ws" for x
      using e(4) [OF e(2,12) [OF that]] that by auto
    moreover have w: "w = newWaiter lock t" using granted(1) by simp
    ultimately have "lt_settled u (w_seq x) = Some None" if "x \<in> set ws" for x
      using that granted(3,5) by (auto simp: settle_settled settledWaiter_def)
    moreover have "cover u = cover v" by (simp add: granted(3) cover_def fun_eq_iff)
    moreover have "lt_settled u (w_seq w) = Some None"
      using granted(3,5) w by (simp add: settle_settled settledWaiter_def)
    ultimately show ?thesis using e(1,2) numbered_same(2) lk w by (auto intro!: exI [of _ ws])
  next
    case (full v)
    have "lt_settled v = lt_settled t" "held_at v = held_at t" "queue_at v = queue_at t"
      using full(2) by (simp_all add: unchanged_def)
    then show ?thesis
      using full(1,4) fresh lk by (auto simp: settle_settled settledWaiter_def cover_def queued_def fun_eq_iff)
  qed (use assms(2) in auto)
qed

theorem wait_outcome_witness:
  "queued lockEx3 (waiterEx 2 1 0 10) \<and> cover lockEx3 = cover lockEx2"
proof -
  have "fst (BeginWait (writeLock 1 0 10) lockEx2) = Inr (waiterEx 2 1 0 10)" by code_simp
  then have eq: "BeginWait (writeLock 1 0 10) lockEx2 = (Inr (waiterEx 2 1 0 10), lockEx3)"
    by (simp add: lockEx3_def prod_eq_iff)
  have "lt_settled lockEx3 2 = None" by code_simp
  then have "lt_settled lockEx3 (w_seq (waiterEx 2 1 0 10)) = None" by (simp add: waiterEx_def)
  then show ?thesis using wait_outcome [OF lockEx_reach(2) eq] by simp
qed

text \<open>
  C8. A grant that was made before the caller gave up wins: \<open>Await\<close> reports the decision that was
  recorded, whatever the context says, and leaves the table alone; only an undecided request is
  cancelled, and then it is out of the queue, the context's error is its decision, and every other
  change is a grant to a request that was queued before.
\<close>

theorem await_decides:
  assumes "lock_reach t P" "w \<in> P" "Await w (Some ctx) t = (r, u)"
  shows "(case lt_settled t (w_seq w) of
            Some d \<Rightarrow> r = Some d \<and> u = t
          | None \<Rightarrow> r = Some (Some (ErrCaller ctx)) \<and> \<not> queued u w \<and>
                    (\<exists>ws. cover u = fold acquireBytes (map w_lock ws) (cover t) \<and>
                          (\<forall>v \<in> set ws. queued t v \<and> v \<noteq> w)))"
proof -
  have i: "sys_inv t P" by (rule lock_reach_inv [OF assms(1)])
  then have ok: "table_ok t" and w: "queued t w \<or> settledWaiter t w" using assms(2) by (auto simp: sys_inv_def)
  note a = Await_step [OF ok w assms(3)]
  show ?thesis
  proof (cases "lt_settled t (w_seq w)")
    case None
    obtain ws where c: "cascade t ws u" using a(1) by blast
    have r: "r = Some (Some (ErrCaller ctx))" "\<not> queued u w" using a(4) [OF refl None] by simp_all
    have q: "queued t w" using w None by (simp add: settledWaiter_def)
    have "lt_settled u (w_seq w) = r" using assms(3) by (auto simp: Await_def Let_def)
    then have "w \<notin> set ws" using cascadeD(7) [OF c q r(2)] r(1) by auto
    then show ?thesis using None r cascadeD(2,4) [OF c] by (auto intro!: exI [of _ ws])
  next
    case (Some d)
    then show ?thesis using a(3) by simp
  qed
qed

theorem await_decides_witness:
  "fst (Await (waiterEx 1 3 0 0) (Some ''canceled'') lockEx4) = Some None \<and>
   snd (Await (waiterEx 1 3 0 0) (Some ''canceled'') lockEx4) = lockEx4"
proof -
  have s: "lt_settled lockEx4 (w_seq (waiterEx 1 3 0 0)) = Some None" by code_simp
  have "Await (waiterEx 1 3 0 0) (Some ''canceled'') lockEx4 =
      (fst (Await (waiterEx 1 3 0 0) (Some ''canceled'') lockEx4), snd (Await (waiterEx 1 3 0 0) (Some ''canceled'') lockEx4))"
    by simp
  from await_decides [OF lockEx_reach(4) _ this] s show ?thesis by simp
qed

text \<open>
  C12. \<open>InterruptWaiters\<close> empties every queue and touches no record: afterwards nothing is queued, every
  request that was is settled with the given error, and the records are the same.
\<close>

theorem interrupt_retires_all:
  assumes "lock_reach t P"
  shows "held_at (InterruptWaiters err t) = held_at t \<and>
         (\<forall>w. \<not> queued (InterruptWaiters err t) w) \<and>
         (\<forall>w. queued t w \<longrightarrow> lt_settled (InterruptWaiters err t) (w_seq w) =
            Some (Some (case err of None \<Rightarrow> ErrSessionExpired | Some e \<Rightarrow> e)))"
  using Interrupt_step(2-4) [OF reach_ok [OF assms]] by blast

theorem interrupt_retires_all_witness:
  "held_at (InterruptWaiters None lockEx4) = held_at lockEx4 \<and> \<not> queued (InterruptWaiters None lockEx4) (waiterEx 2 1 0 10)"
  using interrupt_retires_all [OF lockEx_reach(4), of None] by blast

text \<open>
  C6. The deadlock search is exact: it answers yes exactly when the requesting owner can be reached
  from the owners that block the request along the wait-for edges of the other queued requests.
\<close>

theorem deadlock_search_exact:
  "deadlockLocked w t \<longleftrightarrow> lk_Owner (w_lock w) \<in> (waits_for t w)\<^sup>* `` set (blockersLocked w t)"
  unfolding deadlockLocked_def by (rule deadlockLoop_spec) simp_all

text \<open>
  C10. The wake cascade ends: on every reachable table the drain loop that \<open>wakeEligibleLocked\<close> starts
  is finished within one pass per pending request plus one per queued waiter of the object, so
  no additional number of passes changes its result.
\<close>

theorem wake_cascade_terminates:
  assumes "lock_reach t P" "t2 = (queueWake object span t)\<lparr>lt_waking := True\<rparr>"
  shows "wakeDrain (Suc (length (lt_pendingWake t2) + queue_length t2 object) + k) 0 t2 =
         wakeDrain (Suc (length (lt_pendingWake t2) + queue_length t2 object)) 0 t2"
  using lock_reach_inv [OF assms(1)] wakeDrain_done [of t object span k] assms(2) by (simp add: sys_inv_def idle_def)

theorem wake_cascade_terminates_witness:
  "wakeDrain (Suc (1 + queue_length ((queueWake 7 (ToEOF 0) lockEx4)\<lparr>lt_waking := True\<rparr>) 7) + 5) 0
     ((queueWake 7 (ToEOF 0) lockEx4)\<lparr>lt_waking := True\<rparr>) =
   wakeDrain (Suc (1 + queue_length ((queueWake 7 (ToEOF 0) lockEx4)\<lparr>lt_waking := True\<rparr>) 7)) 0
     ((queueWake 7 (ToEOF 0) lockEx4)\<lparr>lt_waking := True\<rparr>)"
proof -
  have "lt_pendingWake lockEx4 = []" using lock_reach_inv [OF lockEx_reach(4)] by (simp add: sys_inv_def idle_def)
  then show ?thesis using wake_cascade_terminates [OF lockEx_reach(4) refl, of 7 "ToEOF 0" 5] by simp
qed

end
