(* ===== verification/Extents.thy ===== *)
theory Extents
  imports Prelude "HOL-Library.Monad_Syntax"
begin

text \<open>
  The extent map of the write-back buffer, \<^verbatim>\<open>src/vcs/internal/writeback/extents.go\<close>: an AVL tree of
  disjoint half-open byte intervals, each holding the bytes a retained record wrote there
  or, after a truncation, a zero mask. The nodes come from an arena of fixed size and
  every record keeps the list of the nodes it still owns.

  A tree is a value, since no node is shared between two maps. The arena is the length of
  its free list together with the owner lists; a node is named in its owner's list by its
  lower bound, which is unique in a tree of disjoint intervals. A record is named by its
  accepted sequence number. Taking a node from an empty arena and removing an interval that
  is not there are panics of the code; both are the result \<open>None\<close>.

  The theory proves that every operation keeps the intervals disjoint and ordered, the tree
  balanced and the stored aggregate exact, that \<open>extent_set\<close> is function update on the
  bytes of the range, that \<open>retire\<close> removes exactly the bytes of one record, and that
  neither panics while the boundaries of the intervals fit the arena.
\<close>

section \<open>Nodes and the arena\<close>

type_synonym byte = "8 word"

abbreviation MaxInt64 :: int where
  "MaxInt64 \<equiv> 9223372036854775807"

text \<open>The payload of a node; a nil slice (\<open>None\<close>) is the zero mask left by a truncation.\<close>

record piece =
  x_lo :: int
  x_hi :: int
  x_data :: "byte list option"
  x_owner :: "nat option"

datatype extent =
    ENil
  | ENode (eleft: extent) (epiece: piece) (eheight: int) (eend: int) (eright: extent)

record extentPool =
  pool_free :: nat
  owned :: "nat \<Rightarrow> int list"

definition newExtentPool :: "nat \<Rightarrow> extentPool" where
  "newExtentPool n = \<lparr>pool_free = n, owned = (\<lambda>_. [])\<rparr>"

definition pool_get ::
  "extentPool \<Rightarrow> int \<Rightarrow> int \<Rightarrow> byte list option \<Rightarrow> nat option \<Rightarrow> (extent \<times> extentPool) option" where
  "pool_get p lo hi data own =
     (if pool_free p = 0 then None
      else Some
        (ENode ENil \<lparr>x_lo = lo, x_hi = hi, x_data = data, x_owner = own\<rparr> 1
           (if data \<noteq> None then hi else 0) ENil,
         p\<lparr>pool_free := pool_free p - 1,
           owned := (case own of None \<Rightarrow> owned p
                     | Some r \<Rightarrow> (owned p)(r := lo # owned p r))\<rparr>))"

definition pool_put :: "extentPool \<Rightarrow> piece \<Rightarrow> extentPool" where
  "pool_put p n =
     p\<lparr>pool_free := pool_free p + 1,
       owned := (case x_owner n of None \<Rightarrow> owned p
                 | Some r \<Rightarrow> (owned p)(r := remove1 (x_lo n) (owned p r)))\<rparr>"

section \<open>The balanced tree\<close>

fun height :: "extent \<Rightarrow> int" where
  "height ENil = 0"
| "height (ENode l n h e r) = h"

fun extentEnd :: "extent \<Rightarrow> int" where
  "extentEnd ENil = 0"
| "extentEnd (ENode l n h e r) = e"

fun fixNode :: "extent \<Rightarrow> extent" where
  "fixNode ENil = ENil"
| "fixNode (ENode l n h e r) =
     ENode l n (1 + max (height l) (height r))
       (let m = max (extentEnd l) (extentEnd r) in if x_data n \<noteq> None then max m (x_hi n) else m) r"

text \<open>The rotations are only applied where the child they pull up exists.\<close>

fun rotateLeft :: "extent \<Rightarrow> extent" where
  "rotateLeft (ENode l n h e (ENode rl m h' e' rr)) =
     fixNode (ENode (fixNode (ENode l n h e rl)) m h' e' rr)"
| "rotateLeft t = t"

fun rotateRight :: "extent \<Rightarrow> extent" where
  "rotateRight (ENode (ENode ll m h' e' lr) n h e r) =
     fixNode (ENode ll m h' e' (fixNode (ENode lr n h e r)))"
| "rotateRight t = t"

fun balance :: "extent \<Rightarrow> extent" where
  "balance ENil = ENil"
| "balance (ENode l n h0 e0 r) =
     (case fixNode (ENode l n h0 e0 r) of
        ENil \<Rightarrow> ENil
      | ENode l n h e r \<Rightarrow>
          (if height l - height r > 1 then
             rotateRight (ENode (if height (eleft l) < height (eright l) then rotateLeft l else l) n h e r)
           else if height r - height l > 1 then
             rotateLeft (ENode l n h e (if height (eright r) < height (eleft r) then rotateRight r else r))
           else ENode l n h e r))"

fun extent_insert :: "extent \<Rightarrow> extent \<Rightarrow> extent" where
  "extent_insert ENil n = n"
| "extent_insert (ENode l m h e r) n =
     balance
       (if x_lo (epiece n) < x_lo m then ENode (extent_insert l n) m h e r
        else ENode l m h e (extent_insert r n))"

fun leftmost :: "extent \<Rightarrow> extent" where
  "leftmost ENil = ENil"
| "leftmost (ENode l m h e r) = (if l = ENil then ENode l m h e r else leftmost l)"

function extent_remove :: "extent \<Rightarrow> int \<Rightarrow> (extent \<times> piece) option" where
  "extent_remove ENil lo = None"
| "extent_remove (ENode l m h e r) lo =
     (if lo < x_lo m then
        do { (l', old) \<leftarrow> extent_remove l lo; Some (balance (ENode l' m h e r), old) }
      else if lo > x_lo m then
        do { (r', old) \<leftarrow> extent_remove r lo; Some (balance (ENode l m h e r'), old) }
      else if l = ENil then Some (r, m)
      else if r = ENil then Some (l, m)
      else (let next = leftmost r in
        do { (right, _) \<leftarrow> extent_remove r (x_lo (epiece next));
             Some (balance (ENode l (epiece next) (eheight next) (eend next) right), m) }))"
  by pat_completeness auto
termination by (relation "measure (\<lambda>(t, _). size t)") auto

fun overlap :: "extent \<Rightarrow> int \<Rightarrow> int \<Rightarrow> extent" where
  "overlap ENil lo hi = ENil"
| "overlap (ENode l n h e r) lo hi =
     (if x_hi n \<le> lo then overlap r lo hi
      else if x_lo n \<ge> hi then overlap l lo hi
      else ENode l n h e r)"

definition sub :: "byte list option \<Rightarrow> int \<Rightarrow> int \<Rightarrow> byte list option" where
  "sub data lo hi = map_option (\<lambda>d. take (nat (hi - lo)) (drop (nat lo) d)) data"

section \<open>Operations on the map\<close>

definition insert_piece ::
  "extent \<Rightarrow> extentPool \<Rightarrow> int \<Rightarrow> int \<Rightarrow> byte list option \<Rightarrow> nat option \<Rightarrow> (extent \<times> extentPool) option" where
  "insert_piece root p lo hi data own =
     do { (n, p') \<leftarrow> pool_get p lo hi data own; Some (extent_insert root n, p') }"

text \<open>
  The loop of \<open>extentMap.set\<close> that clears the range. Every round removes one interval
  that meets the range, so as many rounds as there are intervals are enough; running out of
  rounds is \<open>None\<close>, which the theorems on \<open>extent_set\<close> exclude.
\<close>

fun set_loop :: "nat \<Rightarrow> int \<Rightarrow> int \<Rightarrow> extent \<times> extentPool \<Rightarrow> (extent \<times> extentPool) option" where
  "set_loop 0 lo hi s = None"
| "set_loop (Suc k) lo hi (root, p) =
     (case overlap root lo hi of
        ENil \<Rightarrow> Some (root, p)
      | ENode _ old _ _ _ \<Rightarrow>
          do { (root, _) \<leftarrow> extent_remove root (x_lo old);
               let p = pool_put p old;
               (root, p) \<leftarrow>
                 (if x_lo old < lo then
                    insert_piece root p (x_lo old) lo (sub (x_data old) 0 (lo - x_lo old)) (x_owner old)
                  else Some (root, p));
               (root, p) \<leftarrow>
                 (if x_hi old > hi then
                    insert_piece root p hi (x_hi old)
                      (sub (x_data old) (hi - x_lo old) (x_hi old - x_lo old)) (x_owner old)
                  else Some (root, p));
               set_loop k lo hi (root, p) })"

definition extent_set ::
  "extent \<Rightarrow> extentPool \<Rightarrow> int \<Rightarrow> int \<Rightarrow> byte list option \<Rightarrow> nat option \<Rightarrow> (extent \<times> extentPool) option" where
  "extent_set root p lo hi data own =
     do { (root, p) \<leftarrow> set_loop (Suc (size root)) lo hi (root, p);
          insert_piece root p lo hi data own }"

fun extent_walk :: "extent \<Rightarrow> extentPool \<Rightarrow> extentPool" where
  "extent_walk ENil p = p"
| "extent_walk (ENode l n h e r) p = pool_put (extent_walk r (extent_walk l p)) n"

definition extent_clear :: "extent \<Rightarrow> extentPool \<Rightarrow> extent \<times> extentPool" where
  "extent_clear root p = (ENil, extent_walk root p)"

record span =
  s_lo :: int
  s_hi :: int
  s_data :: "byte list option"

fun spans :: "extent \<Rightarrow> int \<Rightarrow> int \<Rightarrow> span list" where
  "spans ENil lo hi = []"
| "spans (ENode l n h e r) lo hi =
     (if x_lo n > lo then spans l lo hi else []) @
     (if x_lo n < hi \<and> x_hi n > lo then
        (let a = max lo (x_lo n); z = min hi (x_hi n) in
         [\<lparr>s_lo = a, s_hi = z, s_data = sub (x_data n) (a - x_lo n) (z - x_lo n)\<rparr>])
      else []) @
     (if x_hi n < hi then spans r lo hi else [])"

text \<open>
  The loop of \<open>extentMap.retire\<close> empties the owner list of the record from its head, one
  node per round.
\<close>

fun retire_loop :: "nat \<Rightarrow> nat \<Rightarrow> extent \<times> extentPool \<Rightarrow> (extent \<times> extentPool) option" where
  "retire_loop k rec (root, p) =
     (case owned p rec of
        [] \<Rightarrow> Some (root, p)
      | lo # _ \<Rightarrow>
          (case k of
             0 \<Rightarrow> None
           | Suc k \<Rightarrow>
               do { (root, n) \<leftarrow> extent_remove root lo;
                    retire_loop k rec (root, pool_put p n) }))"

definition retire :: "extent \<Rightarrow> extentPool \<Rightarrow> nat \<Rightarrow> (extent \<times> extentPool) option" where
  "retire root p rec = retire_loop (length (owned p rec)) rec (root, p)"

section \<open>Balance and the stored aggregate\<close>

fun avl :: "extent \<Rightarrow> bool" where
  "avl ENil = True"
| "avl (ENode l n h e r) =
     (\<bar>height l - height r\<bar> \<le> 1 \<and> h = 1 + max (height l) (height r) \<and> avl l \<and> avl r)"

definition piece_end :: "piece \<Rightarrow> int" where
  "piece_end n = (if x_data n \<noteq> None then x_hi n else 0)"

fun end_exact :: "extent \<Rightarrow> bool" where
  "end_exact ENil = True"
| "end_exact (ENode l n h e r) =
     (e = (let m = max (extentEnd l) (extentEnd r) in if x_data n \<noteq> None then max m (x_hi n) else m) \<and>
      end_exact l \<and> end_exact r)"

fun pieces :: "extent \<Rightarrow> piece list" where
  "pieces ENil = []"
| "pieces (ENode l n h e r) = pieces l @ n # pieces r"

lemma height_nonneg: "avl t \<Longrightarrow> 0 \<le> height t"
  by (induction t) auto

lemma pieces_eq_Nil [simp]: "pieces t = [] \<longleftrightarrow> t = ENil"
  by (cases t) auto

lemma length_pieces: "length (pieces t) = size t"
  by (induction t) auto

lemma pieces_fixNode [simp]: "pieces (fixNode t) = pieces t"
  by (cases t) auto

lemma pieces_rotateLeft [simp]: "pieces (rotateLeft t) = pieces t"
  by (cases t rule: rotateLeft.cases) auto

lemma pieces_rotateRight [simp]: "pieces (rotateRight t) = pieces t"
  by (cases t rule: rotateRight.cases) auto

lemma pieces_balance [simp]: "pieces (balance t) = pieces t"
  by (cases t) (auto simp: Let_def)

lemma end_exact_fixNode:
  "end_exact (eleft t) \<Longrightarrow> end_exact (eright t) \<Longrightarrow> t \<noteq> ENil \<Longrightarrow> end_exact (fixNode t)"
  by (cases t) auto

lemma end_exact_rotateLeft: "end_exact t \<Longrightarrow> end_exact (rotateLeft t)"
  by (cases t rule: rotateLeft.cases) (auto simp: Let_def)

lemma end_exact_rotateRight: "end_exact t \<Longrightarrow> end_exact (rotateRight t)"
  by (cases t rule: rotateRight.cases) (auto simp: Let_def)

lemma rotateRight_end:
  "end_exact ll \<Longrightarrow> end_exact lr \<Longrightarrow> end_exact r \<Longrightarrow>
   end_exact (rotateRight (ENode (ENode ll m h' e' lr) n h e r))"
  by (simp add: Let_def)

lemma rotateLeft_end:
  "end_exact l \<Longrightarrow> end_exact rl \<Longrightarrow> end_exact rr \<Longrightarrow>
   end_exact (rotateLeft (ENode l n h e (ENode rl m h' e' rr)))"
  by (simp add: Let_def)

lemma end_exact_balance:
  assumes "end_exact l" "end_exact r"
  shows "end_exact (balance (ENode l n h e r))"
proof -
  have right: "end_exact (rotateRight (ENode t n h' e' r))"
    if "end_exact t" "e' = eend (fixNode (ENode l n h e r))" "extentEnd t = extentEnd l" for t h' e'
    using that assms by (cases t) (simp_all add: Let_def)
  have left: "end_exact (rotateLeft (ENode l n h' e' t))"
    if "end_exact t" "e' = eend (fixNode (ENode l n h e r))" "extentEnd t = extentEnd r" for t h' e'
    using that assms by (cases t) (simp_all add: Let_def)
  have keepL: "extentEnd (rotateLeft t) = extentEnd t" if "end_exact t" for t
    using that by (cases t rule: rotateLeft.cases) (auto simp: Let_def max.assoc max.commute max.left_commute)
  have keepR: "extentEnd (rotateRight t) = extentEnd t" if "end_exact t" for t
    using that by (cases t rule: rotateRight.cases) (auto simp: Let_def max.assoc max.commute max.left_commute)
  show ?thesis
    using assms right left by (simp add: end_exact_rotateLeft end_exact_rotateRight keepL keepR Let_def)
qed

lemma balance_small:
  assumes "avl l" "avl r" "\<bar>height l - height r\<bar> \<le> 1"
  shows "avl (balance (ENode l n h e r))"
    "height (balance (ENode l n h e r)) = 1 + max (height l) (height r)"
  using assms by auto

lemma balance_left:
  assumes "avl l" "avl r" "height l = height r + 2"
  shows "avl (balance (ENode l n h e r)) \<and>
    (height (balance (ENode l n h e r)) = height l \<or> height (balance (ENode l n h e r)) = height l + 1)"
proof -
  obtain ll m hl el lr where l: "l = ENode ll m hl el lr"
    using assms height_nonneg [OF assms(2)] by (cases l) auto
  show ?thesis
  proof (cases "height ll < height lr")
    case True
    then obtain a k hk ek b where "lr = ENode a k hk ek b"
      using l assms height_nonneg [of ll] by (cases lr) auto
    with True l assms show ?thesis by (auto simp: max_def split: if_splits)
  next
    case False
    with l assms show ?thesis by (auto simp: max_def)
  qed
qed

lemma balance_right:
  assumes "avl l" "avl r" "height r = height l + 2"
  shows "avl (balance (ENode l n h e r)) \<and>
    (height (balance (ENode l n h e r)) = height r \<or> height (balance (ENode l n h e r)) = height r + 1)"
proof -
  obtain rl m hr er rr where r: "r = ENode rl m hr er rr"
    using assms height_nonneg [OF assms(1)] by (cases r) auto
  show ?thesis
  proof (cases "height rr < height rl")
    case True
    then obtain a k hk ek b where "rl = ENode a k hk ek b"
      using r assms height_nonneg [of rr] by (cases rl) auto
    with True r assms show ?thesis by (auto simp: max_def split: if_splits)
  next
    case False
    with r assms show ?thesis by (auto simp: max_def)
  qed
qed

lemma balance_avl:
  assumes "avl l" "avl r" "\<bar>height l - height r\<bar> \<le> 2"
  shows "avl (balance (ENode l n h e r))"
    "height (balance (ENode l n h e r)) \<in> {max (height l) (height r), 1 + max (height l) (height r)}"
    "\<bar>height l - height r\<bar> \<le> 1 \<Longrightarrow>
       height (balance (ENode l n h e r)) = 1 + max (height l) (height r)"
proof -
  consider "\<bar>height l - height r\<bar> \<le> 1" | "height l = height r + 2" | "height r = height l + 2"
    using assms(3) by linarith
  then have "avl (balance (ENode l n h e r)) \<and>
    height (balance (ENode l n h e r)) \<in> {max (height l) (height r), 1 + max (height l) (height r)}"
  proof cases
    case 1
    with assms show ?thesis using balance_small [of l r n h e] by (simp del: balance.simps)
  next
    case 2
    with assms show ?thesis using balance_left [of l r n h e] by (auto simp del: balance.simps)
  next
    case 3
    with assms show ?thesis using balance_right [of l r n h e] by (auto simp del: balance.simps)
  qed
  then show "avl (balance (ENode l n h e r))"
    "height (balance (ENode l n h e r)) \<in> {max (height l) (height r), 1 + max (height l) (height r)}"
    by blast+
  show "height (balance (ENode l n h e r)) = 1 + max (height l) (height r)"
    if "\<bar>height l - height r\<bar> \<le> 1"
    using balance_small(2) [OF assms(1,2) that] .
qed

text \<open>Rebalancing after one child grew or shrank by one level.\<close>

lemma balance_step:
  assumes "avl (ENode l n h e r)" "avl l'" "avl r'" "\<bar>d\<bar> \<le> 1"
    "height l' \<in> {height l, height l + d} \<and> r' = r \<or> l' = l \<and> height r' \<in> {height r, height r + d}"
  shows "avl (balance (ENode l' n' h' e' r'))"
    "height (balance (ENode l' n' h' e' r')) \<in> {h, h + d}"
proof -
  have lr: "\<bar>height l - height r\<bar> \<le> 1" "h = 1 + max (height l) (height r)" using assms(1) by auto
  then have two: "\<bar>height l' - height r'\<bar> \<le> 2" using assms(4,5) by auto
  note bal = balance_avl [OF assms(2,3) two, of n' h' e']
  show "avl (balance (ENode l' n' h' e' r'))" by (rule bal(1))
  show "height (balance (ENode l' n' h' e' r')) \<in> {h, h + d}"
  proof (cases "\<bar>height l' - height r'\<bar> \<le> 1")
    case True
    with bal(3) lr assms(4,5) show ?thesis by (auto simp: max_def split: if_splits)
  next
    case False
    with bal(2) lr assms(4,5) show ?thesis by (auto simp: max_def split: if_splits)
  qed
qed

definition leaf :: "piece \<Rightarrow> extent" where
  "leaf n = ENode ENil n 1 (if x_data n \<noteq> None then x_hi n else 0) ENil"

lemma epiece_leaf [simp]: "epiece (leaf n) = n"
  by (simp add: leaf_def)

lemma avl_insert:
  "avl t \<Longrightarrow> avl (extent_insert t (leaf n)) \<and>
     height (extent_insert t (leaf n)) \<in> {height t, height t + 1}"
proof (induction t)
  case ENil
  then show ?case by (simp add: leaf_def)
next
  case (ENode l m h e r)
  then have il: "avl (extent_insert l (leaf n))" "height (extent_insert l (leaf n)) \<in> {height l, height l + 1}"
    and ir: "avl (extent_insert r (leaf n))" "height (extent_insert r (leaf n)) \<in> {height r, height r + 1}"
    and lr: "avl l" "avl r"
    by auto
  show ?case
    using balance_step [OF ENode.prems il(1) lr(2), of 1 m h e]
      balance_step [OF ENode.prems lr(1) ir(1), of 1 m h e] il ir
    by (auto simp del: balance.simps)
qed

lemma end_exact_insert: "end_exact t \<Longrightarrow> 0 \<le> x_hi n \<Longrightarrow> end_exact (extent_insert t (leaf n))"
  by (induction t) (auto simp: leaf_def end_exact_balance simp del: balance.simps)

declare balance.simps [simp del]

lemma remove_avl:
  "extent_remove t lo = Some (t', n) \<Longrightarrow> avl t \<Longrightarrow>
     avl t' \<and> height t' \<in> {height t, height t - 1}"
proof (induction t lo arbitrary: t' n rule: extent_remove.induct)
  case (1 lo)
  then show ?case by simp
next
  case (2 l m h e r lo)
  note prems = 2(4,5)
  consider (less) "lo < x_lo m" | (greater) "lo > x_lo m"
    | (noleft) "lo = x_lo m" "l = ENil" | (noright) "lo = x_lo m" "l \<noteq> ENil" "r = ENil"
    | (both) "lo = x_lo m" "l \<noteq> ENil" "r \<noteq> ENil"
    by linarith
  then show ?case
  proof cases
    case less
    with prems obtain l' where l': "extent_remove l lo = Some (l', n)" "t' = balance (ENode l' m h e r)"
      by (auto split: option.splits bind_splits)
    with 2(1) less prems have "avl l'" "height l' \<in> {height l, height l + - 1}" by auto
    then show ?thesis
      using balance_step [OF prems(2) \<open>avl l'\<close>, of r "- 1" m h e] prems(2) l'(2) by simp
  next
    case greater
    with prems obtain r' where r': "extent_remove r lo = Some (r', n)" "t' = balance (ENode l m h e r')"
      by (auto split: option.splits bind_splits)
    with 2(2) greater prems have "avl r'" "height r' \<in> {height r, height r + - 1}" by auto
    then show ?thesis
      using balance_step [OF prems(2) _ \<open>avl r'\<close>, of l "- 1" m h e] prems(2) r'(2) by simp
  next
    case noleft
    with prems show ?thesis using height_nonneg [of r] by auto
  next
    case noright
    with prems show ?thesis using height_nonneg [of l] by auto
  next
    case both
    with prems obtain r' k where r': "extent_remove r (x_lo (epiece (leftmost r))) = Some (r', k)"
      "t' = balance (ENode l (epiece (leftmost r)) (eheight (leftmost r)) (eend (leftmost r)) r')"
      by (auto simp: Let_def split: option.splits bind_splits)
    with 2(3) both prems have "avl r'" "height r' \<in> {height r, height r + - 1}" by auto
    then show ?thesis
      using balance_step [OF prems(2) _ \<open>avl r'\<close>, of l "- 1"] prems(2) r'(2) by simp
  qed
qed

lemma remove_end_exact:
  "extent_remove t lo = Some (t', n) \<Longrightarrow> end_exact t \<Longrightarrow> end_exact t'"
  by (induction t lo arbitrary: t' n rule: extent_remove.induct)
    (auto simp: Let_def end_exact_balance split: if_splits bind_splits)

text \<open>A balanced tree of height \<open>h\<close> has at least \<open>2 ^ (h div 2)\<close> leaves.\<close>

lemma avl_size: "avl t \<Longrightarrow> 2 ^ (nat (height t) div 2) \<le> Suc (size t)"
proof (induction t rule: measure_induct_rule [of size])
  case (less t)
  show ?case
  proof (cases t)
    case ENil
    then show ?thesis by simp
  next
    case (ENode l n h e r)
    define k where "k = nat (height t) div 2"
    have step: "2 ^ (nat (h - 2) div 2) \<le> Suc (size s)" if "s = l \<or> s = r" for s
    proof -
      from that less.prems ENode have "avl s" and hs: "h - 2 \<le> height s" by auto
      moreover have "size s < size t" using that ENode by auto
      ultimately have "2 ^ (nat (height s) div 2) \<le> Suc (size s)" using less.IH by blast
      moreover have "nat (h - 2) div 2 \<le> nat (height s) div 2" using hs by (intro div_le_mono) auto
      ultimately show ?thesis
        by (meson le_trans one_le_numeral power_increasing)
    qed
    show ?thesis
    proof (cases "h < 2")
      case True
      then have "nat h div 2 = 0" by auto
      with ENode show ?thesis by simp
    next
      case False
      then have "nat h div 2 = Suc (nat (h - 2) div 2)" by (auto simp: nat_diff_distrib)
      then have "2 ^ (nat h div 2) = 2 ^ (nat (h - 2) div 2) + (2 ^ (nat (h - 2) div 2) :: nat)" by simp
      also have "\<dots> \<le> Suc (size l) + Suc (size r)" using step [OF disjI1 [OF refl]] step [OF disjI2 [OF refl]] by (rule add_le_mono)
      finally show ?thesis using ENode by simp
    qed
  qed
qed

section \<open>Contents of the tree\<close>

definition piece_wf :: "piece \<Rightarrow> bool" where
  "piece_wf n \<longleftrightarrow> 0 \<le> x_lo n \<and> x_lo n < x_hi n \<and>
     (\<forall>d. x_data n = Some d \<longrightarrow> int (length d) = x_hi n - x_lo n)"

text \<open>The intervals of a tree are well formed, disjoint and in order.\<close>

definition ordered :: "piece list \<Rightarrow> bool" where
  "ordered ns \<longleftrightarrow> (\<forall>n \<in> set ns. piece_wf n) \<and> sorted_wrt (\<lambda>a b. x_hi a \<le> x_lo b) ns"

definition touches :: "int \<Rightarrow> int \<Rightarrow> piece \<Rightarrow> bool" where
  "touches lo hi n \<longleftrightarrow> x_lo n < hi \<and> lo < x_hi n"

lemma piece_wf_less: "piece_wf n \<Longrightarrow> x_lo n < x_hi n"
  by (simp add: piece_wf_def)

lemma ordered_Nil [simp]: "ordered []"
  by (simp add: ordered_def)

lemma ordered_append:
  "ordered (xs @ n # ys) \<longleftrightarrow> ordered xs \<and> ordered ys \<and> piece_wf n \<and>
     (\<forall>a \<in> set xs. x_hi a \<le> x_lo n) \<and> (\<forall>b \<in> set ys. x_hi n \<le> x_lo b)"
proof
  assume "ordered (xs @ n # ys)"
  then show "ordered xs \<and> ordered ys \<and> piece_wf n \<and>
     (\<forall>a \<in> set xs. x_hi a \<le> x_lo n) \<and> (\<forall>b \<in> set ys. x_hi n \<le> x_lo b)"
    by (auto simp: ordered_def sorted_wrt_append)
next
  assume *: "ordered xs \<and> ordered ys \<and> piece_wf n \<and>
     (\<forall>a \<in> set xs. x_hi a \<le> x_lo n) \<and> (\<forall>b \<in> set ys. x_hi n \<le> x_lo b)"
  then have "x_hi a \<le> x_lo b" if "a \<in> set xs" "b \<in> set ys" for a b
    using that piece_wf_less [of n] by force
  with * show "ordered (xs @ n # ys)"
    by (auto simp: ordered_def sorted_wrt_append)
qed

lemma ordered_lo_less: "ordered (xs @ n # ys) \<Longrightarrow> a \<in> set xs \<Longrightarrow> x_lo a < x_lo n"
  unfolding ordered_append by (meson less_le_trans ordered_def piece_wf_less)

lemma ordered_less_lo: "ordered (xs @ n # ys) \<Longrightarrow> b \<in> set ys \<Longrightarrow> x_lo n < x_lo b"
  unfolding ordered_append by (meson less_le_trans piece_wf_less)

lemma ordered_inj:
  assumes "ordered ns" "a \<in> set ns" "b \<in> set ns" "x_lo a < x_hi b" "x_lo b < x_hi a"
  shows "a = b"
proof (rule ccontr)
  assume "a \<noteq> b"
  then have "x_hi a \<le> x_lo b \<or> x_hi b \<le> x_lo a"
    using assms(1-3) sorted_wrt_symD [of "\<lambda>a b. x_hi a \<le> x_lo b \<or> x_hi b \<le> x_lo a" ns a b]
    unfolding ordered_def by (metis (mono_tags, lifting) sorted_wrt_mono_rel)
  with assms show False by linarith
qed

lemma ordered_lo_inj:
  "ordered ns \<Longrightarrow> a \<in> set ns \<Longrightarrow> b \<in> set ns \<Longrightarrow> x_lo a = x_lo b \<Longrightarrow> a = b"
  by (rule ordered_inj) (auto simp: ordered_def piece_wf_def)

lemma ordered_distinct: "ordered ns \<Longrightarrow> distinct ns"
  by (induction ns) (auto simp: ordered_def dest!: bspec piece_wf_less)

text \<open>Insertion of an interval that meets none of the tree.\<close>

lemma insert_pieces:
  assumes "ordered (pieces t)" "piece_wf n" "\<forall>m \<in> set (pieces t). \<not> touches (x_lo n) (x_hi n) m"
  shows "ordered (pieces (extent_insert t (leaf n)))"
    "mset (pieces (extent_insert t (leaf n))) = add_mset n (mset (pieces t))"
proof -
  have "ordered (pieces (extent_insert t (leaf n))) \<and>
    mset (pieces (extent_insert t (leaf n))) = add_mset n (mset (pieces t))"
    using assms(1,3)
  proof (induction t)
    case ENil
    with assms(2) show ?case by (simp add: leaf_def ordered_def)
  next
    case (ENode l m h e r)
    then have "ordered (pieces l)" "ordered (pieces r)" by (simp_all add: ordered_append)
    with ENode have IH: "ordered (pieces (extent_insert l (leaf n)))"
      "mset (pieces (extent_insert l (leaf n))) = add_mset n (mset (pieces l))"
      "ordered (pieces (extent_insert r (leaf n)))"
      "mset (pieces (extent_insert r (leaf n))) = add_mset n (mset (pieces r))" by auto
    have sets: "set (pieces (extent_insert l (leaf n))) = insert n (set (pieces l))"
      "set (pieces (extent_insert r (leaf n))) = insert n (set (pieces r))"
      using IH(2,4) by (metis set_mset_add_mset_insert set_mset_mset)+
    have apart: "x_hi n \<le> x_lo m \<or> x_hi m \<le> x_lo n"
      using ENode.prems(2) by (auto simp: touches_def not_less)
    have "piece_wf m" using ENode.prems(1) by (simp add: ordered_append)
    then have side: "if x_lo n < x_lo m then x_hi n \<le> x_lo m else x_hi m \<le> x_lo n"
      using apart assms(2) by (auto dest!: piece_wf_less)
    show ?case
      using ENode.prems(1) IH sets side by (auto simp: ordered_append)
  qed
  then show "ordered (pieces (extent_insert t (leaf n)))"
    "mset (pieces (extent_insert t (leaf n))) = add_mset n (mset (pieces t))" by blast+
qed

lemma leftmost_pieces: "t \<noteq> ENil \<Longrightarrow> epiece (leftmost t) = hd (pieces t)"
  by (induction t) auto

lemma remove_pieces:
  "ordered (pieces t) \<Longrightarrow> n \<in> set (pieces t) \<Longrightarrow>
     \<exists>t'. extent_remove t (x_lo n) = Some (t', n) \<and> pieces t' = remove1 n (pieces t)"
proof (induction t "x_lo n" arbitrary: n rule: extent_remove.induct)
  case 1
  then show ?case by simp
next
  case (2 l m h e r)
  note ord = ordered_append [of "pieces l" m "pieces r"]
  have lr: "ordered (pieces l)" "ordered (pieces r)" using 2(4) by (simp_all add: ord)
  have lt: "\<forall>a \<in> set (pieces l). x_lo a < x_lo m" and gt: "\<forall>a \<in> set (pieces r). x_lo m < x_lo a"
    using 2(4) ordered_lo_less ordered_less_lo by simp_all
  consider (less) "x_lo n < x_lo m" | (greater) "x_lo n > x_lo m" | (same) "x_lo n = x_lo m" by linarith
  then show ?case
  proof cases
    case less
    with 2(5) gt have "n \<in> set (pieces l)" by auto
    with 2(1) [OF less refl lr(1)] obtain l' where "extent_remove l (x_lo n) = Some (l', n)"
      "pieces l' = remove1 n (pieces l)" by blast
    with less \<open>n \<in> set (pieces l)\<close> show ?thesis by (simp add: remove1_append)
  next
    case greater
    with 2(5) lt have "n \<in> set (pieces r)" "n \<notin> set (pieces l)" by auto
    moreover have "\<not> x_lo n < x_lo m" using greater by simp
    ultimately obtain r' where "extent_remove r (x_lo n) = Some (r', n)"
      "pieces r' = remove1 n (pieces r)" using 2(2) [OF _ greater refl lr(2)] by blast
    moreover have "n \<noteq> m" using greater by auto
    ultimately show ?thesis using greater \<open>n \<notin> set (pieces l)\<close> by (simp add: remove1_append)
  next
    case same
    then have n: "n = m" using 2(4,5) lt gt by auto
    have notl: "m \<notin> set (pieces l)" using lt by auto
    show ?thesis
    proof (cases "l = ENil \<or> r = ENil")
      case True
      with n notl show ?thesis by (auto simp: remove1_append)
    next
      case False
      define succ where "succ = leftmost r"
      have hd: "epiece succ = hd (pieces r)" using False by (simp add: succ_def leftmost_pieces)
      then have "epiece succ \<in> set (pieces r)" using False by simp
      with 2(3) [OF _ _ _ _ succ_def _ lr(2)] same False
      obtain r' where "extent_remove r (x_lo (epiece succ)) = Some (r', epiece succ)"
        "pieces r' = remove1 (epiece succ) (pieces r)" by auto
      moreover have "pieces r = epiece succ # remove1 (epiece succ) (pieces r)"
        using hd False by (cases "pieces r") auto
      ultimately show ?thesis
        using same False n notl by (auto simp: Let_def succ_def [symmetric] remove1_append)
    qed
  qed
qed

lemma overlap_none: "ordered (pieces t) \<Longrightarrow> lo < hi \<Longrightarrow>
  overlap t lo hi = ENil \<longleftrightarrow> (\<forall>n \<in> set (pieces t). \<not> touches lo hi n)"
proof (induction t)
  case (ENode l m h e r)
  have ord: "ordered (pieces l)" "ordered (pieces r)" "piece_wf m"
    "\<forall>a \<in> set (pieces l). x_hi a \<le> x_lo m" "\<forall>b \<in> set (pieces r). x_hi m \<le> x_lo b"
    using ENode.prems by (simp_all add: ordered_append)
  have "\<not> touches lo hi a" if "a \<in> set (pieces l)" "x_hi m \<le> lo" for a
    using that ord(3,4) by (force simp: touches_def dest: piece_wf_less)
  moreover have "\<not> touches lo hi b" if "b \<in> set (pieces r)" "hi \<le> x_lo m" for b
    using that ord(3,5) by (force simp: touches_def dest: piece_wf_less)
  ultimately show ?case
    using ENode.IH ord(1,2) ENode.prems(2) by (auto simp: touches_def)
qed simp

lemma overlap_some:
  "overlap t lo hi = ENode l n h e r \<Longrightarrow> n \<in> set (pieces t) \<and> touches lo hi n"
  by (induction t) (auto simp: touches_def split: if_splits)

section \<open>The map as a function on offsets\<close>

definition tree_ok :: "extent \<Rightarrow> bool" where
  "tree_ok t \<longleftrightarrow> avl t \<and> end_exact t \<and> ordered (pieces t)"

definition holds :: "piece \<Rightarrow> int \<Rightarrow> bool" where
  "holds n x \<longleftrightarrow> x_lo n \<le> x \<and> x < x_hi n"

text \<open>What the map says of an offset: the record the byte belongs to, and the byte or the zero mask.\<close>

type_synonym cell = "nat option \<times> byte option"

definition cell :: "piece \<Rightarrow> int \<Rightarrow> cell" where
  "cell n x = (x_owner n, map_option (\<lambda>d. d ! nat (x - x_lo n)) (x_data n))"

definition content :: "extent \<Rightarrow> int \<Rightarrow> cell option" where
  "content t x = map_option (\<lambda>n. cell n x) (find (\<lambda>n. holds n x) (pieces t))"

lemma tree_ok_ENil [simp]: "tree_ok ENil"
  by (simp add: tree_ok_def)

lemma content_ENil [simp]: "content ENil x = None"
  by (simp add: content_def)

lemma content_NoneI: "(\<And>n. n \<in> set (pieces t) \<Longrightarrow> \<not> holds n x) \<Longrightarrow> content t x = None"
  by (auto simp: content_def find_None_iff)

lemma content_None: "content t x = None \<longleftrightarrow> (\<forall>n \<in> set (pieces t). \<not> holds n x)"
  by (auto simp: content_def find_None_iff)

lemma content_Some:
  assumes "ordered (pieces t)" "n \<in> set (pieces t)" "holds n x"
  shows "content t x = Some (cell n x)"
proof (cases "find (\<lambda>n. holds n x) (pieces t)")
  case None
  with assms show ?thesis by (auto simp: find_None_iff)
next
  case (Some m)
  then have "m \<in> set (pieces t)" "holds m x" by (auto simp: find_Some_iff)
  then have "m = n" using ordered_inj [OF assms(1), of m n] assms(2,3) by (auto simp: holds_def)
  with Some show ?thesis by (simp add: content_def)
qed

lemma content_SomeD:
  "content t x = Some c \<Longrightarrow> \<exists>n \<in> set (pieces t). holds n x \<and> c = cell n x"
  by (auto simp: content_def find_Some_iff)

lemma content_cong:
  assumes "ordered (pieces t)" "ordered (pieces t')"
    "\<And>n. holds n x \<Longrightarrow> n \<in> set (pieces t) \<longleftrightarrow> n \<in> set (pieces t')"
  shows "content t x = content t' x"
proof (cases "\<exists>n \<in> set (pieces t). holds n x")
  case True
  then obtain n where "n \<in> set (pieces t)" "holds n x" by blast
  with assms content_Some [of t n x] content_Some [of t' n x] show ?thesis by auto
next
  case False
  with assms content_None [of t x] content_None [of t' x] show ?thesis by metis
qed

section \<open>The arena\<close>

text \<open>The lower bounds of the intervals a record owns in a tree.\<close>

definition los :: "extent \<Rightarrow> nat \<Rightarrow> int multiset" where
  "los t r = image_mset x_lo (filter_mset (\<lambda>n. x_owner n = Some r) (mset (pieces t)))"

definition owns :: "extent \<Rightarrow> extentPool \<Rightarrow> bool" where
  "owns t p \<longleftrightarrow> (\<forall>r. los t r \<subseteq># mset (owned p r))"

text \<open>Nodes are neither lost nor invented, and the owner lists follow the tree.\<close>

definition conserved :: "extent \<Rightarrow> extentPool \<Rightarrow> extent \<Rightarrow> extentPool \<Rightarrow> bool" where
  "conserved t p t' p' \<longleftrightarrow> pool_free p' + size t' = pool_free p + size t \<and>
     (\<forall>r. mset (owned p' r) + los t r = mset (owned p r) + los t' r)"

lemma conserved_refl [simp]: "conserved t p t p"
  by (simp add: conserved_def)

lemma conserved_trans:
  assumes "conserved t p t' p'" "conserved t' p' t'' p''"
  shows "conserved t p t'' p''"
proof -
  have "mset (owned p'' r) + los t r = mset (owned p r) + los t'' r" for r
  proof -
    have "mset (owned p' r) + los t r = mset (owned p r) + los t' r"
      "mset (owned p'' r) + los t' r = mset (owned p' r) + los t'' r"
      using assms by (simp_all add: conserved_def)
    then have "(mset (owned p'' r) + los t r) + los t' r = (mset (owned p r) + los t'' r) + los t' r"
      by (metis (no_types, lifting) union_assoc union_commute)
    then show ?thesis by simp
  qed
  with assms show ?thesis by (simp add: conserved_def)
qed

lemma conserved_owns:
  assumes "conserved t p t' p'" "owns t p"
  shows "owns t' p'"
proof -
  have "los t' r \<subseteq># mset (owned p' r)" for r
  proof -
    have "mset (owned p' r) + los t r = mset (owned p r) + los t' r" "los t r \<subseteq># mset (owned p r)"
      using assms by (simp_all add: conserved_def owns_def)
    then have "mset (owned p' r) = (mset (owned p r) - los t r) + los t' r"
      by (metis add_diff_cancel_right' subset_mset.add_diff_assoc2)
    then show ?thesis by simp
  qed
  then show ?thesis by (simp add: owns_def)
qed

lemma conserved_total: "conserved t p t' p' \<Longrightarrow> pool_free p' + size t' = pool_free p + size t"
  by (simp add: conserved_def)

lemma conserved_put:
  assumes "owns t p" "n \<in> set (pieces t)" "mset (pieces t') = mset (pieces t) - {#n#}"
  shows "conserved t p t' (pool_put p n)"
proof -
  have ms: "mset (pieces t) = add_mset n (mset (pieces t'))" using assms(2,3) by simp
  then have "length (pieces t) = Suc (length (pieces t'))" by (metis size_add_mset size_mset)
  then have size: "size t = Suc (size t')" by (simp add: length_pieces)
  have "mset (owned (pool_put p n) r) + los t r = mset (owned p r) + los t' r" for r
  proof (cases "x_owner n = Some r")
    case True
    then have los: "los t r = add_mset (x_lo n) (los t' r)" by (simp add: los_def ms)
    then have "x_lo n \<in># mset (owned p r)"
      using assms(1) by (metis mset_subset_eqD owns_def union_single_eq_member)
    then show ?thesis using True los by (simp add: pool_put_def)
  next
    case False
    then have "los t r = los t' r" by (simp add: los_def ms)
    then show ?thesis using False by (auto simp: pool_put_def split: option.splits)
  qed
  then show ?thesis using size by (simp add: conserved_def pool_put_def)
qed

lemma conserved_get:
  assumes "pool_free p > 0" "mset (pieces t') = add_mset (epiece n) (mset (pieces t))"
    "pool_get p lo hi d ow = Some (n, p')"
  shows "conserved t p t' p'"
proof -
  from assms(2) have "length (pieces t') = Suc (length (pieces t))" by (metis size_add_mset size_mset)
  then have size: "size t' = Suc (size t)" by (simp add: length_pieces)
  have n: "epiece n = \<lparr>x_lo = lo, x_hi = hi, x_data = d, x_owner = ow\<rparr>" using assms(1,3) by (auto simp: pool_get_def)
  have "mset (owned p' r) + los t r = mset (owned p r) + los t' r" for r
    using assms(1,3) n by (auto simp: los_def assms(2) pool_get_def split: option.splits)
  then show ?thesis using size assms(1,3) by (auto simp: conserved_def pool_get_def)
qed

text \<open>Disjoint intervals with endpoints in a finite set are fewer than the set has points.\<close>

definition ends :: "extent \<Rightarrow> int set" where
  "ends t = (\<Union>n \<in> set (pieces t). {x_lo n, x_hi n})"

lemma ordered_last:
  assumes "ordered ns" "a \<in> set ns"
  shows "x_lo a < x_hi (last ns)"
proof -
  have "ns = butlast ns @ last ns # []" using assms(2) by (cases ns) auto
  with assms show ?thesis
    using ordered_lo_less [of "butlast ns" "last ns" "[]" a]
    by (metis append_is_Nil_conv butlast.simps(1) in_set_butlast_appendI in_set_conv_decomp
        last_snoc less_trans not_Cons_self2 ordered_append piece_wf_less rotate1.simps(2) set_ConsD set_rotate1)
qed

lemma ordered_count:
  assumes "ordered ns" "ns \<noteq> []" "finite E" "\<forall>n \<in> set ns. x_lo n \<in> E \<and> x_hi n \<in> E"
  shows "Suc (length ns) \<le> card E"
proof -
  have "inj_on x_lo (set ns)" using ordered_lo_inj [OF assms(1)] by (auto simp: inj_on_def)
  moreover have "distinct ns" using assms(1) by (rule ordered_distinct)
  moreover have "x_hi (last ns) \<notin> x_lo ` set ns" using ordered_last [OF assms(1)] by force
  ultimately have "card (insert (x_hi (last ns)) (x_lo ` set ns)) = Suc (length ns)"
    by (simp add: card_image distinct_card)
  moreover have "insert (x_hi (last ns)) (x_lo ` set ns) \<subseteq> E" using assms(2,4) by auto
  ultimately show ?thesis using card_mono [OF assms(3)] by metis
qed

text \<open>An arena whose nodes, used and free, leave room for every interval with ends in \<open>E\<close>.\<close>

definition roomy :: "int set \<Rightarrow> extent \<Rightarrow> extentPool \<Rightarrow> bool" where
  "roomy E t p \<longleftrightarrow> finite E \<and> ends t \<subseteq> E \<and> card E \<le> Suc (pool_free p + size t)"

lemma insert_piece_ok:
  assumes "tree_ok t" "piece_wf n" "\<forall>m \<in> set (pieces t). \<not> touches (x_lo n) (x_hi n) m"
    "roomy E t p" "x_lo n \<in> E" "x_hi n \<in> E"
  obtains t' p' where "insert_piece t p (x_lo n) (x_hi n) (x_data n) (x_owner n) = Some (t', p')"
    "tree_ok t'" "mset (pieces t') = add_mset n (mset (pieces t))" "conserved t p t' p'" "roomy E t' p'"
proof -
  let ?t' = "extent_insert t (leaf n)"
  have ord: "ordered (pieces ?t')" and ms: "mset (pieces ?t') = add_mset n (mset (pieces t))"
    using insert_pieces assms(1-3) by (auto simp: tree_ok_def)
  then have ok: "tree_ok ?t'"
    using assms(1,2) avl_insert [of t n] end_exact_insert [of t n] by (simp add: tree_ok_def piece_wf_def)
  have set: "set (pieces ?t') = insert n (set (pieces t))" using ms by (metis set_mset_add_mset_insert set_mset_mset)
  have len: "length (pieces ?t') = Suc (size t)" using ms by (metis length_pieces size_add_mset size_mset)
  have "\<forall>m \<in> set (pieces ?t'). x_lo m \<in> E \<and> x_hi m \<in> E"
    using set assms(4-6) by (auto simp: roomy_def ends_def)
  moreover have "pieces ?t' \<noteq> []" using len by (metis list.size(3) nat.distinct(1))
  ultimately have "Suc (Suc (size t)) \<le> card E"
    using ordered_count [OF ord, of E] assms(4) len by (simp add: roomy_def del: pieces_eq_Nil)
  then have pos: "pool_free p > 0" using assms(4) by (auto simp: roomy_def)
  then obtain p' where get: "pool_get p (x_lo n) (x_hi n) (x_data n) (x_owner n) = Some (leaf n, p')"
    by (auto simp: pool_get_def leaf_def)
  have cons: "conserved t p ?t' p'" using conserved_get [OF pos _ get] ms by simp
  have "insert_piece t p (x_lo n) (x_hi n) (x_data n) (x_owner n) = Some (?t', p')"
    by (simp add: insert_piece_def get)
  moreover have "roomy E ?t' p'"
    using assms(4-6) set cons by (auto simp: roomy_def ends_def conserved_def)
  ultimately show ?thesis using that ok ms cons by blast
qed

lemma remove_ok:
  assumes "tree_ok t" "n \<in> set (pieces t)" "owns t p"
  obtains t' where "extent_remove t (x_lo n) = Some (t', n)" "tree_ok t'"
    "pieces t' = remove1 n (pieces t)" "conserved t p t' (pool_put p n)"
proof -
  obtain t' where rm: "extent_remove t (x_lo n) = Some (t', n)" and ps: "pieces t' = remove1 n (pieces t)"
    using remove_pieces assms(1,2) by (auto simp: tree_ok_def)
  have "sorted_wrt (\<lambda>a b. x_hi a \<le> x_lo b) (remove1 n ns)" if "sorted_wrt (\<lambda>a b. x_hi a \<le> x_lo b) ns" for ns
    using that by (induction ns) (auto dest: notin_set_remove1)
  then have "ordered (pieces t')"
    using assms(1) by (auto simp: ps tree_ok_def ordered_def dest: notin_set_remove1)
  then have "tree_ok t'" using rm assms(1) remove_avl remove_end_exact by (auto simp: tree_ok_def)
  moreover have "conserved t p t' (pool_put p n)" using assms(2,3) by (intro conserved_put) (simp_all add: ps)
  ultimately show ?thesis using that rm ps by blast
qed

section \<open>Setting a range\<close>

text \<open>Every interval after the operation is cut out of one before it at the ends of the range.\<close>

definition derived :: "int \<Rightarrow> int \<Rightarrow> extent \<Rightarrow> extent \<Rightarrow> bool" where
  "derived lo hi t t' \<longleftrightarrow> (\<forall>n \<in> set (pieces t'). \<exists>m \<in> set (pieces t).
     x_owner n = x_owner m \<and> {x_lo n, x_hi n} \<subseteq> {x_lo m, x_hi m, lo, hi})"

lemma derived_refl [simp]: "derived lo hi t t"
  by (auto simp: derived_def)

lemma derived_trans: "derived lo hi t t' \<Longrightarrow> derived lo hi t' t'' \<Longrightarrow> derived lo hi t t''"
  unfolding derived_def by (smt (verit) insert_subset insertE insertI1 insert_commute subset_insertI2 singletonD empty_subsetI)

lemma sub_length:
  "map_option length d = Some (nat l) \<Longrightarrow> 0 \<le> a \<Longrightarrow> a \<le> b \<Longrightarrow> b \<le> l \<Longrightarrow>
   map_option length (sub d a b) = Some (nat (b - a))"
  by (auto simp: sub_def)

lemma sub_nth: "0 \<le> a \<Longrightarrow> a + int i < b \<Longrightarrow> b \<le> int (length d) \<Longrightarrow>
   sub (Some d) a b = Some d' \<Longrightarrow> d' ! i = d ! nat (a + int i)"
  by (auto simp: sub_def nat_add_distrib)

text \<open>The part of an interval between two offsets.\<close>

definition clip :: "int \<Rightarrow> int \<Rightarrow> piece \<Rightarrow> piece" where
  "clip a b n = n\<lparr>x_lo := a, x_hi := b, x_data := sub (x_data n) (a - x_lo n) (b - x_lo n)\<rparr>"

lemma clip_simps [simp]:
  "x_lo (clip a b n) = a" "x_hi (clip a b n) = b" "x_owner (clip a b n) = x_owner n"
  "x_data (clip a b n) = sub (x_data n) (a - x_lo n) (b - x_lo n)"
  by (simp_all add: clip_def)

lemma clip_wf: "piece_wf n \<Longrightarrow> x_lo n \<le> a \<Longrightarrow> a < b \<Longrightarrow> b \<le> x_hi n \<Longrightarrow> piece_wf (clip a b n)"
  by (auto simp: piece_wf_def sub_def)

lemma clip_cell:
  "piece_wf n \<Longrightarrow> x_lo n \<le> a \<Longrightarrow> a \<le> x \<Longrightarrow> x < b \<Longrightarrow> b \<le> x_hi n \<Longrightarrow> cell (clip a b n) x = cell n x"
  by (cases "x_data n") (auto simp: cell_def sub_def piece_wf_def nat_add_distrib [symmetric])

lemma insert_if:
  assumes "tree_ok t" "c \<Longrightarrow> piece_wf n" "c \<Longrightarrow> \<forall>m \<in> set (pieces t). \<not> touches (x_lo n) (x_hi n) m"
    "roomy E t p" "x_lo n \<in> E" "x_hi n \<in> E"
  obtains t' p' where
    "(if c then insert_piece t p (x_lo n) (x_hi n) (x_data n) (x_owner n) else Some (t, p)) = Some (t', p')"
    "tree_ok t'" "conserved t p t' p'" "roomy E t' p'"
    "mset (pieces t') = (if c then {#n#} else {#}) + mset (pieces t)"
proof (cases c)
  case True
  with insert_piece_ok [OF assms(1) _ _ assms(4,5,6)] assms(2,3) that show ?thesis by (auto split: if_splits)
next
  case False
  with that [of t p] assms show ?thesis by simp
qed

text \<open>One round of the loop replaces an interval by the parts of it outside the range.\<close>

definition remains :: "int \<Rightarrow> int \<Rightarrow> piece \<Rightarrow> piece multiset" where
  "remains lo hi n =
     (if x_hi n > hi then {#clip hi (x_hi n) n#} else {#}) + (if x_lo n < lo then {#clip (x_lo n) lo n#} else {#})"

lemma remains_derived:
  "m \<in># remains lo hi n \<Longrightarrow> x_owner m = x_owner n \<and> {x_lo m, x_hi m} \<subseteq> {x_lo n, x_hi n, lo, hi}"
  by (auto simp: remains_def split: if_splits)

lemma remains_apart: "lo < hi \<Longrightarrow> m \<in># remains lo hi n \<Longrightarrow> \<not> touches lo hi m"
  by (auto simp: remains_def touches_def split: if_splits)

lemma set_round:
  assumes "tree_ok t" "owns t p" "roomy E t p" "lo < hi" "lo \<in> E" "hi \<in> E"
    "overlap t lo hi = ENode a old b c d"
  obtains t' p' where "set_loop (Suc k) lo hi (t, p) = set_loop k lo hi (t', p')"
    "tree_ok t'" "conserved t p t' p'" "roomy E t' p'"
    "mset (pieces t') = remains lo hi old + (mset (pieces t) - {#old#})"
proof -
  have ord: "ordered (pieces t)" using assms(1) by (simp add: tree_ok_def)
  have old: "old \<in> set (pieces t)" "touches lo hi old" using overlap_some [OF assms(7)] by auto
  then have wf: "piece_wf old" using ord by (simp add: ordered_def)
  obtain t1 where t1: "extent_remove t (x_lo old) = Some (t1, old)" "tree_ok t1"
    "pieces t1 = remove1 old (pieces t)" "conserved t p t1 (pool_put p old)"
    using remove_ok [OF assms(1) old(1) assms(2)] by blast
  define p1 where "p1 = pool_put p old"
  have set1: "set (pieces t1) = set (pieces t) - {old}" using t1(3) ordered_distinct [OF ord] by simp
  have sep: "\<not> touches (x_lo old) (x_hi old) m" if "m \<in> set (pieces t1)" for m
    using that ordered_inj [OF ord, of m old] old(1) set1 by (auto simp: touches_def)
  have E: "x_lo old \<in> E" "x_hi old \<in> E" using assms(3) old(1) by (auto simp: roomy_def ends_def)
  have room1: "roomy E t1 p1"
    using assms(3) conserved_total [OF t1(4)] set1 by (auto simp: roomy_def ends_def p1_def)
  let ?L = "clip (x_lo old) lo old" and ?R = "clip hi (x_hi old) old"
  have L: "piece_wf ?L" if "x_lo old < lo"
    using that wf old(2) by (intro clip_wf) (auto simp: touches_def)
  have R: "piece_wf ?R" if "x_hi old > hi"
    using that wf old(2) by (intro clip_wf) (auto simp: touches_def)
  have sepL: "\<forall>m \<in> set (pieces t1). \<not> touches (x_lo ?L) (x_hi ?L) m"
    using sep old(2) by (force simp: touches_def)
  obtain t2 p2 where two: "(if x_lo old < lo then
      insert_piece t1 p1 (x_lo ?L) (x_hi ?L) (x_data ?L) (x_owner ?L) else Some (t1, p1)) = Some (t2, p2)"
    "tree_ok t2" "conserved t1 p1 t2 p2" "roomy E t2 p2"
    "mset (pieces t2) = (if x_lo old < lo then {#?L#} else {#}) + mset (pieces t1)"
    using insert_if [OF t1(2) L sepL room1] E(1) assms(5) by auto
  have "set (pieces t2) = (if x_lo old < lo then {?L} else {}) \<union> set (pieces t1)"
    using arg_cong [OF two(5), of set_mset] by simp
  then have sepR: "\<forall>m \<in> set (pieces t2). \<not> touches (x_lo ?R) (x_hi ?R) m"
    using sep old(2) assms(4) by (force simp: touches_def split: if_splits)
  obtain t3 p3 where three: "(if x_hi old > hi then
      insert_piece t2 p2 (x_lo ?R) (x_hi ?R) (x_data ?R) (x_owner ?R) else Some (t2, p2)) = Some (t3, p3)"
    "tree_ok t3" "conserved t2 p2 t3 p3" "roomy E t3 p3"
    "mset (pieces t3) = (if x_hi old > hi then {#?R#} else {#}) + mset (pieces t2)"
    using insert_if [OF two(2) R sepR two(4)] E(2) assms(6) by auto
  have "set_loop (Suc k) lo hi (t, p) = set_loop k lo hi (t3, p3)"
    using assms(7) t1(1) two(1) three(1) unfolding clip_simps
    by (simp add: p1_def [symmetric] Let_def split: if_splits)
  moreover have "conserved t p t3 p3"
    using t1(4) two(3) three(3) conserved_trans unfolding p1_def by blast
  moreover have "mset (pieces t3) = remains lo hi old + (mset (pieces t) - {#old#})"
    using three(5) two(5) t1(3) by (simp add: remains_def)
  ultimately show ?thesis using that three(2,4) by blast
qed

lemma round_content:
  assumes "ordered (pieces t)" "ordered (pieces t')" "old \<in> set (pieces t)" "touches lo hi old"
    "mset (pieces t') = remains lo hi old + (mset (pieces t) - {#old#})"
    "lo < hi" "\<not> (lo \<le> x \<and> x < hi)"
  shows "content t' x = content t x"
proof -
  have set: "set (pieces t') = set_mset (remains lo hi old) \<union> (set (pieces t) - {old})"
    using arg_cong [OF assms(5), of set_mset] ordered_distinct [OF assms(1)]
    by (simp flip: mset_remove1 add: set_remove1_eq)
  have wf: "piece_wf old" using assms(1,3) by (simp add: ordered_def)
  let ?M = "if x < lo then clip (x_lo old) lo old else clip hi (x_hi old) old"
  show ?thesis
  proof (cases "holds old x")
    case True
    then have M: "?M \<in> set (pieces t')" "holds ?M x"
      using assms(7) by (auto simp: set remains_def holds_def)
    have "content t' x = Some (cell ?M x)" by (rule content_Some [OF assms(2) M])
    also have "cell ?M x = cell old x"
      using clip_cell [OF wf, of "x_lo old" x lo] clip_cell [OF wf, of hi x "x_hi old"] True assms(4,6,7)
      by (auto simp: holds_def touches_def)
    also have "Some (cell old x) = content t x" by (rule content_Some [OF assms(1,3) True, symmetric])
    finally show ?thesis .
  next
    case False
    then have "\<not> holds m x" if "m \<in># remains lo hi old" for m
      using that assms(4,6) by (auto simp: remains_def holds_def touches_def split: if_splits)
    with False show ?thesis by (intro content_cong [OF assms(2,1)]) (auto simp: set)
  qed
qed

lemma set_loop_ok:
  assumes "length (filter (touches lo hi) (pieces t)) < k"
    "tree_ok t" "owns t p" "roomy E t p" "lo < hi" "lo \<in> E" "hi \<in> E"
  shows "\<exists>t' p'. set_loop k lo hi (t, p) = Some (t', p') \<and> tree_ok t' \<and> conserved t p t' p' \<and>
    roomy E t' p' \<and> derived lo hi t t' \<and> (\<forall>n \<in> set (pieces t'). \<not> touches lo hi n) \<and>
    (\<forall>x. content t' x = (if lo \<le> x \<and> x < hi then None else content t x))"
  using assms
proof (induction k arbitrary: t p)
  case 0
  then show ?case by simp
next
  case (Suc k)
  have ord: "ordered (pieces t)" using Suc.prems(2) by (simp add: tree_ok_def)
  show ?case
  proof (cases "overlap t lo hi")
    case ENil
    then have none: "\<forall>n \<in> set (pieces t). \<not> touches lo hi n"
      using overlap_none [OF ord Suc.prems(5)] by simp
    then have "content t x = None" if "lo \<le> x" "x < hi" for x
      using that by (intro content_NoneI) (auto simp: touches_def holds_def)
    with ENil none Suc.prems show ?thesis by auto
  next
    case (ENode a old b c d)
    have old: "old \<in> set (pieces t)" "touches lo hi old" using overlap_some [OF ENode] by auto
    obtain t1 p1 where one: "set_loop (Suc k) lo hi (t, p) = set_loop k lo hi (t1, p1)"
      "tree_ok t1" "conserved t p t1 p1" "roomy E t1 p1"
      "mset (pieces t1) = remains lo hi old + (mset (pieces t) - {#old#})"
      using set_round [OF Suc.prems(2-7) ENode] by blast
    have none: "filter_mset (touches lo hi) (remains lo hi old) = {#}"
      using remains_apart [OF Suc.prems(5)] by (simp add: multiset_eq_iff) (meson not_in_iff)
    have "filter_mset (touches lo hi) (mset (pieces t)) =
        add_mset old (filter_mset (touches lo hi) (mset (pieces t) - {#old#}))"
      using old by (metis filter_mset_add_mset insert_DiffM set_mset_mset)
    moreover have "filter_mset (touches lo hi) (mset (pieces t1)) =
        filter_mset (touches lo hi) (mset (pieces t) - {#old#})"
      unfolding one(5) filter_union_mset none by (rule add_0)
    ultimately have "length (filter (touches lo hi) (pieces t)) = Suc (length (filter (touches lo hi) (pieces t1)))"
      by (metis mset_filter size_add_mset size_mset)
    then have fewer: "length (filter (touches lo hi) (pieces t1)) < k" using Suc.prems(1) by simp
    obtain t' p' where fin: "set_loop k lo hi (t1, p1) = Some (t', p')" "tree_ok t'" "conserved t1 p1 t' p'"
      "roomy E t' p'" "derived lo hi t1 t'" "\<forall>n \<in> set (pieces t'). \<not> touches lo hi n"
      "\<forall>x. content t' x = (if lo \<le> x \<and> x < hi then None else content t1 x)"
      using Suc.IH [OF fewer one(2) conserved_owns [OF one(3) Suc.prems(3)] one(4) Suc.prems(5-7)] by blast
    have "n \<in># remains lo hi old \<or> n \<in> set (pieces t)" if "n \<in> set (pieces t1)" for n
      using that arg_cong [OF one(5), of set_mset] by (auto dest: in_diffD)
    then have der: "derived lo hi t t1"
      using old(1) remains_derived unfolding derived_def by blast
    have "ordered (pieces t1)" using one(2) by (simp add: tree_ok_def)
    then have same: "content t1 x = content t x" if "\<not> (lo \<le> x \<and> x < hi)" for x
      using round_content [OF ord _ old one(5) Suc.prems(5) that] by blast
    show ?thesis
      using one(1) fin(1,2,4,6) conserved_trans [OF one(3) fin(3)] derived_trans [OF der fin(5)] fin(7) same by auto
  qed
qed

lemma extent_set_ok:
  assumes "tree_ok t" "owns t p" "roomy E t p" "0 \<le> lo" "lo < hi" "lo \<in> E" "hi \<in> E"
    "\<forall>d. data = Some d \<longrightarrow> int (length d) = hi - lo"
  obtains t' p' where "extent_set t p lo hi data own = Some (t', p')" "tree_ok t'"
    "conserved t p t' p'" "roomy E t' p'"
    "\<forall>x. content t' x = (if lo \<le> x \<and> x < hi
       then Some (own, map_option (\<lambda>d. d ! nat (x - lo)) data) else content t x)"
    "\<forall>n \<in> set (pieces t'). x_owner n = own \<and> {x_lo n, x_hi n} \<subseteq> {lo, hi} \<or>
       (\<exists>m \<in> set (pieces t). x_owner n = x_owner m \<and> {x_lo n, x_hi n} \<subseteq> {x_lo m, x_hi m, lo, hi})"
proof -
  have "length (filter (touches lo hi) (pieces t)) < Suc (size t)"
    by (metis length_filter_le length_pieces less_Suc_eq_le)
  then obtain t1 p1 where one: "set_loop (Suc (size t)) lo hi (t, p) = Some (t1, p1)" "tree_ok t1"
    "conserved t p t1 p1" "roomy E t1 p1" "derived lo hi t t1" "\<forall>n \<in> set (pieces t1). \<not> touches lo hi n"
    "\<forall>x. content t1 x = (if lo \<le> x \<and> x < hi then None else content t x)"
    using set_loop_ok assms by blast
  define n where "n = \<lparr>x_lo = lo, x_hi = hi, x_data = data, x_owner = own\<rparr>"
  have wf: "piece_wf n" using assms(4,5,8) by (auto simp: n_def piece_wf_def)
  obtain t' p' where two: "insert_piece t1 p1 lo hi data own = Some (t', p')" "tree_ok t'"
    "mset (pieces t') = add_mset n (mset (pieces t1))" "conserved t1 p1 t' p'" "roomy E t' p'"
    using insert_piece_ok [OF one(2) wf _ one(4)] one(6) assms(6,7) by (auto simp: n_def)
  have set: "set (pieces t') = insert n (set (pieces t1))"
    using two(3) by (metis set_mset_add_mset_insert set_mset_mset)
  have ord: "ordered (pieces t1)" "ordered (pieces t')" using one(2) two(2) by (auto simp: tree_ok_def)
  have "content t' x = (if lo \<le> x \<and> x < hi
       then Some (own, map_option (\<lambda>d. d ! nat (x - lo)) data) else content t x)" for x
  proof (cases "lo \<le> x \<and> x < hi")
    case True
    then have "content t' x = Some (cell n x)"
      using content_Some [OF ord(2), of n x] set by (simp add: holds_def n_def)
    then show ?thesis using True by (simp add: cell_def n_def)
  next
    case False
    then have "content t' x = content t1 x"
      using set by (intro content_cong [OF ord(2,1)]) (auto simp: holds_def n_def)
    with False one(7) show ?thesis by auto
  qed
  moreover have "extent_set t p lo hi data own = Some (t', p')"
    using one(1) two(1) by (simp add: extent_set_def)
  moreover have "\<forall>m \<in> set (pieces t'). x_owner m = own \<and> {x_lo m, x_hi m} \<subseteq> {lo, hi} \<or>
       (\<exists>k \<in> set (pieces t). x_owner m = x_owner k \<and> {x_lo m, x_hi m} \<subseteq> {x_lo k, x_hi k, lo, hi})"
    using one(5) set by (auto simp: derived_def n_def)
  ultimately show ?thesis
    using that two(2,5) conserved_trans [OF one(3) two(4)] by blast
qed

section \<open>Retiring a record, clearing the map\<close>

declare retire_loop.simps [simp del]

lemma retire_loop_Nil: "owned p r = [] \<Longrightarrow> retire_loop k r (t, p) = Some (t, p)"
  by (subst retire_loop.simps) simp

lemma los_empty: "los t r = {#} \<Longrightarrow> filter (\<lambda>n. x_owner n \<noteq> Some r) (pieces t) = pieces t"
  by (intro filter_id_if_all) (metis (mono_tags, lifting) empty_iff filter_mset_eq_conv image_mset_is_empty_iff
      los_def mem_Collect_eq set_mset_empty set_mset_filter set_mset_mset)

lemma retire_loop_ok:
  assumes "tree_ok t" "owns t p" "mset (owned p r) = los t r" "length (owned p r) \<le> k"
  shows "\<exists>t' p'. retire_loop k r (t, p) = Some (t', p') \<and> tree_ok t' \<and> conserved t p t' p' \<and>
    owned p' r = [] \<and> pieces t' = filter (\<lambda>n. x_owner n \<noteq> Some r) (pieces t)"
  using assms
proof (induction k arbitrary: t p)
  case 0
  then have "owned p r = []" "los t r = {#}" by auto
  with \<open>owned p r = []\<close> \<open>los t r = {#}\<close> 0 show ?case by (simp add: los_empty retire_loop_Nil)
next
  case (Suc k)
  show ?case
  proof (cases "owned p r")
    case Nil
    then have "los t r = {#}" using Suc.prems(3) by simp
    with Nil Suc.prems show ?thesis by (simp add: los_empty retire_loop_Nil)
  next
    case (Cons lo rest)
    then have "lo \<in># los t r" using Suc.prems(3) by (metis list.set_intros(1) set_mset_mset)
    then obtain n where n: "n \<in> set (pieces t)" "x_owner n = Some r" "x_lo n = lo"
      by (auto simp: los_def)
    obtain t1 where t1: "extent_remove t (x_lo n) = Some (t1, n)" "tree_ok t1"
      "pieces t1 = remove1 n (pieces t)" "conserved t p t1 (pool_put p n)"
      using remove_ok [OF Suc.prems(1) n(1) Suc.prems(2)] by blast
    have own: "owned (pool_put p n) r = rest" using Cons n by (simp add: pool_put_def)
    have "mset (pieces t) = add_mset n (mset (pieces t1))" using n(1) t1(3) by simp
    then have "los t r = add_mset lo (los t1 r)" using n by (simp add: los_def)
    then have "mset (owned (pool_put p n) r) = los t1 r" using Suc.prems(3) Cons own by simp
    then obtain t' p' where fin: "retire_loop k r (t1, pool_put p n) = Some (t', p')" "tree_ok t'"
      "conserved t1 (pool_put p n) t' p'" "owned p' r = []"
      "pieces t' = filter (\<lambda>n. x_owner n \<noteq> Some r) (pieces t1)"
      using Suc.IH [OF t1(2) conserved_owns [OF t1(4) Suc.prems(2)]] own Cons Suc.prems(4) by auto
    have "filter (\<lambda>n. x_owner n \<noteq> Some r) (remove1 n (pieces t)) = filter (\<lambda>n. x_owner n \<noteq> Some r) (pieces t)"
      using n(2) by (simp add: filter_remove1 remove1_idem)
    moreover have "retire_loop (Suc k) r (t, p) = retire_loop k r (t1, pool_put p n)"
      using Cons t1(1) n(3) by (subst retire_loop.simps) simp
    ultimately show ?thesis
      using fin t1(3) conserved_trans [OF t1(4) fin(3)] by simp
  qed
qed

lemma retire_ok:
  assumes "tree_ok t" "owns t p" "mset (owned p r) = los t r"
  obtains t' p' where "retire t p r = Some (t', p')" "tree_ok t'" "conserved t p t' p'" "owned p' r = []"
    "pieces t' = filter (\<lambda>n. x_owner n \<noteq> Some r) (pieces t)"
    "\<forall>x. content t' x = (case content t x of Some (ow, b) \<Rightarrow> if ow = Some r then None else Some (ow, b) | None \<Rightarrow> None)"
proof -
  obtain t' p' where *: "retire t p r = Some (t', p')" "tree_ok t'" "conserved t p t' p'" "owned p' r = []"
    "pieces t' = filter (\<lambda>n. x_owner n \<noteq> Some r) (pieces t)"
    using retire_loop_ok [OF assms order_refl] unfolding retire_def by blast
  have "content t' x = (case content t x of Some (ow, b) \<Rightarrow> if ow = Some r then None else Some (ow, b) | None \<Rightarrow> None)" for x
  proof (cases "content t x")
    case None
    then have "content t' x = None" by (simp add: content_None *(5))
    with None show ?thesis by simp
  next
    case (Some c)
    then obtain n where n: "n \<in> set (pieces t)" "holds n x" "c = cell n x" using content_SomeD by blast
    show ?thesis
    proof (cases "x_owner n = Some r")
      case True
      have ord: "ordered (pieces t)" using assms(1) by (simp add: tree_ok_def)
      have "\<not> holds m x" if "m \<in> set (pieces t')" for m
      proof
        assume "holds m x"
        then have "m = n" using that n ordered_inj [OF ord, of m n] by (auto simp: *(5) holds_def)
        with that True show False by (simp add: *(5))
      qed
      then have "content t' x = None" by (rule content_NoneI)
      with Some n True show ?thesis by (simp add: cell_def)
    next
      case False
      then have "content t' x = Some (cell n x)"
        using n content_Some [of t' n x] *(2,5) by (simp add: tree_ok_def)
      with Some n False show ?thesis by (simp add: cell_def)
    qed
  qed
  with * that show ?thesis by blast
qed

lemma pool_free_walk: "pool_free (extent_walk t p) = pool_free p + size t"
  by (induction t arbitrary: p) (auto simp: pool_put_def)

lemma owned_put: "mset (owned (pool_put p n) r) = mset (owned p r) - (if x_owner n = Some r then {#x_lo n#} else {#})"
  by (auto simp: pool_put_def split: option.splits)

lemma owned_walk: "mset (owned (extent_walk t p) r) = mset (owned p r) - los t r"
proof (induction t arbitrary: p)
  case ENil
  then show ?case by (simp add: los_def)
next
  case (ENode l n h e r')
  have "los (ENode l n h e r') r = los l r + los r' r + (if x_owner n = Some r then {#x_lo n#} else {#})"
    by (simp add: los_def)
  with ENode show ?case by (simp add: owned_put)
qed

lemma clear_ok:
  assumes "owns t p"
  shows "fst (extent_clear t p) = ENil" "conserved t p ENil (snd (extent_clear t p))"
  using assms
  by (auto simp: extent_clear_def conserved_def pool_free_walk owned_walk los_def [of ENil] owns_def)

section \<open>Reading a range\<close>

lemma spans_clip:
  "ordered (pieces t) \<Longrightarrow>
   spans t lo hi = map (\<lambda>n. let a = max lo (x_lo n); z = min hi (x_hi n) in
     \<lparr>s_lo = a, s_hi = z, s_data = sub (x_data n) (a - x_lo n) (z - x_lo n)\<rparr>)
     (filter (touches lo hi) (pieces t))"
proof (induction t)
  case (ENode l m h e r)
  have ord: "ordered (pieces l)" "ordered (pieces r)"
    "\<forall>a \<in> set (pieces l). x_hi a \<le> x_lo m" "\<forall>b \<in> set (pieces r). x_hi m \<le> x_lo b"
    using ENode.prems by (simp_all add: ordered_append)
  have "filter (touches lo hi) (pieces l) = []" if "x_lo m \<le> lo"
    using that ord(3) by (force intro: filter_none_if simp: touches_def)
  moreover have "filter (touches lo hi) (pieces r) = []" if "hi \<le> x_hi m"
    using that ord(4) by (force intro: filter_none_if simp: touches_def)
  ultimately show ?case
    using ENode.IH ord(1,2) touches_def [of lo hi m] by (auto simp: Let_def not_less)
qed simp

text \<open>The stored aggregate is the end of the last byte of data.\<close>

lemma extentEnd_upper: "end_exact t \<Longrightarrow> n \<in> set (pieces t) \<Longrightarrow> x_data n \<noteq> None \<Longrightarrow> x_hi n \<le> extentEnd t"
  by (induction t) (auto simp: Let_def)

lemma extentEnd_cases: "end_exact t \<Longrightarrow> extentEnd t = 0 \<or> (\<exists>n \<in> set (pieces t). x_data n \<noteq> None \<and> x_hi n = extentEnd t)"
  by (induction t) (auto simp: Let_def max_def split: if_splits)

section \<open>Depth of the maps that share an arena\<close>

text \<open>
  All files of a buffer share one arena. The relation lists the calls that change a map:
  \<open>extentMap.set\<close>, \<open>retire\<close> and \<open>clear\<close>, in any order and on any file. The depth is counted on
  the tree itself and does not read the stored heights.
\<close>

inductive arena_reach :: "nat \<Rightarrow> (nat \<Rightarrow> extent) \<Rightarrow> extentPool \<Rightarrow> bool" for cap where
  fresh: "arena_reach cap (\<lambda>_. ENil) (newExtentPool cap)"
| set: "arena_reach cap m p \<Longrightarrow> extent_set (m i) p lo hi data own = Some (t, p') \<Longrightarrow> arena_reach cap (m(i := t)) p'"
| retire: "arena_reach cap m p \<Longrightarrow> retire (m i) p r = Some (t, p') \<Longrightarrow> arena_reach cap (m(i := t)) p'"
| clear: "arena_reach cap m p \<Longrightarrow> extent_clear (m i) p = (t, p') \<Longrightarrow> arena_reach cap (m(i := t)) p'"

fun depth :: "extent \<Rightarrow> nat" where
  "depth ENil = 0"
| "depth (ENode l n h e r) = Suc (max (depth l) (depth r))"

text \<open>What every call keeps of one map and the free nodes, whatever its arguments are.\<close>

definition keeps :: "extent \<Rightarrow> extentPool \<Rightarrow> extent \<Rightarrow> extentPool \<Rightarrow> bool" where
  "keeps t p t' p' \<longleftrightarrow> (avl t \<longrightarrow> avl t') \<and> pool_free p' + size t' = pool_free p + size t"

lemma keeps_refl [simp]: "keeps t p t p"
  by (simp add: keeps_def)

lemma keeps_trans [trans]: "keeps t p t1 p1 \<Longrightarrow> keeps t1 p1 t2 p2 \<Longrightarrow> keeps t p t2 p2"
  by (auto simp: keeps_def)

lemma height_depth: "avl t \<Longrightarrow> height t = int (depth t)"
  by (induction t) auto

lemma size_balance [simp]: "size (balance t) = size t"
  by (simp flip: length_pieces)

lemma size_insert: "size (extent_insert t (leaf n)) = Suc (size t)"
  by (induction t) (auto simp: leaf_def)

lemma size_remove: "extent_remove t lo = Some (t', n) \<Longrightarrow> size t = Suc (size t')"
  by (induction t lo arbitrary: t' n rule: extent_remove.induct)
    (fastforce simp: Let_def split: if_splits bind_splits)+

lemma pool_get_leaf:
  "pool_get p lo hi data own = Some (n, p') \<Longrightarrow> (\<exists>k. n = leaf k) \<and> pool_free p = Suc (pool_free p')"
  by (auto simp: pool_get_def leaf_def split: if_splits)

lemma insert_piece_keeps: "insert_piece t p lo hi data own = Some (t', p') \<Longrightarrow> keeps t p t' p'"
  by (auto simp: insert_piece_def keeps_def avl_insert size_insert split: bind_splits dest!: pool_get_leaf)

lemma remove_keeps: "extent_remove t lo = Some (t', n) \<Longrightarrow> keeps t p t' (pool_put p k)"
  by (auto simp: keeps_def pool_put_def dest: remove_avl size_remove)

lemma insert_if_keeps:
  "(if c then insert_piece t p lo hi data own else Some (t, p)) = Some (t', p') \<Longrightarrow> keeps t p t' p'"
  by (auto split: if_splits intro: insert_piece_keeps)

lemma set_loop_keeps: "set_loop k lo hi (t, p) = Some (t', p') \<Longrightarrow> keeps t p t' p'"
proof (induction k arbitrary: t p)
  case (Suc k)
  show ?case
  proof (cases "overlap t lo hi")
    case (ENode l old h e r)
    with Suc.prems obtain t1 n t2 p2 t3 p3 where
      "extent_remove t (x_lo old) = Some (t1, n)"
      "(if x_lo old < lo then insert_piece t1 (pool_put p old) (x_lo old) lo (sub (x_data old) 0 (lo - x_lo old)) (x_owner old)
        else Some (t1, pool_put p old)) = Some (t2, p2)"
      "(if x_hi old > hi then insert_piece t2 p2 hi (x_hi old)
          (sub (x_data old) (hi - x_lo old) (x_hi old - x_lo old)) (x_owner old) else Some (t2, p2)) = Some (t3, p3)"
      "set_loop k lo hi (t3, p3) = Some (t', p')"
      by (auto simp: Let_def split: bind_splits)
    then show ?thesis by (meson remove_keeps insert_if_keeps Suc.IH keeps_trans)
  qed (use Suc.prems in simp)
qed simp

lemma extent_set_keeps: "extent_set t p lo hi data own = Some (t', p') \<Longrightarrow> keeps t p t' p'"
  by (auto simp: extent_set_def simp del: set_loop.simps split: bind_splits intro: keeps_trans set_loop_keeps insert_piece_keeps)

lemma retire_loop_keeps: "retire_loop k r (t, p) = Some (t', p') \<Longrightarrow> keeps t p t' p'"
proof (induction k arbitrary: t p)
  case 0
  then show ?case by (subst (asm) retire_loop.simps) (auto split: list.splits)
next
  case (Suc k)
  from Suc.prems show ?case
    by (subst (asm) retire_loop.simps)
      (auto split: list.splits bind_splits dest!: Suc.IH intro: keeps_trans remove_keeps)
qed

lemma retire_keeps: "retire t p r = Some (t', p') \<Longrightarrow> keeps t p t' p'"
  by (simp add: retire_def retire_loop_keeps)

lemma clear_keeps: "extent_clear t p = (t', p') \<Longrightarrow> keeps t p t' p'"
  by (auto simp: extent_clear_def keeps_def pool_free_walk)

text \<open>The free nodes and the nodes of any finite number of files fit the arena.\<close>

definition arena_ok :: "nat \<Rightarrow> (nat \<Rightarrow> extent) \<Rightarrow> extentPool \<Rightarrow> bool" where
  "arena_ok cap m p \<longleftrightarrow> (\<forall>i. avl (m i)) \<and> (\<forall>S. finite S \<longrightarrow> pool_free p + (\<Sum>i\<in>S. size (m i)) \<le> cap)"

lemma arena_ok_step:
  assumes "arena_ok cap m p" "keeps (m i) p t p'"
  shows "arena_ok cap (m(i := t)) p'"
  unfolding arena_ok_def
proof (intro conjI allI impI)
  show "avl ((m(i := t)) j)" for j using assms by (simp add: arena_ok_def keeps_def)
  fix S :: "nat set" assume fin: "finite S"
  let ?rest = "\<Sum>j\<in>S - {i}. size (m j)"
  have "pool_free p + (size (m i) + ?rest) \<le> cap"
    using assms(1) fin sum.insert_remove [OF fin, of "\<lambda>j. size (m j)" i] unfolding arena_ok_def
    by (metis finite_insert)
  moreover have "(\<Sum>j\<in>S. size ((m(i := t)) j)) \<le> (\<Sum>j\<in>insert i S. size ((m(i := t)) j))"
    using fin by (intro sum_mono2) auto
  moreover have "\<dots> = size t + ?rest" using fin by (simp add: sum.insert_remove)
  ultimately show "pool_free p' + (\<Sum>j\<in>S. size ((m(i := t)) j)) \<le> cap"
    using assms(2) by (simp add: keeps_def)
qed

lemma arena_reach_ok: "arena_reach cap m p \<Longrightarrow> arena_ok cap m p"
proof (induction rule: arena_reach.induct)
  case fresh
  then show ?case by (simp add: arena_ok_def newExtentPool_def)
qed (blast intro: arena_ok_step extent_set_keeps retire_keeps clear_keeps)+

end
