(* ===== verification/Record_Heap.thy ===== *)
theory Record_Heap
  imports Prelude
begin

text \<open>
  The indexed binary heaps of the write-back buffer, \<^verbatim>\<open>src/vcs/internal/writeback/heap.go\<close>: an
  array of records ordered by their applied Authority sequence, in which every record
  stores its own position so that it can be removed from the middle.

  A heap is a list of records, named by their accepted sequence numbers, together with the
  \<open>heapIndex\<close> field of every record (a record is in one heap at a time, and entering a heap
  overwrites the field); \<open>key\<close> reads the \<open>applied\<close> field. Removing an index
  outside the array is a panic of the code and the result \<open>None\<close>. The locale
  \<open>min_queue\<close> is the contract the buffer relies on, and it is interpreted on the heap.
\<close>

section \<open>Operations\<close>

record recordHeap =
  slots :: "nat list"
  heapIndex :: "nat \<Rightarrow> nat"

definition emptyHeap :: recordHeap where
  "emptyHeap = \<lparr>slots = [], heapIndex = (\<lambda>_. 0)\<rparr>"

definition heap_swap :: "nat \<Rightarrow> nat \<Rightarrow> recordHeap \<Rightarrow> recordHeap" where
  "heap_swap i j h =
     (let xs = (slots h)[i := slots h ! j, j := slots h ! i] in
      \<lparr>slots = xs, heapIndex = (heapIndex h)(xs ! i := i, xs ! j := j)\<rparr>)"

fun heap_up :: "(nat \<Rightarrow> nat) \<Rightarrow> nat \<Rightarrow> recordHeap \<Rightarrow> nat \<times> recordHeap" where
  "heap_up key i h =
     (if i > 0 then
        (let p = (i - 1) div 2 in
         if key (slots h ! p) \<le> key (slots h ! i) then (i, h)
         else heap_up key p (heap_swap i p h))
      else (i, h))"

function heap_down :: "(nat \<Rightarrow> nat) \<Rightarrow> nat \<Rightarrow> recordHeap \<Rightarrow> recordHeap" where
  "heap_down key i h =
     (let j = 2 * i + 1 in
      if j \<ge> length (slots h) then h
      else
        (let j = (if j + 1 < length (slots h) \<and> key (slots h ! (j + 1)) < key (slots h ! j)
                  then j + 1 else j) in
         if key (slots h ! i) \<le> key (slots h ! j) then h
         else heap_down key j (heap_swap i j h)))"
  by auto
termination
  by (relation "measure (\<lambda>(key, i, h). length (slots h) - i)") (auto simp: heap_swap_def Let_def)

definition heap_push :: "(nat \<Rightarrow> nat) \<Rightarrow> nat \<Rightarrow> recordHeap \<Rightarrow> recordHeap" where
  "heap_push key r h =
     (let n = length (slots h);
          h = \<lparr>slots = slots h @ [r], heapIndex = (heapIndex h)(r := n)\<rparr> in
      snd (heap_up key n h))"

definition heap_remove :: "(nat \<Rightarrow> nat) \<Rightarrow> nat \<Rightarrow> recordHeap \<Rightarrow> (nat \<times> recordHeap) option" where
  "heap_remove key i h =
     (if i < length (slots h) then
        (let r = slots h ! i;
             last = length (slots h) - 1;
             h = heap_swap i last h;
             h = h\<lparr>slots := take last (slots h)\<rparr> in
         Some (r, if i < last then (let (i, h) = heap_up key i h in heap_down key i h) else h))
      else None)"

declare heap_up.simps [simp del] heap_down.simps [simp del]

section \<open>Contents and positions\<close>

definition indexed :: "recordHeap \<Rightarrow> bool" where
  "indexed h \<longleftrightarrow> distinct (slots h) \<and> (\<forall>i < length (slots h). heapIndex h (slots h ! i) = i)"

lemma slots_swap [simp]: "slots (heap_swap i j h) = (slots h)[i := slots h ! j, j := slots h ! i]"
  by (simp add: heap_swap_def Let_def)

lemma length_swap: "length (slots (heap_swap i j h)) = length (slots h)"
  by simp

lemma mset_heap_swap:
  "i < length (slots h) \<Longrightarrow> j < length (slots h) \<Longrightarrow> mset (slots (heap_swap i j h)) = mset (slots h)"
  by (simp add: mset_swap)

lemma heapIndex_swap:
  "i < length (slots h) \<Longrightarrow> j < length (slots h) \<Longrightarrow>
   heapIndex (heap_swap i j h) = (heapIndex h)(slots h ! j := i, slots h ! i := j)"
  by (auto simp: heap_swap_def Let_def nth_list_update)

lemma indexed_swap:
  assumes "indexed h" "i < length (slots h)" "j < length (slots h)"
  shows "indexed (heap_swap i j h)"
proof -
  have d: "distinct (slots h)" using assms by (simp add: indexed_def)
  then have "distinct (slots (heap_swap i j h))" using assms by simp
  moreover have "heapIndex (heap_swap i j h) (slots (heap_swap i j h) ! k) = k" if "k < length (slots h)" for k
    using that assms d unfolding heapIndex_swap [OF assms(2,3)]
    by (auto simp: indexed_def nth_list_update nth_eq_iff_index_eq)
  ultimately show ?thesis by (simp add: indexed_def)
qed

lemma heap_up_contents:
  "i < length (slots h) \<Longrightarrow>
   mset (slots (snd (heap_up key i h))) = mset (slots h) \<and>
   fst (heap_up key i h) < length (slots h) \<and>
   (indexed h \<longrightarrow> indexed (snd (heap_up key i h))) \<and>
   (\<forall>r. r \<notin> set (slots h) \<longrightarrow> heapIndex (snd (heap_up key i h)) r = heapIndex h r)"
proof (induction key i h rule: heap_up.induct)
  case (1 key i h)
  let ?p = "(i - 1) div 2"
  show ?case
  proof (cases "i > 0 \<and> \<not> key (slots h ! ?p) \<le> key (slots h ! i)")
    case True
    have p: "?p < length (slots h)" using 1(2) by auto
    have up: "heap_up key i h = heap_up key ?p (heap_swap i ?p h)"
      using True by (subst heap_up.simps) (simp add: Let_def)
    have set: "set (slots (heap_swap i ?p h)) = set (slots h)" using 1(2) p by (metis mset_heap_swap set_mset_mset)
    have idx: "heapIndex (heap_swap i ?p h) r = heapIndex h r" if "r \<notin> set (slots h)" for r
      using that 1(2) p by (auto simp: heapIndex_swap)
    from 1(1) [of ?p] True p show ?thesis
      unfolding up using set idx mset_heap_swap [OF 1(2) p] indexed_swap [OF _ 1(2) p] by auto
  next
    case False
    then have "heap_up key i h = (i, h)" by (subst heap_up.simps) (auto simp: Let_def)
    with 1(2) show ?thesis by simp
  qed
qed

lemma heap_down_contents:
  "i < length (slots h) \<Longrightarrow>
   mset (slots (heap_down key i h)) = mset (slots h) \<and>
   (indexed h \<longrightarrow> indexed (heap_down key i h)) \<and>
   (\<forall>r. r \<notin> set (slots h) \<longrightarrow> heapIndex (heap_down key i h) r = heapIndex h r)"
proof (induction key i h rule: heap_down.induct)
  case (1 key i h)
  define j where "j = (if 2 * i + 1 + 1 < length (slots h) \<and> key (slots h ! (2 * i + 1 + 1)) < key (slots h ! (2 * i + 1))
    then 2 * i + 1 + 1 else 2 * i + 1)"
  show ?case
  proof (cases "2 * i + 1 < length (slots h) \<and> \<not> key (slots h ! i) \<le> key (slots h ! j)")
    case True
    have j: "j < length (slots h)" using True by (auto simp: j_def)
    have down: "heap_down key i h = heap_down key j (heap_swap i j h)"
      using True by (subst heap_down.simps) (simp add: Let_def j_def del: One_nat_def)
    have set: "set (slots (heap_swap i j h)) = set (slots h)" using 1(2) j by (metis mset_heap_swap set_mset_mset)
    have idx: "heapIndex (heap_swap i j h) r = heapIndex h r" if "r \<notin> set (slots h)" for r
      using that 1(2) j by (auto simp: heapIndex_swap)
    have IH: "j < length (slots (heap_swap i j h)) \<Longrightarrow>
      mset (slots (heap_down key j (heap_swap i j h))) = mset (slots (heap_swap i j h)) \<and>
      (indexed (heap_swap i j h) \<longrightarrow> indexed (heap_down key j (heap_swap i j h))) \<and>
      (\<forall>r. r \<notin> set (slots (heap_swap i j h)) \<longrightarrow>
        heapIndex (heap_down key j (heap_swap i j h)) r = heapIndex (heap_swap i j h) r)"
      using 1(1) [OF refl, of j] True j_def by (simp del: One_nat_def add: linorder_not_le)
    show ?thesis
      unfolding down using IH j set idx mset_heap_swap [OF 1(2) j] indexed_swap [OF _ 1(2) j] by auto
  next
    case False
    then have "heap_down key i h = h"
      by (subst heap_down.simps) (auto simp: Let_def j_def simp del: One_nat_def)
    then show ?thesis by simp
  qed
qed

section \<open>The heap order\<close>

definition parent :: "nat \<Rightarrow> nat" where
  "parent i = (i - 1) div 2"

text \<open>
  The order may fail around one position: \<open>hole\<close> leaves open both the edge to its parent
  and those to its children, \<open>sinking\<close> only the edges to its children.
\<close>

definition heap_edges :: "(nat \<Rightarrow> bool) \<Rightarrow> (nat \<Rightarrow> nat) \<Rightarrow> nat list \<Rightarrow> bool" where
  "heap_edges P key xs \<longleftrightarrow> (\<forall>j < length xs. 0 < j \<longrightarrow> P j \<longrightarrow> key (xs ! parent j) \<le> key (xs ! j))"

definition heap_order :: "(nat \<Rightarrow> nat) \<Rightarrow> nat list \<Rightarrow> bool" where
  "heap_order key xs \<longleftrightarrow> (\<forall>j < length xs. 0 < j \<longrightarrow> key (xs ! parent j) \<le> key (xs ! j))"

definition skips :: "(nat \<Rightarrow> nat) \<Rightarrow> nat list \<Rightarrow> nat \<Rightarrow> bool" where
  "skips key xs i \<longleftrightarrow> (\<forall>c < length xs. 0 < c \<longrightarrow> 0 < i \<longrightarrow> parent c = i \<longrightarrow> key (xs ! parent i) \<le> key (xs ! c))"

definition hole :: "(nat \<Rightarrow> nat) \<Rightarrow> nat list \<Rightarrow> nat \<Rightarrow> bool" where
  "hole key xs i \<longleftrightarrow> heap_edges (\<lambda>j. j \<noteq> i \<and> parent j \<noteq> i) key xs \<and> skips key xs i"

definition sinking :: "(nat \<Rightarrow> nat) \<Rightarrow> nat list \<Rightarrow> nat \<Rightarrow> bool" where
  "sinking key xs i \<longleftrightarrow> heap_edges (\<lambda>j. parent j \<noteq> i) key xs \<and> skips key xs i"

definition tops :: "(nat \<Rightarrow> nat) \<Rightarrow> nat list \<Rightarrow> nat \<Rightarrow> bool" where
  "tops key xs i \<longleftrightarrow> (\<forall>c < length xs. 0 < c \<longrightarrow> parent c = i \<longrightarrow> key (xs ! i) \<le> key (xs ! c))"

lemma parent_less: "0 < i \<Longrightarrow> parent i < i"
  by (auto simp: parent_def)

lemma parent_child: "0 < c \<Longrightarrow> parent c = i \<longleftrightarrow> c = 2 * i + 1 \<or> c = 2 * i + 2"
  by (auto simp: parent_def)

lemma sinking_tops: "sinking key xs i \<Longrightarrow> tops key xs i \<Longrightarrow> heap_order key xs"
  by (auto simp: sinking_def tops_def heap_order_def heap_edges_def)

lemma hole_swap:
  assumes "hole key xs i" "i < length xs" "0 < i" "key (xs ! i) < key (xs ! parent i)"
  defines "ys \<equiv> xs[i := xs ! parent i, parent i := xs ! i]"
  shows "hole key ys (parent i)" "tops key ys (parent i)"
proof -
  let ?p = "parent i"
  have p: "?p < i" "?p < length xs" using assms(2) parent_less [OF assms(3)] by auto
  have ny: "ys ! k = (if k = ?p then xs ! i else if k = i then xs ! ?p else xs ! k)" if "k < length xs" for k
    using that p assms(2) by (auto simp: ys_def nth_list_update)
  have len: "length ys = length xs" by (simp add: ys_def)
  have edge: "key (xs ! parent j) \<le> key (xs ! j)" if "j < length xs" "0 < j" "j \<noteq> i" "parent j \<noteq> i" for j
    using that assms(1) by (auto simp: hole_def heap_edges_def)
  have skip: "key (xs ! ?p) \<le> key (xs ! c)" if "c < length xs" "0 < c" "parent c = i" for c
    using that assms(1,3) by (auto simp: hole_def skips_def)
  have pl: "parent j < length xs" if "j < length xs" for j
    using that parent_less [of j] by (cases "j = 0") (auto simp: parent_def)
  have "heap_edges (\<lambda>j. j \<noteq> ?p \<and> parent j \<noteq> ?p) key ys"
    unfolding heap_edges_def len
  proof (intro allI impI, elim conjE)
    fix j assume j: "j < length xs" "0 < j" "j \<noteq> ?p" "parent j \<noteq> ?p"
    then have "j \<noteq> i" by auto
    show "key (ys ! parent j) \<le> key (ys ! j)"
      using j \<open>j \<noteq> i\<close> edge [of j] skip [of j] pl [OF j(1)] by (cases "parent j = i") (auto simp: ny)
  qed
  moreover have le: "key (xs ! ?p) \<le> key (ys ! c)" if "c < length xs" "0 < c" "parent c = ?p" for c
    using that edge [of c] p by (cases "c = i") (auto simp: ny parent_def dest: parent_less)
  moreover have "key (ys ! parent ?p) \<le> key (xs ! ?p)" if "0 < ?p"
    using that edge [of ?p] p parent_less [of ?p] by (auto simp: ny)
  ultimately show "hole key ys ?p"
    by (auto simp: hole_def skips_def len intro: order_trans)
  show "tops key ys ?p"
    unfolding tops_def len
  proof (intro allI impI)
    fix c assume "c < length xs" "0 < c" "parent c = ?p"
    then have "key (xs ! ?p) \<le> key (ys ! c)" by (rule le)
    moreover have "key (ys ! ?p) < key (xs ! ?p)" using assms(4) p by (simp add: ny)
    ultimately show "key (ys ! ?p) \<le> key (ys ! c)" by linarith
  qed
qed

lemma heap_up_order:
  "i < length (slots h) \<Longrightarrow> hole key (slots h) i \<Longrightarrow>
   (let (i', h') = heap_up key i h in
    sinking key (slots h') i' \<and> (tops key (slots h) i \<longrightarrow> tops key (slots h') i'))"
proof (induction key i h rule: heap_up.induct)
  case (1 key i h)
  show ?case
  proof (cases "i > 0 \<and> \<not> key (slots h ! parent i) \<le> key (slots h ! i)")
    case True
    have up: "heap_up key i h = heap_up key (parent i) (heap_swap i (parent i) h)"
      using True by (subst heap_up.simps) (simp add: Let_def parent_def)
    have "hole key (slots (heap_swap i (parent i) h)) (parent i)" "tops key (slots (heap_swap i (parent i) h)) (parent i)"
      using hole_swap [OF 1(3,2)] True by auto
    with 1(1) [of "parent i"] 1(2) True parent_less [of i] show ?thesis
      unfolding up by (auto simp: parent_def Let_def length_swap simp del: slots_swap split: prod.splits)
  next
    case False
    then have "heap_up key i h = (i, h)" by (subst heap_up.simps) (auto simp: Let_def parent_def)
    moreover from False 1(3) have "sinking key (slots h) i"
      by (auto simp: sinking_def hole_def heap_edges_def)
    ultimately show ?thesis by simp
  qed
qed

lemma sinking_swap:
  assumes "sinking key xs i" "j < length xs" "0 < j" "parent j = i" "key (xs ! j) < key (xs ! i)"
    "\<forall>c < length xs. 0 < c \<longrightarrow> parent c = i \<longrightarrow> key (xs ! j) \<le> key (xs ! c)"
  shows "sinking key (xs[i := xs ! j, j := xs ! i]) j"
proof -
  define ys where "ys = xs[i := xs ! j, j := xs ! i]"
  have i: "i < j" "i < length xs" using assms(2,4) parent_less [OF assms(3)] by auto
  have ny: "ys ! k = (if k = j then xs ! i else if k = i then xs ! j else xs ! k)" if "k < length xs" for k
    using that i assms(2) by (auto simp: ys_def nth_list_update)
  have len: "length ys = length xs" by (simp add: ys_def)
  have edge: "key (xs ! parent k) \<le> key (xs ! k)" if "k < length xs" "0 < k" "parent k \<noteq> i" for k
    using that assms(1) by (auto simp: sinking_def heap_edges_def)
  have skip: "key (xs ! parent i) \<le> key (xs ! c)" if "c < length xs" "0 < c" "0 < i" "parent c = i" for c
    using that assms(1) by (auto simp: sinking_def skips_def)
  have pl: "parent k < length xs" if "k < length xs" for k
    using that parent_less [of k] by (cases "k = 0") (auto simp: parent_def)
  have "key (ys ! parent k) \<le> key (ys ! k)" if k: "k < length xs" "0 < k" "parent k \<noteq> j" for k
  proof (cases "parent k = i")
    case True
    with k assms(2,5,6) i show ?thesis by (auto simp: ny dest: parent_less)
  next
    case False
    then show ?thesis
      using k edge [of k] skip [of j] assms(2-4) pl [OF k(1)] by (cases "k = i") (auto simp: ny)
  qed
  moreover have "key (ys ! parent j) \<le> key (ys ! c)" if "c < length xs" "0 < c" "parent c = j" for c
  proof -
    have "c \<noteq> j" "c \<noteq> i" using that i parent_less [of c] by auto
    with that edge [of c] i assms(4) show ?thesis by (simp add: ny)
  qed
  ultimately show ?thesis
    unfolding ys_def [symmetric] by (auto simp: sinking_def heap_edges_def skips_def len)
qed

lemma heap_down_order:
  "i < length (slots h) \<Longrightarrow> sinking key (slots h) i \<Longrightarrow> heap_order key (slots (heap_down key i h))"
proof (induction key i h rule: heap_down.induct)
  case (1 key i h)
  define j where "j = (if 2 * i + 1 + 1 < length (slots h) \<and> key (slots h ! (2 * i + 1 + 1)) < key (slots h ! (2 * i + 1))
    then 2 * i + 1 + 1 else 2 * i + 1)"
  have least: "\<forall>c < length (slots h). 0 < c \<longrightarrow> parent c = i \<longrightarrow> key (slots h ! j) \<le> key (slots h ! c)"
    by (auto simp: parent_child j_def)
  show ?case
  proof (cases "2 * i + 1 < length (slots h)")
    case True
    have j: "j < length (slots h)" "0 < j" "parent j = i" using True by (auto simp: j_def parent_def)
    show ?thesis
    proof (cases "key (slots h ! i) \<le> key (slots h ! j)")
      case le: True
      then have "heap_down key i h = h"
        using True by (subst heap_down.simps) (simp add: Let_def j_def del: One_nat_def)
      moreover have "tops key (slots h) i" using least le by (auto simp: tops_def intro: order_trans)
      ultimately show ?thesis using sinking_tops [OF 1(3)] by simp
    next
      case gt: False
      have down: "heap_down key i h = heap_down key j (heap_swap i j h)"
        using True gt by (subst heap_down.simps) (simp add: Let_def j_def del: One_nat_def)
      have "sinking key (slots (heap_swap i j h)) j"
        using sinking_swap [OF 1(3) j] gt least by simp
      moreover have "sinking key (slots (heap_swap i j h)) j \<Longrightarrow> heap_order key (slots (heap_down key j (heap_swap i j h)))"
        using 1(1) [OF refl _ j_def gt] True j(1) by simp
      ultimately show ?thesis unfolding down by blast
    qed
  next
    case False
    then have "heap_down key i h = h" by (subst heap_down.simps) (simp add: Let_def)
    moreover have "tops key (slots h) i" using False by (auto simp: tops_def parent_child)
    ultimately show ?thesis using sinking_tops [OF 1(3)] by simp
  qed
qed

section \<open>The contract of the heap\<close>

definition heap_ok :: "(nat \<Rightarrow> nat) \<Rightarrow> recordHeap \<Rightarrow> bool" where
  "heap_ok key h \<longleftrightarrow> indexed h \<and> heap_order key (slots h)"

lemma heap_ok_empty [simp]: "heap_ok key emptyHeap"
  by (simp add: heap_ok_def emptyHeap_def indexed_def heap_order_def)

lemma heap_order_cong: "heap_order key xs \<Longrightarrow> (\<And>r. r \<in> set xs \<Longrightarrow> key' r = key r) \<Longrightarrow> heap_order key' xs"
  unfolding heap_order_def by (metis nth_mem parent_less less_trans)

lemma heap_least:
  assumes "heap_order key xs" "i < length xs"
  shows "key (xs ! 0) \<le> key (xs ! i)"
  using assms(2)
proof (induction i rule: less_induct)
  case (less i)
  show ?case
  proof (cases "i = 0")
    case False
    then have "parent i < i" by (simp add: parent_less)
    moreover have "key (xs ! parent i) \<le> key (xs ! i)" using assms(1) less.prems False by (simp add: heap_order_def)
    ultimately show ?thesis using less by force
  qed simp
qed

lemma push_ok:
  assumes "heap_ok key h" "r \<notin> set (slots h)"
  shows "heap_ok key (heap_push key r h)" "set (slots (heap_push key r h)) = insert r (set (slots h))"
    "length (slots (heap_push key r h)) = Suc (length (slots h))"
    "\<forall>q. q \<notin> insert r (set (slots h)) \<longrightarrow> heapIndex (heap_push key r h) q = heapIndex h q"
proof -
  let ?n = "length (slots h)"
  let ?g = "\<lparr>slots = slots h @ [r], heapIndex = (heapIndex h)(r := ?n)\<rparr>"
  have push: "heap_push key r h = snd (heap_up key ?n ?g)" by (simp add: heap_push_def Let_def)
  have idx: "indexed ?g"
    using assms by (auto simp: heap_ok_def indexed_def nth_append less_Suc_eq)
  have leaf: "parent c \<noteq> ?n" if "c < Suc ?n" "0 < c" for c using that parent_less [of c] by auto
  have "heap_edges (\<lambda>j. j \<noteq> ?n \<and> parent j \<noteq> ?n) key (slots h @ [r])"
    using assms(1) parent_less
    by (auto simp: heap_edges_def heap_ok_def heap_order_def nth_append less_Suc_eq intro: less_trans)
  then have "hole key (slots ?g) ?n" "tops key (slots ?g) ?n"
    using leaf by (auto simp: hole_def skips_def tops_def)
  then have "heap_order key (slots (heap_push key r h))"
    using heap_up_order [of ?n ?g key] sinking_tops unfolding push by (auto simp: Let_def split: prod.splits)
  moreover have con: "mset (slots (heap_push key r h)) = add_mset r (mset (slots h))" "indexed (heap_push key r h)"
    using heap_up_contents [of ?n ?g key] idx unfolding push by auto
  ultimately show "heap_ok key (heap_push key r h)" by (simp add: heap_ok_def)
  show "set (slots (heap_push key r h)) = insert r (set (slots h))"
    "length (slots (heap_push key r h)) = Suc (length (slots h))"
    using con(1) by (metis set_mset_add_mset_insert set_mset_mset, metis size_add_mset size_mset)
  show "\<forall>q. q \<notin> insert r (set (slots h)) \<longrightarrow> heapIndex (heap_push key r h) q = heapIndex h q"
    using heap_up_contents [of ?n ?g key] unfolding push by auto
qed

lemma remove_hole:
  assumes "heap_order key xs" "i < length xs - 1"
  shows "hole key (take (length xs - 1) (xs[i := xs ! (length xs - 1), length xs - 1 := xs ! i])) i"
proof -
  define ys where "ys = take (length xs - 1) (xs[i := xs ! (length xs - 1), length xs - 1 := xs ! i])"
  have len: "length ys = length xs - 1" by (simp add: ys_def)
  have ny: "ys ! k = (if k = i then xs ! (length xs - 1) else xs ! k)" if "k < length xs - 1" for k
    using that assms(2) by (auto simp: ys_def nth_list_update)
  have edge: "key (xs ! parent j) \<le> key (xs ! j)" if "j < length xs - 1" "0 < j" for j
    using that assms(1) by (simp add: heap_order_def)
  have pl: "parent j < length xs - 1" if "j < length xs - 1" "0 < j" for j
    using that parent_less [of j] by simp
  have "heap_edges (\<lambda>j. j \<noteq> i \<and> parent j \<noteq> i) key ys"
    using edge pl by (auto simp: heap_edges_def len ny)
  moreover have "key (ys ! parent i) \<le> key (ys ! c)" if "c < length xs - 1" "0 < c" "0 < i" "parent c = i" for c
    using that edge [of c] edge [of i] pl [of i] assms(2) parent_less [of i] parent_less [of c] by (auto simp: ny)
  ultimately show ?thesis unfolding ys_def [symmetric] by (auto simp: hole_def skips_def len)
qed

text \<open>The array after the removed record was swapped to the end and cut off.\<close>

definition cutLast :: "nat \<Rightarrow> recordHeap \<Rightarrow> recordHeap" where
  "cutLast i h = (let n = length (slots h) - 1; h = heap_swap i n h in h\<lparr>slots := take n (slots h)\<rparr>)"

lemma cutLast_ok:
  assumes "indexed h" "i < length (slots h)"
  shows "indexed (cutLast i h)" "length (slots h) = Suc (length (slots (cutLast i h)))"
    "set (slots (cutLast i h)) = set (slots h) - {slots h ! i}"
    "\<forall>q. q \<notin> set (slots h) \<longrightarrow> heapIndex (cutLast i h) q = heapIndex h q"
proof -
  define n where "n = length (slots h) - 1"
  define xs where "xs = slots (heap_swap i n h)"
  have n: "n < length (slots h)" "length xs = Suc n" using assms(2) by (auto simp: n_def xs_def)
  have g: "slots (cutLast i h) = take n xs" "heapIndex (cutLast i h) = heapIndex (heap_swap i n h)"
    by (simp_all add: cutLast_def n_def xs_def Let_def)
  have "xs ! n = slots h ! i" using n assms(2) by (simp add: xs_def)
  then have full: "xs = take n xs @ [slots h ! i]"
    using n(2) take_Suc_conv_app_nth [of n xs] by simp
  have sw: "indexed (heap_swap i n h)" using indexed_swap assms n(1) by blast
  then have d: "distinct xs" "\<forall>k < length xs. heapIndex (heap_swap i n h) (xs ! k) = k"
    by (simp_all add: indexed_def xs_def)
  then show "indexed (cutLast i h)" using n(2) by (auto simp: indexed_def g)
  show "length (slots h) = Suc (length (slots (cutLast i h)))" using n by (simp add: g xs_def)
  have "set xs = set (slots h)" using mset_heap_swap [OF assms(2) n(1)] by (metis set_mset_mset xs_def)
  moreover have "set xs = insert (slots h ! i) (set (take n xs))" by (subst full) simp
  moreover have "slots h ! i \<notin> set (take n xs)" using d(1) by (subst (asm) full) simp
  ultimately show "set (slots (cutLast i h)) = set (slots h) - {slots h ! i}" by (auto simp: g)
  show "\<forall>q. q \<notin> set (slots h) \<longrightarrow> heapIndex (cutLast i h) q = heapIndex h q"
    using assms(2) n(1) by (auto simp: g heapIndex_swap)
qed

lemma repair_ok:
  assumes "hole key (slots g) i" "i < length (slots g)" "indexed g"
  defines "h' \<equiv> (let (i, g) = heap_up key i g in heap_down key i g)"
  shows "heap_ok key h'" "mset (slots h') = mset (slots g)"
    "\<forall>q. q \<notin> set (slots g) \<longrightarrow> heapIndex h' q = heapIndex g q"
proof -
  obtain i' g' where up: "heap_up key i g = (i', g')" by fastforce
  then have sink: "sinking key (slots g') i'"
    using heap_up_order [OF assms(2,1)] by (simp add: Let_def)
  have con: "mset (slots g') = mset (slots g)" "i' < length (slots g)" "indexed g'"
    "\<forall>q. q \<notin> set (slots g) \<longrightarrow> heapIndex g' q = heapIndex g q"
    using heap_up_contents [OF assms(2), of key] assms(3) up by auto
  have same: "length (slots g') = length (slots g)" "set (slots g') = set (slots g)"
    using con(1) by (metis size_mset, metis set_mset_mset)
  have h': "h' = heap_down key i' g'" by (simp add: h'_def up)
  have i': "i' < length (slots g')" using con(2) same(1) by simp
  note down = heap_down_contents [OF i', of key, folded h']
  show "heap_ok key h'" using heap_down_order [OF i' sink] down con(3) by (simp add: heap_ok_def h')
  show "mset (slots h') = mset (slots g)" using down con(1) by simp
  show "\<forall>q. q \<notin> set (slots g) \<longrightarrow> heapIndex h' q = heapIndex g q" using down con(4) same(2) by simp
qed

lemma heap_order_take:
  assumes "heap_order key xs"
  shows "heap_order key (take n xs)"
  unfolding heap_order_def
proof (intro allI impI)
  fix j assume j: "j < length (take n xs)" "0 < j"
  then have "parent j < n" using parent_less [of j] by simp
  with j assms show "key (take n xs ! parent j) \<le> key (take n xs ! j)" by (simp add: heap_order_def)
qed

lemma heap_remove_ok:
  assumes "heap_ok key h" "i < length (slots h)"
  obtains h' where "heap_remove key i h = Some (slots h ! i, h')" "heap_ok key h'"
    "set (slots h') = set (slots h) - {slots h ! i}" "length (slots h) = Suc (length (slots h'))"
    "\<forall>q. q \<notin> set (slots h) \<longrightarrow> heapIndex h' q = heapIndex h q"
proof -
  define g where "g = cutLast i h"
  have idx: "indexed h" and ord: "heap_order key (slots h)" using assms(1) by (simp_all add: heap_ok_def)
  note cut = cutLast_ok [OF idx assms(2), folded g_def]
  have last: "length (slots h) - 1 = length (slots g)" using cut(2) by simp
  have geq: "(heap_swap i (length (slots h) - 1) h)\<lparr>slots :=
      take (length (slots h) - 1) (slots (heap_swap i (length (slots h) - 1) h))\<rparr> = g"
    by (simp add: g_def cutLast_def Let_def)
  then have gs: "slots g = take (length (slots h) - 1)
      ((slots h)[i := slots h ! (length (slots h) - 1), length (slots h) - 1 := slots h ! i])"
    using slots_swap by (metis recordHeap.select_convs(1) recordHeap.surjective recordHeap.update_convs(1))
  define h' where "h' = (if i < length (slots g) then (let (i, g) = heap_up key i g in heap_down key i g) else g)"
  have rem: "heap_remove key i h = Some (slots h ! i, h')"
    using assms(2) unfolding heap_remove_def Let_def geq h'_def last [symmetric] by simp
  have *: "heap_ok key h' \<and> mset (slots h') = mset (slots g) \<and>
    (\<forall>q. q \<notin> set (slots g) \<longrightarrow> heapIndex h' q = heapIndex g q)"
  proof (cases "i < length (slots g)")
    case True
    then have "hole key (slots g) i" unfolding gs using last by (intro remove_hole [OF ord]) simp
    from repair_ok [OF this True cut(1)] True show ?thesis by (simp add: h'_def)
  next
    case False
    then have "i = length (slots h) - 1" using assms(2) last by linarith
    then have "slots g = take (length (slots h) - 1) (slots h)" unfolding gs by simp
    then have "heap_order key (slots g)" using heap_order_take [OF ord] by simp
    with False cut(1) show ?thesis by (simp add: h'_def heap_ok_def)
  qed
  then have "set (slots h') = set (slots g)" "length (slots h') = length (slots g)"
    by (metis set_mset_mset, metis size_mset)
  with * cut show ?thesis by (intro that [OF rem]) simp_all
qed

text \<open>
  What the buffer relies on: a record can be added, any record can be taken out by the
  position it stores, and the front has the least key.
\<close>

locale min_queue =
  fixes ok :: "(nat \<Rightarrow> nat) \<Rightarrow> 'q \<Rightarrow> bool"
    and elems :: "'q \<Rightarrow> nat set"
    and push :: "(nat \<Rightarrow> nat) \<Rightarrow> nat \<Rightarrow> 'q \<Rightarrow> 'q"
    and take_out :: "(nat \<Rightarrow> nat) \<Rightarrow> nat \<Rightarrow> 'q \<Rightarrow> (nat \<times> 'q) option"
    and front :: "'q \<Rightarrow> nat"
  assumes fin: "finite (elems q)"
    and cong: "ok key q \<Longrightarrow> \<forall>r \<in> elems q. key' r = key r \<Longrightarrow> ok key' q"
    and push: "ok key q \<Longrightarrow> r \<notin> elems q \<Longrightarrow>
      ok key (push key r q) \<and> elems (push key r q) = insert r (elems q)"
    and take_out: "ok key q \<Longrightarrow> r \<in> elems q \<Longrightarrow>
      \<exists>q'. take_out key r q = Some (r, q') \<and> ok key q' \<and> elems q' = elems q - {r}"
    and front: "ok key q \<Longrightarrow> elems q \<noteq> {} \<Longrightarrow>
      front q \<in> elems q \<and> (\<forall>r \<in> elems q. key (front q) \<le> key r)"
begin

lemma front_bound:
  assumes "ok key q" "elems q \<noteq> {} \<longrightarrow> n < key (front q)" "r \<in> elems q"
  shows "n < key r"
  using assms front [OF assms(1)] by (metis empty_iff le_less_trans not_less)

lemma move_front:
  assumes "ok key q" "ok key q2" "elems q \<noteq> {}" "elems q \<inter> elems q2 = {}"
  obtains q' where "take_out key (front q) q = Some (front q, q')" "ok key q'"
    "ok key (push key (front q) q2)" "elems q' \<inter> elems (push key (front q) q2) = {}"
    "elems q' \<union> elems (push key (front q) q2) = elems q \<union> elems q2" "card (elems q') < card (elems q)"
    "elems q' = elems q - {front q}" "elems (push key (front q) q2) = insert (front q) (elems q2)"
proof -
  have f: "front q \<in> elems q" using front [OF assms(1,3)] by blast
  then obtain q' where q': "take_out key (front q) q = Some (front q, q')" "ok key q'" "elems q' = elems q - {front q}"
    using take_out [OF assms(1)] by blast
  have p: "ok key (push key (front q) q2)" "elems (push key (front q) q2) = insert (front q) (elems q2)"
    using push [OF assms(2)] f assms(4) by auto
  have "card (elems q') < card (elems q)" unfolding q'(3) by (rule card_Diff1_less [OF fin f])
  with q' p f assms(4) show ?thesis using that by auto
qed

end

definition heap_elems :: "recordHeap \<Rightarrow> nat set" where
  "heap_elems h = set (slots h)"

definition heap_take :: "(nat \<Rightarrow> nat) \<Rightarrow> nat \<Rightarrow> recordHeap \<Rightarrow> (nat \<times> recordHeap) option" where
  "heap_take key r h = heap_remove key (heapIndex h r) h"

definition heap_front :: "recordHeap \<Rightarrow> nat" where
  "heap_front h = slots h ! 0"

interpretation hq: min_queue heap_ok heap_elems heap_push heap_take heap_front
proof
  fix q :: recordHeap and key key' :: "nat \<Rightarrow> nat" and r :: nat
  show "finite (heap_elems q)" by (simp add: heap_elems_def)
  show "heap_ok key' q" if "heap_ok key q" "\<forall>r \<in> heap_elems q. key' r = key r"
    using that heap_order_cong [of key "slots q" key'] by (simp add: heap_ok_def heap_elems_def)
  show "heap_ok key (heap_push key r q) \<and> heap_elems (heap_push key r q) = insert r (heap_elems q)"
    if "heap_ok key q" "r \<notin> heap_elems q"
    using push_ok [of key q r] that by (simp add: heap_elems_def)
  show "\<exists>q'. heap_take key r q = Some (r, q') \<and> heap_ok key q' \<and> heap_elems q' = heap_elems q - {r}"
    if "heap_ok key q" "r \<in> heap_elems q"
  proof -
    from that obtain i where i: "i < length (slots q)" "slots q ! i = r"
      by (auto simp: heap_elems_def in_set_conv_nth)
    then have "heapIndex q r = i" using that(1) by (auto simp: heap_ok_def indexed_def)
    with heap_remove_ok [OF that(1) i(1)] i(2) show ?thesis
      unfolding heap_take_def heap_elems_def by metis
  qed
  show "heap_front q \<in> heap_elems q \<and> (\<forall>r \<in> heap_elems q. key (heap_front q) \<le> key r)"
    if "heap_ok key q" "heap_elems q \<noteq> {}"
    using that heap_least [of key "slots q"]
    by (auto simp: heap_ok_def heap_elems_def heap_front_def in_set_conv_nth)
qed

end
