(* ===== verification/Writeback_Types.thy ===== *)
theory Writeback_Types
  imports Extents Record_Heap "HOL-Library.AList"
begin

text \<open>
  The data of the write-back buffer: \<^verbatim>\<open>src/vcs/internal/writeback/types.go\<close> and the structures
  at the head of \<^verbatim>\<open>buffer.go\<close> and \<^verbatim>\<open>flush.go\<close>.

  Accepted operations live in an arena of records linked into one queue per file. A record
  is named by its accepted sequence number, which is never used twice, so the arena is a
  function from sequence numbers and a queue is a list of them. The list of the nodes a
  record owns is in the extent arena, its heap position in the heap. The chain of
  truncations of a file is the list of their sequence numbers, oldest first, so that
  \<open>lastTruncate\<close> is its last element. Counters that only grow by one per operation are
  natural numbers; file offsets and sizes are integers with the \<open>int64\<close> bounds written
  where the code checks them.
\<close>

abbreviation DefaultMaxBytes :: int where
  "DefaultMaxBytes \<equiv> 67108864"

abbreviation DefaultMaxEntries :: nat where
  "DefaultMaxEntries \<equiv> 10000"

abbreviation MaxPayload :: nat where
  "MaxPayload \<equiv> 1048576"

abbreviation MaxWaveWidth :: nat where
  "MaxWaveWidth \<equiv> 4"

text \<open>
  The sentinel errors of the package, a recorded errno, and the errors handed in by the
  environment: a cancelled context, the admission check, the flusher and the fetch.
\<close>

datatype wbError =
    ErrClosed | ErrLost | ErrInvalid | ErrPending
  | Errno nat | CtxErr | CheckErr nat | FlushErr nat | FetchErr nat

type_synonym Identity = "128 word"

datatype Kind = Write | Truncate | SetAttr

datatype State = Accepted | Applied | Visible | Durable | Lost

record Attributes =
  a_Mode :: "32 word"
  a_UID :: "32 word"
  a_GID :: "32 word"
  a_Size :: int
  a_ATimeNS :: int
  a_MTimeNS :: int
  a_HasMode :: bool
  a_HasUID :: bool
  a_HasGID :: bool
  a_HasSize :: bool
  a_HasATime :: bool
  a_HasMTime :: bool
  a_ATimeNow :: bool
  a_MTimeNow :: bool
  a_CTimeNS :: int
  a_HasCTime :: bool

definition noAttributes :: Attributes where
  "noAttributes = \<lparr>a_Mode = 0, a_UID = 0, a_GID = 0, a_Size = 0, a_ATimeNS = 0, a_MTimeNS = 0,
     a_HasMode = False, a_HasUID = False, a_HasGID = False, a_HasSize = False, a_HasATime = False,
     a_HasMTime = False, a_ATimeNow = False, a_MTimeNow = False, a_CTimeNS = 0, a_HasCTime = False\<rparr>"

record Cut =
  c_Sequence :: nat
  c_LossSequence :: nat

text \<open>A barrier cut names its registered state; \<open>None\<close> is the nil pointer of the zero value.\<close>

record BarrierCut =
  bc_Cut :: Cut
  bc_state :: "nat option"

record WriteOptions =
  w_Flags :: "32 word"
  w_LockOwner :: u64
  w_KillPrivileges :: bool

definition noOptions :: WriteOptions where
  "noOptions = \<lparr>w_Flags = 0, w_LockOwner = 0, w_KillPrivileges = False\<rparr>"

text \<open>A nil \<open>Data\<close> or \<open>Segments\<close> slice is the empty list.\<close>

record Entry =
  e_Token :: nat
  e_First :: nat
  e_Last :: nat
  e_Generation :: nat
  e_AppliedThrough :: nat
  e_Kind :: Kind
  e_Offset :: int
  e_Data :: "byte list"
  e_Segments :: "byte list list"
  e_Attributes :: Attributes
  e_WriteOptions :: WriteOptions

record Options =
  o_InitialLossSequence :: nat
  o_MaxBytes :: int
  o_MaxEntries :: int
  o_MaxFlushIdentities :: int

record Stats =
  st_WaitingAdmissions :: nat
  st_Bytes :: int
  st_AcceptedBytes :: int
  st_Entries :: nat
  st_Accepted :: nat
  st_Applied :: nat
  st_Visible :: nat
  st_Identities :: nat
  st_Flushing :: nat
  st_Scheduled :: nat
  st_LossSequence :: nat

record DropReport =
  d_Errno :: nat
  d_Identity :: Identity
  d_Reason :: string
  d_Bytes :: int
  d_Entries :: nat
  d_LossSequence :: nat

record wrec =
  r_inOverlay :: bool
  r_generation :: nat
  r_applied :: nat
  r_acceptedAt :: int
  r_kind :: Kind
  r_off :: int
  r_data :: "byte list"
  r_attrs :: Attributes
  r_writeOptions :: WriteOptions
  r_state :: State
  r_file :: Identity

text \<open>A slot of the record arena that is on the free list.\<close>

definition blankRecord :: wrec where
  "blankRecord = \<lparr>r_inOverlay = False, r_generation = 0, r_applied = 0, r_acceptedAt = 0, r_kind = Write,
     r_off = 0, r_data = [], r_attrs = noAttributes, r_writeOptions = noOptions, r_state = Lost, r_file = 0\<rparr>"

record batch =
  p_completedLast :: "nat option"
  p_endOffset :: nat
  p_entries :: "Entry list"
  p_first :: nat
  p_applied :: nat

text \<open>
  A file: \<open>f_queue\<close> is the list from \<open>head\<close> to \<open>tail\<close>. A pending batch always lives in
  \<open>batchStorage\<close>, so the pointer is an option.
\<close>

record bfile =
  f_flushOffset :: nat
  f_generation :: nat
  f_retiring :: bool
  f_queue :: "nat list"
  f_extents :: extent
  f_size :: int
  f_exact :: bool
  f_lastLoss :: nat
  f_lastErrno :: nat
  f_lastGenericLoss :: nat
  f_lost :: bool
  f_flushUsers :: nat
  f_flushing :: bool
  f_pending :: "batch option"
  f_truncates :: "nat list"
  f_accepted :: "nat option"
  f_lastApplied :: nat
  f_scheduled :: bool
  f_reschedule :: bool

record barrierState =
  bs_cut :: Cut
  bs_lost :: bool
  bs_generic :: bool
  bs_errno :: nat

definition noBarrier :: barrierState where
  "noBarrier = \<lparr>bs_cut = \<lparr>c_Sequence = 0, c_LossSequence = 0\<rparr>, bs_lost = False, bs_generic = False, bs_errno = 0\<rparr>"

text \<open>
  The buffer. \<open>b_changed\<close> says that somebody waits on the change channel, \<open>b_kick\<close> that the
  one-slot kick channel is full, \<open>b_cancelled\<close> that the background context was cancelled and
  \<open>b_done\<close> that the scheduler has returned. \<open>b_barriers\<close> are the registered barrier states, named
  by numbers, and \<open>b_barrierStates\<close> the states themselves. \<open>b_free\<close> is the length of the free list of records.
\<close>

record Buffer =
  b_batchWidth :: nat
  b_batchPayload :: nat
  b_maxFlushIdentities :: nat
  b_waitingAdmissions :: nat
  b_files :: "(Identity \<times> bfile) list"
  b_active :: "Identity list"
  b_appliedHeap :: recordHeap
  b_visibleHeap :: recordHeap
  b_records :: "nat \<Rightarrow> wrec"
  b_free :: nat
  b_pool :: extentPool
  b_bytes :: int
  b_count :: nat
  b_maxBytes :: int
  b_maxEntries :: nat
  b_sequence :: nat
  b_loss :: nat
  b_token :: nat
  b_visible :: nat
  b_durable :: nat
  b_lastErrno :: nat
  b_lastGenericLoss :: nat
  b_barriers :: "nat list"
  b_barrierStates :: "nat \<Rightarrow> barrierState"
  b_nextBarrier :: nat
  b_changed :: bool
  b_retiringAll :: bool
  b_stopped :: bool
  b_kick :: bool
  b_cancelled :: bool
  b_done :: bool

record Retirement =
  rt_files :: "Identity list"
  rt_all :: bool
  rt_cut :: Cut
  rt_resumed :: bool
  rt_detached :: bool

end
