(* ===== verification/Writeback_Buffer.thy ===== *)
theory Writeback_Buffer
  imports Writeback_Types
begin

text \<open>
  The operations of \<^verbatim>\<open>src/vcs/internal/writeback/buffer.go\<close>. A method that runs under the buffer
  mutex is a function on the buffer. A method that may wait is the body of its loop: it
  either returns or says that the caller waits on the change channel, and the loop runs the
  body again after the channel was closed. The result \<open>None\<close> is a panic: the record arena or
  the extent arena is exhausted, or an index is out of range. What the environment decides is
  an argument: the error of the caller's context, the outcome of the admission check, the clock.
\<close>

section \<open>Construction\<close>

definition New :: "nat \<Rightarrow> nat \<Rightarrow> Options \<Rightarrow> wbError + Buffer" where
  "New width payload opts =
     (if o_MaxBytes opts < 0 \<or> o_MaxEntries opts < 0 \<or> o_MaxFlushIdentities opts < 0 then Inl ErrInvalid
      else
        (let maxBytes = (if o_MaxBytes opts = 0 then DefaultMaxBytes else o_MaxBytes opts);
             maxEntries = (if o_MaxEntries opts = 0 then DefaultMaxEntries else nat (o_MaxEntries opts));
             maxFlush = (if o_MaxFlushIdentities opts = 0 then 16 else nat (o_MaxFlushIdentities opts)) in
         if width = 0 \<or> width > MaxWaveWidth \<or> payload = 0 \<or> payload > MaxPayload then Inl ErrInvalid
         else Inr \<lparr>b_batchWidth = width, b_batchPayload = payload, b_maxFlushIdentities = maxFlush,
           b_waitingAdmissions = 0, b_files = [], b_active = [], b_appliedHeap = emptyHeap,
           b_visibleHeap = emptyHeap, b_records = (\<lambda>_. blankRecord), b_free = maxEntries,
           b_pool = newExtentPool (2 * maxEntries + 2), b_bytes = 0, b_count = 0, b_maxBytes = maxBytes,
           b_maxEntries = maxEntries, b_sequence = 0, b_loss = o_InitialLossSequence opts, b_token = 0,
           b_visible = 0, b_durable = 0, b_lastErrno = 0, b_lastGenericLoss = 0, b_barriers = [], b_barrierStates = (\<lambda>_. noBarrier),
           b_nextBarrier = 0, b_changed = False, b_retiringAll = False, b_stopped = False, b_kick = False,
           b_cancelled = False, b_done = False\<rparr>))"

section \<open>Files, signals\<close>

definition newFile :: bfile where
  "newFile = \<lparr>f_flushOffset = 0, f_generation = 1, f_retiring = False, f_queue = [], f_extents = ENil,
     f_size = 0, f_exact = False, f_lastLoss = 0, f_lastErrno = 0, f_lastGenericLoss = 0, f_lost = False,
     f_flushUsers = 0, f_flushing = False, f_pending = None, f_truncates = [], f_accepted = None,
     f_lastApplied = 0, f_scheduled = False, f_reschedule = False\<rparr>"

definition file_at :: "Buffer \<Rightarrow> Identity \<Rightarrow> bfile option" where
  "file_at b fid = map_of (b_files b) fid"

definition put_file :: "Identity \<Rightarrow> bfile \<Rightarrow> Buffer \<Rightarrow> Buffer" where
  "put_file fid f b = b\<lparr>b_files := AList.update fid f (b_files b)\<rparr>"

definition get_file :: "Buffer \<Rightarrow> Identity \<Rightarrow> bfile \<times> Buffer" where
  "get_file b fid = (case file_at b fid of Some f \<Rightarrow> (f, b) | None \<Rightarrow> (newFile, put_file fid newFile b))"

text \<open>An update of a file reached through a pointer; the file stays reachable by its identity.\<close>

definition mod_file :: "Identity \<Rightarrow> (bfile \<Rightarrow> bfile) \<Rightarrow> Buffer \<Rightarrow> Buffer" where
  "mod_file fid g b = (case file_at b fid of Some f \<Rightarrow> put_file fid (g f) b | None \<Rightarrow> b)"

definition signal :: "Buffer \<Rightarrow> Buffer" where
  "signal b = b\<lparr>b_changed := False\<rparr>"

definition change :: "Buffer \<Rightarrow> Buffer" where
  "change b = b\<lparr>b_changed := True\<rparr>"

definition trigger :: "Buffer \<Rightarrow> Buffer" where
  "trigger b = b\<lparr>b_kick := True\<rparr>"

definition Snapshot :: "Buffer \<Rightarrow> Cut" where
  "Snapshot b = \<lparr>c_Sequence = b_sequence b, c_LossSequence = b_loss b\<rparr>"

section \<open>The overlay\<close>

definition sizeLocked :: "(nat \<Rightarrow> wrec) \<Rightarrow> bfile \<Rightarrow> bfile" where
  "sizeLocked recs f =
     (let size = extentEnd (f_extents f) in
      if f_truncates f \<noteq> []
      then f\<lparr>f_size := max size (a_Size (r_attrs (recs (last (f_truncates f))))), f_exact := True\<rparr>
      else f\<lparr>f_size := size, f_exact := False\<rparr>)"

definition overlay :: "(nat \<Rightarrow> wrec) \<Rightarrow> nat \<Rightarrow> bfile \<Rightarrow> extentPool \<Rightarrow> (bfile \<times> extentPool) option" where
  "overlay recs s f pool =
     (let r = recs s in
      do { (root, pool) \<leftarrow>
             (if r_kind r = Write then
                extent_set (f_extents f) pool (r_off r) (r_off r + int (length (r_data r))) (Some (r_data r)) (Some s)
              else Some (f_extents f, pool));
           let f = f\<lparr>f_extents := root\<rparr>;
           (f, pool) \<leftarrow>
             (if a_HasSize (r_attrs r) then
                (let f = f\<lparr>f_truncates := f_truncates f @ [s]\<rparr> in
                 if a_Size (r_attrs r) < MaxInt64 then
                   do { (root, pool) \<leftarrow> extent_set (f_extents f) pool (a_Size (r_attrs r)) MaxInt64 None (Some s);
                        Some (f\<lparr>f_extents := root\<rparr>, pool) }
                 else Some (f, pool))
              else Some (f, pool));
           Some (sizeLocked recs f, pool) })"

section \<open>Admission\<close>

datatype admitResult =
    Refused wbError
  | Admitted Cut
  | Blocked

definition resolveNow :: "int \<Rightarrow> Attributes \<Rightarrow> Attributes" where
  "resolveNow now a =
     (let a = (if a_ATimeNow a then a\<lparr>a_ATimeNS := now, a_HasATime := True, a_ATimeNow := False\<rparr> else a) in
      if a_MTimeNow a then a\<lparr>a_MTimeNS := now, a_HasMTime := True, a_MTimeNow := False\<rparr> else a)"

definition admissible :: "Buffer \<Rightarrow> bfile \<Rightarrow> byte list \<Rightarrow> bool" where
  "admissible b f data \<longleftrightarrow> \<not> b_retiringAll b \<and> \<not> f_retiring f \<and> b_count b < b_maxEntries b \<and>
     b_bytes b < b_maxBytes b \<and> int (length data) \<le> b_maxBytes b - b_bytes b"

definition accept ::
  "Buffer \<Rightarrow> int \<Rightarrow> Identity \<Rightarrow> bfile \<Rightarrow> Kind \<Rightarrow> int \<Rightarrow> byte list \<Rightarrow> Attributes \<Rightarrow> WriteOptions \<Rightarrow> Buffer option" where
  "accept b now fid f kind off data a opts =
     (if b_free b = 0 then None
      else
        (let s = b_sequence b + 1;
             r = \<lparr>r_inOverlay = True, r_generation = f_generation f, r_applied = 0, r_acceptedAt = now,
               r_kind = kind, r_off = off, r_data = data, r_attrs = resolveNow now a, r_writeOptions = opts,
               r_state = Accepted, r_file = fid\<rparr>;
             recs = (b_records b)(s := r);
             f = f\<lparr>f_queue := f_queue f @ [s],
               f_accepted := (if f_accepted f = None then Some s else f_accepted f)\<rparr> in
         do { (f, pool) \<leftarrow> overlay recs s f (b_pool b);
              let f = (if f_scheduled f \<or> f_flushing f then f\<lparr>f_reschedule := True\<rparr> else f);
              Some (trigger (put_file fid f
                (b\<lparr>b_free := b_free b - 1, b_sequence := s, b_records := recs, b_pool := pool,
                   b_active := (if fid \<in> set (b_active b) then b_active b else b_active b @ [fid]),
                   b_count := b_count b + 1, b_bytes := b_bytes b + int (length data)\<rparr>))) }))"

definition admit ::
  "Buffer \<Rightarrow> wbError option \<Rightarrow> wbError option \<Rightarrow> int \<Rightarrow> Identity \<Rightarrow> nat \<Rightarrow> Kind \<Rightarrow> int \<Rightarrow> byte list \<Rightarrow> Attributes \<Rightarrow>
     WriteOptions \<Rightarrow> (admitResult \<times> Buffer) option" where
  "admit b ctxErr check now fid generation kind off data a opts =
     (case ctxErr of
        Some e \<Rightarrow> Some (Refused e, b)
      | None \<Rightarrow>
          if b_stopped b then Some (Refused ErrClosed, b)
          else
            (case check of
               Some e \<Rightarrow> Some (Refused e, b)
             | None \<Rightarrow>
                 (let (f, b) = get_file b fid in
                  if generation \<noteq> 0 \<and> f_generation f \<noteq> generation then Some (Refused ErrLost, b)
                  else if admissible b f data then
                    do { b \<leftarrow> accept b now fid f kind off data a opts; Some (Admitted (Snapshot b), b) }
                  else
                    (let b = (if b_count b = b_maxEntries b \<or> b_bytes b = b_maxBytes b \<or>
                                 int (length data) > b_maxBytes b - b_bytes b
                              then trigger b else b);
                         b = change b in
                     Some (Blocked, b\<lparr>b_waitingAdmissions := b_waitingAdmissions b + 1\<rparr>)))))"

text \<open>A blocked caller leaves the wait, before it runs the loop again or gives up.\<close>

definition admit_wake :: "Buffer \<Rightarrow> Buffer" where
  "admit_wake b = b\<lparr>b_waitingAdmissions := b_waitingAdmissions b - 1\<rparr>"

definition writeInGeneration ::
  "Buffer \<Rightarrow> wbError option \<Rightarrow> wbError option \<Rightarrow> int \<Rightarrow> Identity \<Rightarrow> nat \<Rightarrow> int \<Rightarrow> byte list \<Rightarrow> WriteOptions \<Rightarrow>
     (admitResult \<times> Buffer) option" where
  "writeInGeneration b ctxErr check now fid generation off data opts =
     (if off < 0 \<or> length data = 0 \<or> int (length data) > MaxInt64 - off \<or> int (length data) > b_maxBytes b
      then Some (Refused ErrInvalid, b)
      else admit b ctxErr check now fid generation Write off data noAttributes opts)"

definition WriteWithOptions where
  "WriteWithOptions b ctxErr check now fid off data opts = writeInGeneration b ctxErr check now fid 0 off data opts"

definition Buffer_Write where
  "Buffer_Write b ctxErr check now fid off data = WriteWithOptions b ctxErr check now fid off data noOptions"

definition WriteInGeneration where
  "WriteInGeneration b ctxErr check now fid generation off data opts =
     (if generation = 0 then Some (Refused ErrInvalid, b)
      else writeInGeneration b ctxErr check now fid generation off data opts)"

definition truncateInGeneration ::
  "Buffer \<Rightarrow> wbError option \<Rightarrow> wbError option \<Rightarrow> int \<Rightarrow> Identity \<Rightarrow> nat \<Rightarrow> int \<Rightarrow> (admitResult \<times> Buffer) option" where
  "truncateInGeneration b ctxErr check now fid generation sz =
     (if sz < 0 then Some (Refused ErrInvalid, b)
      else admit b ctxErr check now fid generation Truncate 0 [] (noAttributes\<lparr>a_Size := sz, a_HasSize := True\<rparr>) noOptions)"

definition Buffer_Truncate where
  "Buffer_Truncate b ctxErr check now fid sz = truncateInGeneration b ctxErr check now fid 0 sz"

definition TruncateInGeneration where
  "TruncateInGeneration b ctxErr check now fid generation sz =
     (if generation = 0 then Some (Refused ErrInvalid, b)
      else truncateInGeneration b ctxErr check now fid generation sz)"

definition setAttrInGeneration ::
  "Buffer \<Rightarrow> wbError option \<Rightarrow> wbError option \<Rightarrow> int \<Rightarrow> Identity \<Rightarrow> nat \<Rightarrow> Attributes \<Rightarrow> (admitResult \<times> Buffer) option" where
  "setAttrInGeneration b ctxErr check now fid generation a =
     (if a_HasCTime a \<or> a_HasSize a \<and> a_Size a < 0 \<or> a_ATimeNow a \<and> a_HasATime a \<or> a_MTimeNow a \<and> a_HasMTime a
      then Some (Refused ErrInvalid, b)
      else admit b ctxErr check now fid generation SetAttr 0 [] a noOptions)"

definition Buffer_SetAttr where
  "Buffer_SetAttr b ctxErr check now fid a = setAttrInGeneration b ctxErr check now fid 0 a"

definition SetAttrInGeneration where
  "SetAttrInGeneration b ctxErr check now fid generation a =
     (if generation = 0 then Some (Refused ErrInvalid, b)
      else setAttrInGeneration b ctxErr check now fid generation a)"

section \<open>Releasing records\<close>

abbreviation appliedKey :: "Buffer \<Rightarrow> nat \<Rightarrow> nat" where
  "appliedKey b \<equiv> \<lambda>s. r_applied (b_records b s)"

definition setState :: "nat \<Rightarrow> State \<Rightarrow> Buffer \<Rightarrow> Buffer" where
  "setState s st b = b\<lparr>b_records := (b_records b)(s := (b_records b s)\<lparr>r_state := st\<rparr>)\<rparr>"

definition leaveHeap :: "Buffer \<Rightarrow> nat \<Rightarrow> Buffer option" where
  "leaveHeap b s =
     (case r_state (b_records b s) of
        Applied \<Rightarrow> do { (_, h) \<leftarrow> heap_take (appliedKey b) s (b_appliedHeap b); Some (b\<lparr>b_appliedHeap := h\<rparr>) }
      | Visible \<Rightarrow> do { (_, h) \<leftarrow> heap_take (appliedKey b) s (b_visibleHeap b); Some (b\<lparr>b_visibleHeap := h\<rparr>) }
      | _ \<Rightarrow> Some b)"

definition release :: "Buffer \<Rightarrow> nat \<Rightarrow> Buffer option" where
  "release b s =
     do { b \<leftarrow> leaveHeap b s;
          let r = b_records b s;
          f \<leftarrow> file_at b (r_file r);
          (root, pool) \<leftarrow> retire (f_extents f) (b_pool b) s;
          let f = f\<lparr>f_extents := root\<rparr>;
          let f = (if r_inOverlay r \<and> a_HasSize (r_attrs r) then f\<lparr>f_truncates := remove1 s (f_truncates f)\<rparr> else f);
          Some (put_file (r_file r) f
            (b\<lparr>b_pool := pool, b_count := b_count b - 1, b_bytes := b_bytes b - int (length (r_data r)),
               b_records := (b_records b)(s := blankRecord), b_free := b_free b + 1\<rparr>)) }"

text \<open>Unlinks the head of a file's queue and releases it.\<close>

definition pop_head :: "Buffer \<Rightarrow> Identity \<Rightarrow> nat \<Rightarrow> Buffer option" where
  "pop_head b fid s = release (mod_file fid (\<lambda>f. f\<lparr>f_queue := tl (f_queue f)\<rparr>) b) s"

definition queue_of :: "Buffer \<Rightarrow> Identity \<Rightarrow> nat list" where
  "queue_of b fid = (case file_at b fid of Some f \<Rightarrow> f_queue f | None \<Rightarrow> [])"

text \<open>The loops that release a prefix of the queue; every round shortens it by one.\<close>

fun release_while :: "nat \<Rightarrow> (Buffer \<Rightarrow> nat \<Rightarrow> bool) \<Rightarrow> Buffer \<Rightarrow> Identity \<Rightarrow> Buffer option" where
  "release_while k P b fid =
     (case queue_of b fid of
        [] \<Rightarrow> Some b
      | s # _ \<Rightarrow>
          if P b s then (case k of 0 \<Rightarrow> None | Suc k \<Rightarrow> do { b \<leftarrow> pop_head b fid s; release_while k P b fid })
          else Some b)"

declare release_while.simps [simp del]

text \<open>What follows a shortened queue: an empty file is not active, and the size is recomputed.\<close>

definition settle_file :: "Identity \<Rightarrow> Buffer \<Rightarrow> Buffer" where
  "settle_file fid b =
     (let b = (if queue_of b fid = [] then b\<lparr>b_active := removeAll fid (b_active b)\<rparr> else b) in
      mod_file fid (sizeLocked (b_records b)) b)"

section \<open>Loss\<close>

definition barrier_drop :: "nat list \<Rightarrow> nat \<Rightarrow> barrierState \<Rightarrow> barrierState" where
  "barrier_drop queue errno st =
     (case queue of
        [] \<Rightarrow> st
      | s # _ \<Rightarrow>
          if s \<le> c_Sequence (bs_cut st) then
            (let st = st\<lparr>bs_lost := True\<rparr> in
             if errno = 0 then st\<lparr>bs_generic := True, bs_errno := 0\<rparr>
             else if \<not> bs_generic st then st\<lparr>bs_errno := errno\<rparr> else st)
          else st)"

fun release_all :: "nat list \<Rightarrow> Buffer \<Rightarrow> int \<Rightarrow> nat \<Rightarrow> (Buffer \<times> int \<times> nat) option" where
  "release_all [] b bytes n = Some (b, bytes, n)"
| "release_all (s # ss) b bytes n =
     (let bytes = bytes + int (length (r_data (b_records b s))) in
      do { b \<leftarrow> release b s; release_all ss b bytes (n + 1) })"

definition dropLocked :: "Buffer \<Rightarrow> Identity \<Rightarrow> string \<Rightarrow> nat \<Rightarrow> (DropReport \<times> Buffer) option" where
  "dropLocked b fid reason errno =
     (let (f, b) = get_file b fid;
          b = b\<lparr>b_barrierStates := (\<lambda>i. if i \<in> set (b_barriers b) then barrier_drop (f_queue f) errno (b_barrierStates b i)
                                    else b_barrierStates b i)\<rparr>;
          loss = b_loss b + 1;
          f = f\<lparr>f_lastLoss := loss, f_lastErrno := errno,
                f_lastGenericLoss := (if errno = 0 then loss else f_lastGenericLoss f), f_lost := True\<rparr>;
          b = b\<lparr>b_loss := loss, b_lastErrno := errno,
                b_lastGenericLoss := (if errno = 0 then loss else b_lastGenericLoss b)\<rparr>;
          (root, pool) = extent_clear (f_extents f) (b_pool b);
          f = f\<lparr>f_extents := root, f_size := 0, f_exact := False\<rparr>;
          b = put_file fid f (b\<lparr>b_pool := pool\<rparr>) in
      do { (b, bytes, n) \<leftarrow> release_all (f_queue f) b 0 0;
           let b = mod_file fid (\<lambda>f. f\<lparr>f_queue := [], f_pending := None, f_flushOffset := 0, f_reschedule := False,
             f_accepted := None, f_truncates := [], f_generation := f_generation f + 1\<rparr>) b;
           let b = b\<lparr>b_active := removeAll fid (b_active b)\<rparr>;
           Some (\<lparr>d_Errno = errno, d_Identity = fid, d_Reason = reason, d_Bytes = bytes, d_Entries = n,
                  d_LossSequence = loss\<rparr>, signal b) })"

definition DropWithErrno where
  "DropWithErrno b fid reason errno = dropLocked b fid reason errno"

definition Drop where
  "Drop b fid reason = DropWithErrno b fid reason 0"

fun drop_each :: "Identity list \<Rightarrow> Buffer \<Rightarrow> string \<Rightarrow> (DropReport list \<times> Buffer) option" where
  "drop_each [] b reason = Some ([], b)"
| "drop_each (fid # ids) b reason =
     (if queue_of b fid \<noteq> [] then
        do { (rep, b) \<leftarrow> dropLocked b fid reason 0;
             (reps, b) \<leftarrow> drop_each ids b reason;
             Some (rep # reps, b) }
      else drop_each ids b reason)"

definition DropAll :: "Buffer \<Rightarrow> string \<Rightarrow> (DropReport list \<times> Buffer) option" where
  "DropAll b reason = drop_each (b_active b) b reason"

section \<open>Barriers\<close>

definition BeginBarrier :: "Buffer \<Rightarrow> nat \<Rightarrow> BarrierCut \<times> Buffer" where
  "BeginBarrier b observedLoss =
     (let ct = Snapshot b;
          lost = (b_loss b > observedLoss);
          generic = (lost \<and> b_lastGenericLoss b > observedLoss);
          st = \<lparr>bs_cut = ct, bs_lost = lost, bs_generic = generic,
                bs_errno = (if lost \<and> \<not> generic then b_lastErrno b else 0)\<rparr>;
          i = b_nextBarrier b in
      (\<lparr>bc_Cut = ct, bc_state = Some i\<rparr>,
       b\<lparr>b_barriers := i # b_barriers b, b_barrierStates := (b_barrierStates b)(i := st), b_nextBarrier := i + 1\<rparr>))"

definition EndBarrier :: "Buffer \<Rightarrow> BarrierCut \<Rightarrow> Buffer" where
  "EndBarrier b ct =
     (case bc_state ct of None \<Rightarrow> b | Some i \<Rightarrow> b\<lparr>b_barriers := removeAll i (b_barriers b)\<rparr>)"

section \<open>Observations\<close>

definition HasRetainedThrough :: "Buffer \<Rightarrow> Identity \<Rightarrow> nat \<Rightarrow> bool" where
  "HasRetainedThrough b fid sequence = (case queue_of b fid of [] \<Rightarrow> False | s # _ \<Rightarrow> s \<le> sequence)"

definition Buffer_Size :: "Buffer \<Rightarrow> Identity \<Rightarrow> int \<Rightarrow> int" where
  "Buffer_Size b fid base =
     (case file_at b fid of
        None \<Rightarrow> base
      | Some f \<Rightarrow> if f_exact f then f_size f else max base (f_size f))"

definition in_state :: "Buffer \<Rightarrow> State \<Rightarrow> nat list" where
  "in_state b st = filter (\<lambda>s. r_state (b_records b s) = st) (concat (map (f_queue \<circ> snd) (b_files b)))"

definition Buffer_Stats :: "Buffer \<Rightarrow> Stats" where
  "Buffer_Stats b =
     \<lparr>st_WaitingAdmissions = b_waitingAdmissions b, st_Bytes = b_bytes b,
      st_AcceptedBytes = sum_list (map (\<lambda>s. int (length (r_data (b_records b s)))) (in_state b Accepted)),
      st_Entries = b_count b, st_Accepted = length (in_state b Accepted),
      st_Applied = length (in_state b Applied), st_Visible = length (in_state b Visible),
      st_Identities = length (b_files b), st_Flushing = length (filter (f_flushing \<circ> snd) (b_files b)),
      st_Scheduled = length (filter (f_scheduled \<circ> snd) (b_files b)), st_LossSequence = b_loss b\<rparr>"

definition LossSequence :: "Buffer \<Rightarrow> nat" where
  "LossSequence b = b_loss b"

definition isLost :: "Buffer \<Rightarrow> Identity \<Rightarrow> bool" where
  "isLost b fid = (case file_at b fid of None \<Rightarrow> False | Some f \<Rightarrow> f_lost f)"

definition ClearLost :: "Buffer \<Rightarrow> Identity \<Rightarrow> bool \<times> Buffer" where
  "ClearLost b fid =
     (case file_at b fid of None \<Rightarrow> (False, b) | Some f \<Rightarrow> (f_lost f, put_file fid (f\<lparr>f_lost := False\<rparr>) b))"

definition IdentityLoss :: "Buffer \<Rightarrow> Identity \<Rightarrow> nat" where
  "IdentityLoss b fid = (case file_at b fid of None \<Rightarrow> 0 | Some f \<Rightarrow> f_lastLoss f)"

definition HasRetained :: "Buffer \<Rightarrow> Identity \<Rightarrow> bool" where
  "HasRetained b fid = (queue_of b fid \<noteq> [])"

definition RetainedGeneration :: "Buffer \<Rightarrow> Identity \<Rightarrow> nat \<times> bool" where
  "RetainedGeneration b fid =
     (case file_at b fid of
        None \<Rightarrow> (0, False)
      | Some f \<Rightarrow> (case f_queue f of [] \<Rightarrow> (f_generation f, False) | s # _ \<Rightarrow> (r_generation (b_records b s), True)))"

definition Quiescent :: "Buffer \<Rightarrow> Identity \<Rightarrow> bool" where
  "Quiescent b fid =
     (case file_at b fid of
        None \<Rightarrow> True
      | Some f \<Rightarrow> f_queue f = [] \<and> f_flushUsers f = 0 \<and> \<not> f_flushing f \<and> \<not> f_scheduled f \<and> f_pending f = None)"

definition IdentityFailure :: "Buffer \<Rightarrow> Identity \<Rightarrow> nat \<Rightarrow> nat \<times> nat" where
  "IdentityFailure b fid observed =
     (case file_at b fid of
        None \<Rightarrow> (0, 0)
      | Some f \<Rightarrow> if f_lastGenericLoss f > observed \<or> f_lastLoss f \<le> observed then (f_lastLoss f, 0)
                 else (f_lastLoss f, f_lastErrno f))"

definition ErrnoSince :: "Buffer \<Rightarrow> nat \<Rightarrow> nat" where
  "ErrnoSince b observed = (if b_loss b > observed \<and> b_lastGenericLoss b \<le> observed then b_lastErrno b else 0)"

definition Generation :: "Buffer \<Rightarrow> Identity \<Rightarrow> nat \<times> Buffer" where
  "Generation b fid = (let (f, b) = get_file b fid in (f_generation f, b))"

section \<open>Stopping, forgetting\<close>

definition FenceAdmissions :: "Buffer \<Rightarrow> Buffer" where
  "FenceAdmissions b = signal (b\<lparr>b_stopped := True\<rparr>)"

text \<open>The part of \<open>Stop\<close> and \<open>StopContext\<close> before they join the scheduler.\<close>

definition Stop :: "Buffer \<Rightarrow> Buffer" where
  "Stop b = (FenceAdmissions b)\<lparr>b_cancelled := True\<rparr>"

definition ReleaseStorage :: "Buffer \<Rightarrow> wbError option \<times> Buffer" where
  "ReleaseStorage b =
     (if \<not> b_done b \<or> b_count b \<noteq> 0 \<or> (\<exists>(fid, f) \<in> set (b_files b). f_flushing f \<or> f_flushUsers f \<noteq> 0)
      then (Some ErrInvalid, b)
      else (None, b\<lparr>b_files := map (\<lambda>(fid, f). (fid, f\<lparr>f_extents := ENil, f_scheduled := False\<rparr>)) (b_files b),
        b_records := (\<lambda>_. blankRecord), b_free := 0, b_appliedHeap := emptyHeap, b_visibleHeap := emptyHeap,
        b_pool := newExtentPool 0\<rparr>))"

definition Forget :: "Buffer \<Rightarrow> Identity \<Rightarrow> bool \<times> Buffer" where
  "Forget b fid =
     (case file_at b fid of
        None \<Rightarrow> (True, b)
      | Some f \<Rightarrow>
          if f_queue f \<noteq> [] \<or> f_retiring f \<or> f_flushUsers f \<noteq> 0 \<or> f_flushing f \<or> f_scheduled f \<or> f_lost f \<or> b_retiringAll b
          then (False, b)
          else (True, b\<lparr>b_files := AList.delete fid (b_files b)\<rparr>))"

section \<open>Background scheduling\<close>

text \<open>
  One pass of the scheduler over the active files: the kick is consumed, and every file that
  has unapplied work and no owner becomes a job with the cut of the scan.
\<close>

fun scan_files :: "Identity list \<Rightarrow> Buffer \<Rightarrow> Identity list \<times> Buffer" where
  "scan_files [] b = ([], b)"
| "scan_files (fid # ids) b =
     (case file_at b fid of
        None \<Rightarrow> scan_files ids b
      | Some f \<Rightarrow>
          if f_scheduled f then scan_files ids b
          else if f_flushing f then
            scan_files ids (if f_accepted f \<noteq> None then put_file fid (f\<lparr>f_reschedule := True\<rparr>) b else b)
          else
            (let f = f\<lparr>f_reschedule := False\<rparr> in
             if f_accepted f = None then scan_files ids (put_file fid f b)
             else (let (jobs, b) = scan_files ids (put_file fid (f\<lparr>f_scheduled := True\<rparr>) b) in (fid # jobs, b))))"

definition schedule_scan :: "Buffer \<Rightarrow> (Identity \<times> Cut) list \<times> Buffer" where
  "schedule_scan b =
     (let ct = Snapshot b;
          (jobs, b) = scan_files (b_active b) (b\<lparr>b_kick := False\<rparr>) in
      (map (\<lambda>fid. (fid, ct)) jobs, b))"

text \<open>What a worker does after its flush returned.\<close>

definition schedule_done :: "Buffer \<Rightarrow> Identity \<Rightarrow> Buffer" where
  "schedule_done b fid =
     (case file_at b fid of
        None \<Rightarrow> b
      | Some f \<Rightarrow>
          if f_reschedule f \<and> f_accepted f \<noteq> None
          then trigger (put_file fid (f\<lparr>f_scheduled := False, f_reschedule := False\<rparr>) b)
          else put_file fid (f\<lparr>f_scheduled := False\<rparr>) b)"

section \<open>Retirement\<close>

datatype retireResult =
    RetireErr wbError
  | RetireWait
  | Retiring Retirement

definition beginRetire :: "Buffer \<Rightarrow> wbError option \<Rightarrow> Identity option \<Rightarrow> bool \<Rightarrow> retireResult \<times> Buffer" where
  "beginRetire b ctxErr idp drain =
     (case ctxErr of
        Some e \<Rightarrow> (RetireErr e, b)
      | None \<Rightarrow>
          if b_stopped b \<and> \<not> drain \<or> drain \<and> b_cancelled b then (RetireErr ErrClosed, b)
          else
            (case idp of
               Some fid \<Rightarrow>
                 (let (f, b) = get_file b fid in
                  if b_retiringAll b \<or> f_retiring f then (RetireWait, change b)
                  else (Retiring \<lparr>rt_files = [fid], rt_all = False, rt_cut = Snapshot b, rt_resumed = False, rt_detached = False\<rparr>,
                    put_file fid (f\<lparr>f_retiring := True\<rparr>) b))
             | None \<Rightarrow>
                 if b_retiringAll b \<or> (\<exists>(fid, f) \<in> set (b_files b). f_retiring f) then (RetireWait, change b)
                 else (Retiring \<lparr>rt_files = map fst (b_files b), rt_all = True, rt_cut = Snapshot b, rt_resumed = False, rt_detached = False\<rparr>,
                   b\<lparr>b_retiringAll := True, b_files := map (\<lambda>(fid, f). (fid, f\<lparr>f_retiring := True\<rparr>)) (b_files b)\<rparr>)))"

definition BeginRetire where
  "BeginRetire b ctxErr idp = beginRetire b ctxErr idp False"

definition BeginDrainRetire where
  "BeginDrainRetire b ctxErr idp = beginRetire (FenceAdmissions b) ctxErr idp True"

definition unapplied :: "Buffer \<Rightarrow> Cut \<Rightarrow> Identity \<Rightarrow> bool" where
  "unapplied b ct fid =
     (case file_at b fid of
        None \<Rightarrow> False
      | Some f \<Rightarrow> (case f_accepted f of None \<Rightarrow> False | Some s \<Rightarrow> s \<le> c_Sequence ct))"

definition reopen :: "(bfile \<Rightarrow> bfile) \<Rightarrow> Retirement \<Rightarrow> Buffer \<Rightarrow> Buffer" where
  "reopen g r b =
     (let b = fold (\<lambda>fid. mod_file fid g) (rt_files r) b in
      signal (if rt_all r then b\<lparr>b_retiringAll := False\<rparr> else b))"

definition Resume :: "Buffer \<Rightarrow> Retirement \<Rightarrow> wbError option \<times> Retirement \<times> Buffer" where
  "Resume b r =
     (if rt_resumed r then (None, r, b)
      else if list_ex (unapplied b (rt_cut r)) (rt_files r) then (Some ErrPending, r, b)
      else (None, r\<lparr>rt_resumed := True\<rparr>,
        reopen (\<lambda>f. f\<lparr>f_retiring := False, f_generation := f_generation f + 1\<rparr>) r b))"

definition recordedLossError :: "nat \<Rightarrow> wbError" where
  "recordedLossError errno = (if errno \<noteq> 0 then Errno errno else ErrLost)"

definition detach_file :: "Identity \<Rightarrow> Buffer \<Rightarrow> Buffer" where
  "detach_file fid b =
     (case file_at b fid of
        None \<Rightarrow> b
      | Some f \<Rightarrow>
          (let (root, pool) = extent_clear (f_extents f) (b_pool b) in
           put_file fid (f\<lparr>f_extents := root, f_truncates := [], f_size := 0, f_exact := False\<rparr>)
             (b\<lparr>b_pool := pool,
                b_records := (\<lambda>s. if s \<in> set (f_queue f) then (b_records b s)\<lparr>r_inOverlay := False\<rparr> else b_records b s)\<rparr>)))"

definition detach_error :: "Buffer \<Rightarrow> Cut \<Rightarrow> Identity \<Rightarrow> wbError option" where
  "detach_error b ct fid =
     (case file_at b fid of
        None \<Rightarrow> None
      | Some f \<Rightarrow> if \<not> f_retiring f then Some ErrInvalid else if unapplied b ct fid then Some ErrPending else None)"

definition DetachOverlay :: "Buffer \<Rightarrow> Retirement \<Rightarrow> wbError option \<times> Retirement \<times> Buffer" where
  "DetachOverlay b r =
     (if rt_resumed r then (Some ErrInvalid, r, b)
      else
        (case filter (\<lambda>e. e \<noteq> None) (map (detach_error b (rt_cut r)) (rt_files r)) of
           e # _ \<Rightarrow> (e, r, b)
         | [] \<Rightarrow> (None, r\<lparr>rt_detached := True\<rparr>, fold detach_file (rt_files r) b)))"

definition Cancel :: "Buffer \<Rightarrow> Retirement \<Rightarrow> Retirement \<times> Buffer" where
  "Cancel b r =
     (if rt_resumed r \<or> rt_detached r then (r, b)
      else (r\<lparr>rt_resumed := True\<rparr>, reopen (\<lambda>f. f\<lparr>f_retiring := False\<rparr>) r b))"

end
