(* ===== verification/Writeback_Flush.thy ===== *)
theory Writeback_Flush
  imports Writeback_Buffer
begin

text \<open>
  Application and durability: \<^verbatim>\<open>src/vcs/internal/writeback/wave.go\<close> forms the waves that are sent,
  \<^verbatim>\<open>flush.go\<close> sends them and follows the acknowledgements, and \<^verbatim>\<open>read.go\<close> reads through the
  overlay.

  A flush leaves the mutex while the flusher runs, so it is split where it does: entering,
  taking the file, the start of a round, the completion of a round with what the flusher
  returned, and leaving. \<open>FlushIdentity\<close> composes them for a flusher that is a state-passing
  function. Waiting operations are the body of their loop, as in the buffer.
\<close>

section \<open>Waves\<close>

record waveCursor =
  w_rest :: "nat list"
  w_off :: nat
  w_done :: "nat option"

definition eligible :: "(nat \<Rightarrow> wrec) \<Rightarrow> Cut \<Rightarrow> nat \<Rightarrow> WriteOptions \<Rightarrow> nat list \<Rightarrow> bool" where
  "eligible recs ct generation options rest =
     (case rest of
        [] \<Rightarrow> False
      | s # _ \<Rightarrow> s \<le> c_Sequence ct \<and> r_kind (recs s) = Write \<and> r_generation (recs s) = generation \<and>
          r_writeOptions (recs s) = options)"

definition addPiece :: "nat \<Rightarrow> byte list \<Rightarrow> Entry \<Rightarrow> Entry" where
  "addPiece nspans piece entry =
     (if nspans = 0 then entry\<lparr>e_Data := piece\<rparr>
      else
        (let entry = (if e_Segments entry = [] then entry\<lparr>e_Segments := [e_Data entry], e_Data := []\<rparr> else entry) in
         entry\<lparr>e_Segments := e_Segments entry @ [piece]\<rparr>))"

function wave_fill ::
  "(nat \<Rightarrow> wrec) \<Rightarrow> Cut \<Rightarrow> nat \<Rightarrow> WriteOptions \<Rightarrow> nat \<Rightarrow> nat \<Rightarrow> nat \<Rightarrow> Entry \<Rightarrow> waveCursor \<Rightarrow> Entry \<times> waveCursor" where
  "wave_fill recs ct generation options payload nspans used entry cur =
     (let s = hd (w_rest cur); r = recs s; off = w_off cur in
      if eligible recs ct generation options (w_rest cur) \<and> used < payload \<and>
         r_off r + int off = e_Offset entry + int used \<and> nspans < 64
      then
        (let fin = min (length (r_data r)) (off + payload - used);
             piece = take (fin - off) (drop off (r_data r));
             entry = (addPiece nspans piece entry)\<lparr>e_Last := s\<rparr> in
         if fin = length (r_data r)
         then wave_fill recs ct generation options payload (nspans + 1) (used + length piece)
           (entry\<lparr>e_AppliedThrough := s\<rparr>) \<lparr>w_rest = tl (w_rest cur), w_off = 0, w_done = Some s\<rparr>
         else wave_fill recs ct generation options payload (nspans + 1) (used + length piece)
           entry (cur\<lparr>w_off := fin\<rparr>))
      else (entry, cur))"
  by auto
termination
  by (relation "measure (\<lambda>(_, _, _, _, _, nspans, _, _, _). 64 - nspans)") auto

declare wave_fill.simps [simp del]

function wave_entries ::
  "(nat \<Rightarrow> wrec) \<Rightarrow> Cut \<Rightarrow> nat \<Rightarrow> WriteOptions \<Rightarrow> nat \<Rightarrow> nat \<Rightarrow> Entry list \<Rightarrow> nat \<Rightarrow> waveCursor \<Rightarrow>
     Entry list \<times> nat \<times> waveCursor" where
  "wave_entries recs ct generation options width payload entries token cur =
     (if length entries < width \<and> eligible recs ct generation options (w_rest cur) then
        (let token = token + 1;
             s = hd (w_rest cur);
             entry = \<lparr>e_Token = token, e_First = s, e_Last = 0, e_Generation = generation, e_AppliedThrough = 0,
               e_Kind = Write, e_Offset = r_off (recs s) + int (w_off cur), e_Data = [], e_Segments = [],
               e_Attributes = noAttributes, e_WriteOptions = options\<rparr>;
             (entry, cur) = wave_fill recs ct generation options payload 0 0 entry cur in
         wave_entries recs ct generation options width payload (entries @ [entry]) token cur)
      else (entries, token, cur))"
  by auto
termination
  by (relation "measure (\<lambda>(_, _, _, _, width, _, entries, _, _). width - length entries)") auto

declare wave_entries.simps [simp del]

text \<open>The records from the accepted pointer to the tail.\<close>

definition accepted_rest :: "bfile \<Rightarrow> nat list" where
  "accepted_rest f = dropWhile (\<lambda>s. Some s \<noteq> f_accepted f) (f_queue f)"

definition waveLocked :: "Buffer \<Rightarrow> Identity \<Rightarrow> bfile \<Rightarrow> Cut \<Rightarrow> batch option \<times> Buffer" where
  "waveLocked b fid f ct =
     (case accepted_rest f of
        [] \<Rightarrow> (None, b)
      | s # rest \<Rightarrow>
          if s > c_Sequence ct then (None, b)
          else
            (let r = b_records b s in
             if r_kind r \<noteq> Write then
               (let token = b_token b + 1;
                    p = \<lparr>p_completedLast = Some s, p_endOffset = 0, p_entries =
                      [\<lparr>e_Token = token, e_First = s, e_Last = s, e_Generation = r_generation r,
                        e_AppliedThrough = s, e_Kind = r_kind r, e_Offset = 0, e_Data = [], e_Segments = [],
                        e_Attributes = r_attrs r, e_WriteOptions = noOptions\<rparr>], p_first = s, p_applied = 0\<rparr> in
                (Some p, put_file fid (f\<lparr>f_pending := Some p\<rparr>) (b\<lparr>b_token := token\<rparr>)))
             else
               (let (entries, token, cur) =
                      wave_entries (b_records b) ct (r_generation r) (r_writeOptions r) (b_batchWidth b)
                        (b_batchPayload b) [] (b_token b)
                        \<lparr>w_rest = s # rest, w_off = f_flushOffset f, w_done = None\<rparr>;
                    p = \<lparr>p_completedLast = w_done cur, p_endOffset = w_off cur, p_entries = entries,
                      p_first = s, p_applied = 0\<rparr> in
                (Some p, put_file fid (f\<lparr>f_pending := Some p\<rparr>) (b\<lparr>b_token := token\<rparr>)))))"

definition batchLocked :: "Buffer \<Rightarrow> Identity \<Rightarrow> bfile \<Rightarrow> Cut \<Rightarrow> batch option \<times> Buffer" where
  "batchLocked b fid f ct =
     (case f_pending f of
        Some p \<Rightarrow> (if p_first p > c_Sequence ct then None else Some p, b)
      | None \<Rightarrow> waveLocked b fid f ct)"

section \<open>Acknowledgements\<close>

text \<open>The two loops of \<open>advanceLocked\<close>; every round takes one record out of a heap.\<close>

fun make_visible :: "nat \<Rightarrow> Buffer \<Rightarrow> Buffer option" where
  "make_visible k b =
     (if slots (b_appliedHeap b) \<noteq> [] \<and> appliedKey b (slots (b_appliedHeap b) ! 0) \<le> b_visible b then
        (case k of
           0 \<Rightarrow> None
         | Suc k \<Rightarrow>
             do { (s, h) \<leftarrow> heap_remove (appliedKey b) 0 (b_appliedHeap b);
                  let b = setState s Visible (b\<lparr>b_appliedHeap := h\<rparr>);
                  make_visible k (b\<lparr>b_visibleHeap := heap_push (appliedKey b) s (b_visibleHeap b)\<rparr>) })
      else Some b)"

fun make_durable :: "nat \<Rightarrow> Buffer \<Rightarrow> Buffer option" where
  "make_durable k b =
     (if slots (b_visibleHeap b) \<noteq> [] \<and> appliedKey b (slots (b_visibleHeap b) ! 0) \<le> b_durable b then
        (case k of
           0 \<Rightarrow> None
         | Suc k \<Rightarrow>
             do { (s, h) \<leftarrow> heap_remove (appliedKey b) 0 (b_visibleHeap b);
                  let b = setState s Durable (b\<lparr>b_visibleHeap := h\<rparr>);
                  let fid = r_file (b_records b s);
                  b \<leftarrow> release_while (length (queue_of b fid)) (\<lambda>b s. r_state (b_records b s) = Durable) b fid;
                  make_durable k (settle_file fid b) })
      else Some b)"

declare make_visible.simps [simp del] make_durable.simps [simp del]

definition advanceLocked :: "Buffer \<Rightarrow> Buffer option" where
  "advanceLocked b =
     do { b \<leftarrow> make_visible (length (slots (b_appliedHeap b))) b;
          make_durable (length (slots (b_visibleHeap b))) b }"

definition VisibleSequence :: "Buffer \<Rightarrow> nat \<Rightarrow> Buffer option" where
  "VisibleSequence b seq = map_option signal (advanceLocked (b\<lparr>b_visible := max (b_visible b) seq\<rparr>))"

definition DurableSequence :: "Buffer \<Rightarrow> nat \<Rightarrow> Buffer option" where
  "DurableSequence b seq = map_option signal (advanceLocked (b\<lparr>b_durable := max (b_durable b) seq\<rparr>))"

definition file_loss :: "bfile \<Rightarrow> Cut \<Rightarrow> wbError option" where
  "file_loss f ct =
     (if f_lastLoss f > c_LossSequence ct then
        Some (if f_lastGenericLoss f > c_LossSequence ct then ErrLost else recordedLossError (f_lastErrno f))
      else None)"

definition prefix_of :: "bfile \<Rightarrow> Cut \<Rightarrow> nat list" where
  "prefix_of f ct = takeWhile (\<lambda>s. s \<le> c_Sequence ct) (f_queue f)"

definition DurableIdentity :: "Buffer \<Rightarrow> Identity \<Rightarrow> Cut \<Rightarrow> (wbError option \<times> Buffer) option" where
  "DurableIdentity b fid ct =
     (case file_at b fid of
        None \<Rightarrow> Some (None, b)
      | Some f \<Rightarrow>
          (case file_loss f ct of
             Some e \<Rightarrow> Some (Some e, b)
           | None \<Rightarrow>
               if list_ex (\<lambda>s. r_state (b_records b s) = Accepted) (prefix_of f ct) then Some (Some ErrInvalid, b)
               else
                 do { b \<leftarrow> release_while (length (f_queue f)) (\<lambda>b s. s \<le> c_Sequence ct) b fid;
                      Some (None, signal (settle_file fid b)) }))"

section \<open>Flushing one file\<close>

definition flush_enter :: "Buffer \<Rightarrow> Identity \<Rightarrow> Buffer" where
  "flush_enter b fid = (let (f, b) = get_file b fid in put_file fid (f\<lparr>f_flushUsers := f_flushUsers f + 1\<rparr>) b)"

text \<open>Takes the file, or waits while another flush holds it.\<close>

definition flush_acquire :: "Buffer \<Rightarrow> Identity \<Rightarrow> bool \<times> Buffer" where
  "flush_acquire b fid =
     (case file_at b fid of
        None \<Rightarrow> (False, b)
      | Some f \<Rightarrow> if f_flushing f then (False, change b) else (True, put_file fid (f\<lparr>f_flushing := True\<rparr>) b))"

definition flush_exit :: "Buffer \<Rightarrow> Identity \<Rightarrow> Buffer" where
  "flush_exit b fid =
     (case file_at b fid of
        None \<Rightarrow> b
      | Some f \<Rightarrow>
          (let f = f\<lparr>f_flushing := False\<rparr>;
               again = (\<not> f_scheduled f \<and> f_reschedule f \<and> f_accepted f \<noteq> None);
               f = (if again then f\<lparr>f_reschedule := False\<rparr> else f);
               b = signal b;
               b = (if again then trigger b else b) in
           put_file fid (f\<lparr>f_flushUsers := f_flushUsers f - 1\<rparr>) b))"

text \<open>A caller that gave up before it held the file only drops its reference.\<close>

definition flush_abandon :: "Buffer \<Rightarrow> Identity \<Rightarrow> Buffer" where
  "flush_abandon b fid = mod_file fid (\<lambda>f. f\<lparr>f_flushUsers := f_flushUsers f - 1\<rparr>) b"

datatype flushStep =
    FlushReturn nat "wbError option"
  | FlushWave nat nat "Entry list"

definition flush_next :: "Buffer \<Rightarrow> wbError option \<Rightarrow> Identity \<Rightarrow> Cut \<Rightarrow> nat \<Rightarrow> (flushStep \<times> Buffer) option" where
  "flush_next b ctxErr fid ct applied =
     (case ctxErr of
        Some e \<Rightarrow> Some (FlushReturn applied (Some e), b)
      | None \<Rightarrow>
          do { f \<leftarrow> file_at b fid;
               if f_lastLoss f > c_LossSequence ct then
                 (let errno = (if f_lastGenericLoss f > c_LossSequence ct then 0 else f_lastErrno f) in
                  Some (FlushReturn applied (Some (recordedLossError errno)), b))
               else
                 (let applied = max applied (f_lastApplied f);
                      (p, b) = batchLocked b fid f ct in
                  case p of
                    None \<Rightarrow> Some (FlushReturn applied None, b)
                  | Some p \<Rightarrow> Some (FlushWave applied (max (p_applied p) (f_lastApplied f)) (p_entries p), b)) })"

fun check_sequences :: "nat \<Rightarrow> nat list \<Rightarrow> nat option" where
  "check_sequences seq [] = Some seq"
| "check_sequences seq (next # rest) = (if next = 0 \<or> next < seq then None else check_sequences next rest)"

text \<open>Marks the records the wave completed as applied and moves the accepted pointer past them.\<close>

fun apply_records :: "Identity \<Rightarrow> nat \<Rightarrow> nat \<Rightarrow> nat \<Rightarrow> nat list \<Rightarrow> Buffer \<Rightarrow> Buffer" where
  "apply_records fid first applied lastSeq [] b = b"
| "apply_records fid first applied lastSeq (s # rest) b =
     (if s \<le> lastSeq then
        (let b = (if s \<ge> first then
                    (let b = b\<lparr>b_records := (b_records b)(s := (b_records b s)\<lparr>r_applied := applied, r_state := Applied\<rparr>)\<rparr>;
                         b = b\<lparr>b_appliedHeap := heap_push (appliedKey b) s (b_appliedHeap b)\<rparr> in
                     mod_file fid (\<lambda>f. f\<lparr>f_accepted := (case rest of [] \<Rightarrow> None | t # _ \<Rightarrow> Some t)\<rparr>) b)
                  else b) in
         apply_records fid first applied lastSeq rest b)
      else b)"

definition flush_complete ::
  "Buffer \<Rightarrow> Identity \<Rightarrow> Cut \<Rightarrow> nat \<Rightarrow> nat \<Rightarrow> nat \<Rightarrow> nat list \<times> wbError option \<Rightarrow> ((wbError option \<times> nat) \<times> Buffer) option" where
  "flush_complete b fid ct applied floor sent outcome =
     (let (sequences, ferr) = outcome;
          checked = check_sequences floor sequences;
          err = (case ferr of Some e \<Rightarrow> Some e
                 | None \<Rightarrow> if length sequences \<noteq> sent \<or> checked = None then Some ErrInvalid else None);
          seq = (case checked of Some q \<Rightarrow> q | None \<Rightarrow> floor) in
      do { f \<leftarrow> file_at b fid;
           case f_pending f of
             None \<Rightarrow>
               (let errno = (if f_lastGenericLoss f > c_LossSequence ct then 0 else f_lastErrno f) in
                Some ((Some (recordedLossError errno), applied), b))
           | Some p \<Rightarrow>
               (case err of
                  Some e \<Rightarrow> Some ((Some e, applied), b)
                | None \<Rightarrow>
                    if seq = 0 \<or> seq < p_applied p \<or> seq < f_lastApplied f then Some ((Some ErrInvalid, applied), b)
                    else
                      (let pa = max (p_applied p) seq;
                           lastSeq = (case p_completedLast p of None \<Rightarrow> 0 | Some s \<Rightarrow> s);
                           b = put_file fid (f\<lparr>f_lastApplied := seq, f_flushOffset := p_endOffset p\<rparr>) b;
                           b = apply_records fid (p_first p) pa lastSeq (accepted_rest f) b;
                           b = mod_file fid (\<lambda>f. f\<lparr>f_pending := None\<rparr>) b in
                       do { b \<leftarrow> advanceLocked b;
                            Some ((None, max applied seq), signal b) })) })"

text \<open>
  The whole flush of one file when nobody else touches it: \<open>flusher\<close> answers a wave and
  passes its own state on. A round completes at least one byte or one record, so the
  number of bytes and records still accepted bounds the rounds.
\<close>

type_synonym 's flusher = "'s \<Rightarrow> Identity \<Rightarrow> Entry list \<Rightarrow> (nat list \<times> wbError option) \<times> 's"

fun flush_rounds ::
  "nat \<Rightarrow> 's flusher \<Rightarrow> 's \<Rightarrow> Buffer \<Rightarrow> Identity \<Rightarrow> Cut \<Rightarrow> nat \<Rightarrow> ((nat \<times> wbError option) \<times> 's \<times> Buffer) option" where
  "flush_rounds 0 flusher st b fid ct applied = None"
| "flush_rounds (Suc k) flusher st b fid ct applied =
     do { (step, b) \<leftarrow> flush_next b None fid ct applied;
          case step of
            FlushReturn a e \<Rightarrow> Some ((a, e), st, b)
          | FlushWave applied floor entries \<Rightarrow>
              (let (outcome, st) = flusher st fid entries in
               do { ((e, applied), b) \<leftarrow> flush_complete b fid ct applied floor (length entries) outcome;
                    case e of
                      Some e \<Rightarrow> Some ((applied, Some e), st, b)
                    | None \<Rightarrow> flush_rounds k flusher st b fid ct applied }) }"

definition flush_work :: "Buffer \<Rightarrow> Identity \<Rightarrow> nat" where
  "flush_work b fid =
     (case file_at b fid of
        None \<Rightarrow> 0
      | Some f \<Rightarrow> sum_list (map (\<lambda>s. Suc (length (r_data (b_records b s)))) (accepted_rest f)))"

definition FlushIdentity ::
  "'s flusher \<Rightarrow> 's \<Rightarrow> Buffer \<Rightarrow> Identity \<Rightarrow> Cut \<Rightarrow> ((nat \<times> wbError option) \<times> 's \<times> Buffer) option" where
  "FlushIdentity flusher st b fid ct =
     (let (taken, b) = flush_acquire (flush_enter b fid) fid in
      if taken then
        do { (res, st, b) \<leftarrow> flush_rounds (Suc (flush_work b fid)) flusher st b fid ct 0;
             Some (res, st, flush_exit b fid) }
      else None)"

section \<open>Flushing every file\<close>

definition targets :: "Buffer \<Rightarrow> Cut \<Rightarrow> Identity list" where
  "targets b ct =
     filter (\<lambda>fid. case queue_of b fid of [] \<Rightarrow> False | s # _ \<Rightarrow> s \<le> c_Sequence ct) (b_active b)"

text \<open>The workers of the pool visit every target; here they do so one after the other.\<close>

fun flush_each ::
  "'s flusher \<Rightarrow> 's \<Rightarrow> Buffer \<Rightarrow> Identity list \<Rightarrow> Cut \<Rightarrow> nat \<Rightarrow> wbError option \<Rightarrow> ((nat \<times> wbError option) \<times> 's \<times> Buffer) option" where
  "flush_each flusher st b [] ct seq err = Some ((seq, err), st, b)"
| "flush_each flusher st b (fid # fids) ct seq err =
     do { ((q, e), st, b) \<leftarrow> FlushIdentity flusher st b fid ct;
          flush_each flusher st b fids ct (max seq q) (if err = None then e else err) }"

definition flushAll ::
  "'s flusher \<Rightarrow> 's \<Rightarrow> Buffer \<Rightarrow> Cut \<Rightarrow> bool \<Rightarrow> ((nat \<times> wbError option) \<times> 's \<times> Buffer) option" where
  "flushAll flusher st b ct includeLaterLoss =
     do { ((seq, err), st, b) \<leftarrow> flush_each flusher st b (targets b ct) ct 0 None;
          Some ((seq, if err = None \<and> includeLaterLoss \<and> b_loss b > c_LossSequence ct then Some ErrLost else err), st, b) }"

definition FlushAll where
  "FlushAll flusher st b ct = flushAll flusher st b ct True"

definition FlushBarrier where
  "FlushBarrier flusher st b barrier =
     (if bc_state barrier = None then Some ((0, Some ErrInvalid), st, b)
      else flushAll flusher st b (bc_Cut barrier) False)"

section \<open>Waiting\<close>

datatype waitResult =
    WaitReturn "wbError option"
  | WaitMore

definition waitDurable :: "Buffer \<Rightarrow> Identity option \<Rightarrow> Cut \<Rightarrow> waitResult \<times> Buffer" where
  "waitDurable b idp ct =
     (let failed = (case idp of
            Some fid \<Rightarrow> (case file_at b fid of None \<Rightarrow> None | Some f \<Rightarrow> file_loss f ct)
          | None \<Rightarrow> if b_loss b > c_LossSequence ct then
                      Some (if b_lastGenericLoss b > c_LossSequence ct then ErrLost else recordedLossError (b_lastErrno b))
                    else None);
          pending = (case idp of
            Some fid \<Rightarrow> HasRetainedThrough b fid (c_Sequence ct)
          | None \<Rightarrow> list_ex (\<lambda>fid. HasRetainedThrough b fid (c_Sequence ct)) (b_active b)) in
      case failed of
        Some e \<Rightarrow> (WaitReturn (Some e), b)
      | None \<Rightarrow>
          if \<not> pending then (WaitReturn None, b)
          else if b_stopped b then (WaitReturn (Some ErrLost), b)
          else (WaitMore, change b))"

definition WaitVisible :: "Buffer \<Rightarrow> Identity \<Rightarrow> Cut \<Rightarrow> waitResult \<times> Buffer" where
  "WaitVisible b fid ct =
     (case file_at b fid of
        None \<Rightarrow> (WaitReturn None, b)
      | Some f \<Rightarrow>
          (case file_loss f ct of
             Some e \<Rightarrow> (WaitReturn (Some e), b)
           | None \<Rightarrow>
               if \<not> list_ex (\<lambda>s. r_state (b_records b s) \<in> {Accepted, Applied}) (prefix_of f ct) then (WaitReturn None, b)
               else if b_stopped b then (WaitReturn (Some ErrLost), b)
               else (WaitMore, change b)))"

datatype barrierResult =
    BarrierReturn bool "wbError option"
  | BarrierMore

definition WaitBarrier :: "Buffer \<Rightarrow> BarrierCut \<Rightarrow> barrierResult \<times> Buffer" where
  "WaitBarrier b barrier =
     (case bc_state barrier of
        None \<Rightarrow> (BarrierReturn False (Some ErrInvalid), b)
      | Some i \<Rightarrow>
          (let st = b_barrierStates b i in
           if bs_lost st then
             (BarrierReturn True (if \<not> bs_generic st \<and> bs_errno st \<noteq> 0 then Some (Errno (bs_errno st)) else None),
              EndBarrier b barrier)
           else if \<not> list_ex (\<lambda>fid. HasRetainedThrough b fid (c_Sequence (bc_Cut barrier))) (b_active b)
           then (BarrierReturn False None, EndBarrier b barrier)
           else if b_stopped b then (BarrierReturn False (Some ErrLost), EndBarrier b barrier)
           else (BarrierMore, change b)))"

section \<open>Synchronous operations\<close>

text \<open>The flush and the first look at durability of \<open>Fsync\<close> and \<open>WriteSyncWithOptions\<close>.\<close>

definition flush_then_wait ::
  "'s flusher \<Rightarrow> 's \<Rightarrow> Buffer \<Rightarrow> Identity \<Rightarrow> Cut \<Rightarrow> (waitResult \<times> 's \<times> Buffer) option" where
  "flush_then_wait flusher st b fid ct =
     do { ((_, e), st, b) \<leftarrow> FlushIdentity flusher st b fid ct;
          case e of
            Some e \<Rightarrow> Some (WaitReturn (Some e), st, b)
          | None \<Rightarrow> (let (w, b) = waitDurable b (Some fid) ct in Some (w, st, b)) }"

definition Fsync where
  "Fsync flusher st b fid = flush_then_wait flusher st b fid (Snapshot b)"

section \<open>Reading\<close>

definition copyInto :: "byte list \<Rightarrow> nat \<Rightarrow> byte list \<Rightarrow> byte list" where
  "copyInto out k src = take k out @ src @ drop (k + length src) out"

definition applySpan :: "int \<Rightarrow> nat \<Rightarrow> span \<Rightarrow> byte list \<Rightarrow> byte list" where
  "applySpan off n s out =
     (let lo = max off (s_lo s); hi = min (off + int n) (s_hi s) in
      if hi \<le> lo then out
      else
        (case s_data s of
           None \<Rightarrow> copyInto out (nat (lo - off)) (replicate (nat (hi - lo)) 0)
         | Some d \<Rightarrow> copyInto out (nat (lo - off)) (take (nat (hi - lo)) (drop (nat (lo - s_lo s)) d))))"

text \<open>\<open>fetch\<close> reads the Authority; an EOF is a short read without an error.\<close>

definition Read ::
  "Buffer \<Rightarrow> wbError option \<Rightarrow> (int \<Rightarrow> nat \<Rightarrow> wbError + byte list) \<Rightarrow> Identity \<Rightarrow> int \<Rightarrow> int \<Rightarrow> wbError + byte list" where
  "Read b ctxErr fetch fid off len =
     (if off < 0 \<or> len < 0 \<or> len > MaxInt64 - off then Inl ErrInvalid
      else
        (case ctxErr of
           Some e \<Rightarrow> Inl e
         | None \<Rightarrow>
             if len = 0 then Inr []
             else
               (let (sz, exact, dirty) =
                      (case file_at b fid of
                         None \<Rightarrow> (0, False, [])
                       | Some f \<Rightarrow> (f_size f, f_exact f, spans (f_extents f) off (off + len))) in
                if exact \<and> off \<ge> sz then Inr []
                else
                  (let len = (if exact then min len (sz - off) else len) in
                   case fetch off (nat len) of
                     Inl e \<Rightarrow> Inl e
                   | Inr base \<Rightarrow>
                       if int (length base) > len then Inl ErrInvalid
                       else
                         (let n = (if exact then nat len
                                   else if sz > off then max (length base) (nat (min len (sz - off)))
                                   else length base);
                              out = base @ replicate (n - length base) 0 in
                          Inr (fold (applySpan off n) dirty out))))))"

definition overlayRecord :: "wrec \<Rightarrow> Attributes \<Rightarrow> Attributes" where
  "overlayRecord r base =
     (if \<not> r_inOverlay r then base
      else
        (let a = r_attrs r;
             changes = (r_kind r = Write \<or> r_kind r = Truncate);
             base = (if r_kind r = Write \<and> w_KillPrivileges (r_writeOptions r) \<and> a_HasMode base then
                       (let mode = and (a_Mode base) (not 2048);
                            mode = (if and mode 8 \<noteq> 0 then and mode (not 1024) else mode) in
                        base\<lparr>a_Mode := mode, a_HasMode := True\<rparr>)
                     else base);
             base = (if changes \<or> a_HasSize a then
                       base\<lparr>a_MTimeNS := r_acceptedAt r, a_HasMTime := True, a_MTimeNow := False\<rparr> else base);
             base = (if changes \<or> a_HasMode a \<or> a_HasUID a \<or> a_HasGID a \<or> a_HasSize a \<or> a_HasATime a \<or> a_HasMTime a then
                       base\<lparr>a_CTimeNS := r_acceptedAt r, a_HasCTime := True\<rparr> else base);
             base = (if a_HasMode a then base\<lparr>a_Mode := a_Mode a, a_HasMode := True\<rparr> else base);
             base = (if a_HasUID a then base\<lparr>a_UID := a_UID a, a_HasUID := True\<rparr> else base);
             base = (if a_HasGID a then base\<lparr>a_GID := a_GID a, a_HasGID := True\<rparr> else base);
             base = (if a_HasATime a then
                       base\<lparr>a_ATimeNS := a_ATimeNS a, a_HasATime := True, a_ATimeNow := False\<rparr> else base) in
         if a_HasMTime a then base\<lparr>a_MTimeNS := a_MTimeNS a, a_HasMTime := True, a_MTimeNow := False\<rparr> else base))"

definition OverlayAttributes :: "Buffer \<Rightarrow> Identity \<Rightarrow> Attributes \<Rightarrow> Attributes" where
  "OverlayAttributes b fid base =
     (case file_at b fid of
        None \<Rightarrow> base
      | Some f \<Rightarrow>
          (let base = fold (\<lambda>s. overlayRecord (b_records b s)) (f_queue f) base in
           if f_exact f then base\<lparr>a_Size := f_size f, a_HasSize := True\<rparr>
           else if f_size f > a_Size base then base\<lparr>a_Size := f_size f, a_HasSize := True\<rparr>
           else base))"

end
