(* ===== verification/Writeback_Properties.thy ===== *)
theory Writeback_Properties
  imports Writeback_Flush
begin

text \<open>
  The properties of the containers of the write-back buffer: the extent map as a function
  on offsets, its balance, and the indexed heap.
\<close>

section \<open>The extent map\<close>

definition exPool :: extentPool where
  "exPool = newExtentPool 6"

text \<open>A map with one interval of four bytes of record 1 at offset 10.\<close>

definition exMap :: "extent \<times> extentPool" where
  "exMap = the (extent_set ENil exPool 10 14 (Some [1, 2, 3, 4]) (Some 1))"

lemma exMap_eq: "exMap =
   (ENode ENil \<lparr>x_lo = 10, x_hi = 14, x_data = Some [1, 2, 3, 4], x_owner = Some 1\<rparr> 1 14 ENil,
    \<lparr>pool_free = 5, owned = (\<lambda>_. [])(1 := [10])\<rparr>)"
  by (simp add: exMap_def exPool_def newExtentPool_def extent_set_def insert_piece_def pool_get_def)

text \<open>
  C15. Setting a range of the extent map is function update on offsets: inside the range the
  map shows the new owner and bytes (or the zero mask), outside it is unchanged. The tree stays
  ordered, disjoint, balanced and exactly augmented, no node is lost, the owner lists follow the
  tree, and the operation never finds the arena empty while the interval ends fit it.
\<close>

theorem extent_set_refines:
  assumes "tree_ok t" "owns t p" "roomy E t p" "0 \<le> lo" "lo < hi" "lo \<in> E" "hi \<in> E"
    "\<forall>d. data = Some d \<longrightarrow> int (length d) = hi - lo"
  shows "\<exists>t' p'. extent_set t p lo hi data own = Some (t', p') \<and> tree_ok t' \<and> owns t' p' \<and> roomy E t' p' \<and>
    pool_free p' + size t' = pool_free p + size t \<and>
    (\<forall>x. content t' x = (if lo \<le> x \<and> x < hi
       then Some (own, map_option (\<lambda>d. d ! nat (x - lo)) data) else content t x))"
proof -
  obtain t' p' where "extent_set t p lo hi data own = Some (t', p')" "tree_ok t'"
    "conserved t p t' p'" "roomy E t' p'"
    "\<forall>x. content t' x = (if lo \<le> x \<and> x < hi
       then Some (own, map_option (\<lambda>d. d ! nat (x - lo)) data) else content t x)"
    by (rule extent_set_ok [OF assms, of own]) (rule that, assumption+)
  then show ?thesis using assms(2) conserved_owns conserved_total by blast
qed

lemma exMap_ok: "tree_ok (fst exMap)" "owns (fst exMap) (snd exMap)" "roomy {10, 12, 14, 16} (fst exMap) (snd exMap)"
  by (simp_all add: exMap_eq tree_ok_def ordered_def piece_wf_def owns_def los_def roomy_def ends_def)

theorem extent_set_refines_witness:
  "\<exists>t' p'. extent_set (fst exMap) (snd exMap) 12 16 (Some [7, 8, 9, 10]) (Some 2) = Some (t', p') \<and>
     content t' 11 = Some (Some 1, Some 2) \<and> content t' 13 = Some (Some 2, Some 8) \<and> pool_free p' + size t' = 6"
proof -
  have c: "content (fst exMap) 11 = Some (Some 1, Some 2)"
    by (simp add: exMap_eq content_def holds_def cell_def)
  obtain t' p' where "extent_set (fst exMap) (snd exMap) 12 16 (Some [7, 8, 9, 10]) (Some 2) = Some (t', p')"
    "pool_free p' + size t' = pool_free (snd exMap) + size (fst exMap)"
    "\<forall>x. content t' x = (if 12 \<le> x \<and> x < 16
       then Some (Some 2, map_option (\<lambda>d. d ! nat (x - 12)) (Some [7, 8, 9, 10])) else content (fst exMap) x)"
    using extent_set_refines [OF exMap_ok, of 12 16 "Some [7, 8, 9, 10]" "Some 2"] by auto
  then show ?thesis using c by (simp add: exMap_eq)
qed

text \<open>
  C16. Retiring a record takes out exactly the bytes it still owns: every other offset keeps its
  cell, the nodes return to the arena, and the record's owner list is empty afterwards.
\<close>

theorem retire_exact:
  assumes "tree_ok t" "owns t p" "mset (owned p r) = los t r"
  shows "\<exists>t' p'. retire t p r = Some (t', p') \<and> tree_ok t' \<and> owns t' p' \<and> owned p' r = [] \<and>
    pool_free p' + size t' = pool_free p + size t \<and>
    (\<forall>x. content t' x = (case content t x of
       Some (ow, v) \<Rightarrow> if ow = Some r then None else Some (ow, v) | None \<Rightarrow> None))"
proof -
  obtain t' p' where "retire t p r = Some (t', p')" "tree_ok t'" "conserved t p t' p'" "owned p' r = []"
    "\<forall>x. content t' x = (case content t x of Some (ow, b) \<Rightarrow> if ow = Some r then None else Some (ow, b) | None \<Rightarrow> None)"
    by (rule retire_ok [OF assms]) (rule that, assumption+)
  then show ?thesis using assms(2) conserved_owns conserved_total by blast
qed

theorem retire_exact_witness:
  "\<exists>t' p'. retire (fst exMap) (snd exMap) 1 = Some (t', p') \<and> content t' 12 = None \<and> owned p' 1 = []"
proof -
  have "mset (owned (snd exMap) 1) = los (fst exMap) 1" by (simp add: exMap_eq los_def)
  moreover have "content (fst exMap) 12 = Some (Some 1, Some 3)"
    by (simp add: exMap_eq content_def holds_def cell_def)
  ultimately show ?thesis using retire_exact [OF exMap_ok(1,2), of 1] by auto
qed

text \<open>
  C17. The trees stay shallow: after any sequence of \<open>set\<close>, \<open>retire\<close> and \<open>clear\<close> on any of the files
  that share an arena of \<open>cap\<close> nodes, the height stored in the root of a file is the real depth of its
  tree, a tree of depth \<open>h\<close> has at least \<open>2 ^ (h div 2) - 1\<close> intervals, and these and the free nodes fit
  the arena, so a descent visits at most about \<open>2 log cap\<close> nodes.
\<close>

theorem extent_depth_bound:
  assumes "arena_reach cap m p"
  shows "height (m i) = int (depth (m i)) \<and> 2 ^ (depth (m i) div 2) \<le> Suc (size (m i)) \<and> size (m i) + pool_free p \<le> cap"
proof -
  have "avl (m i)" "pool_free p + (\<Sum>j\<in>{i}. size (m j)) \<le> cap"
    using arena_reach_ok [OF assms] unfolding arena_ok_def by blast+
  then show ?thesis using avl_size [of "m i"] by (simp add: height_depth)
qed

text \<open>Three intervals set in ascending order on file 0 force a rotation: the depth is two.\<close>

definition exRise :: "extent \<times> extentPool" where
  "exRise = the (do { (t, p) \<leftarrow> extent_set ENil exPool 0 1 (Some [1]) (Some 1);
     (t, p) \<leftarrow> extent_set t p 1 2 (Some [2]) (Some 2); extent_set t p 2 3 (Some [3]) (Some 3) })"

theorem extent_depth_bound_witness:
  "arena_reach 6 ((\<lambda>_. ENil)(0 := fst exRise)) (snd exRise) \<and> depth (fst exRise) = 2 \<and> size (fst exRise) = 3 \<and>
   height (fst exRise) = int (depth (fst exRise))"
proof -
  obtain t1 p1 t2 p2 where e: "extent_set ENil exPool 0 1 (Some [1]) (Some 1) = Some (t1, p1)"
    "extent_set t1 p1 1 2 (Some [2]) (Some 2) = Some (t2, p2)" "extent_set t2 p2 2 3 (Some [3]) (Some 3) = Some exRise"
    "depth (fst exRise) = 2" "size (fst exRise) = 3"
    by (simp add: exRise_def exPool_def newExtentPool_def extent_set_def insert_piece_def pool_get_def balance.simps Let_def)
  have "arena_reach 6 ((\<lambda>_. ENil)(0 := t1)) p1"
    using arena_reach.set [OF arena_reach.fresh] e(1) by (simp add: exPool_def)
  from arena_reach.set [OF this, of 0] e(2) have "arena_reach 6 ((\<lambda>_. ENil)(0 := t2)) p2" by fastforce
  from arena_reach.set [OF this, of 0] e(3) have "arena_reach 6 ((\<lambda>_. ENil)(0 := fst exRise)) (snd exRise)"
    by (cases exRise) fastforce
  then show ?thesis using extent_depth_bound [of 6 _ "snd exRise" 0] e(4,5) by fastforce
qed

section \<open>The indexed heap\<close>

text \<open>
  C18. Removing a record from the middle of a heap by the position it stores takes out exactly
  that record and keeps the heap order and every stored position right, so the front is still a
  record with the least applied sequence.
\<close>

theorem heap_remove_any:
  assumes "heap_ok key h" "r \<in> set (slots h)"
  shows "\<exists>h'. heap_remove key (heapIndex h r) h = Some (r, h') \<and> heap_ok key h' \<and>
    set (slots h') = set (slots h) - {r} \<and>
    (slots h' \<noteq> [] \<longrightarrow> (\<forall>q \<in> set (slots h'). key (slots h' ! 0) \<le> key q))"
proof -
  obtain h' where h': "heap_take key r h = Some (r, h')" "heap_ok key h'" "heap_elems h' = heap_elems h - {r}"
    using hq.take_out [OF assms(1)] assms(2) by (auto simp: heap_elems_def)
  moreover have "\<forall>q \<in> set (slots h'). key (slots h' ! 0) \<le> key q" if "slots h' \<noteq> []"
    using hq.front [OF h'(2)] that by (simp add: heap_elems_def heap_front_def)
  ultimately show ?thesis by (auto simp: heap_take_def heap_elems_def)
qed

definition exHeap :: recordHeap where
  "exHeap = heap_push (\<lambda>r. r mod 4) 5 (heap_push (\<lambda>r. r mod 4) 3 (heap_push (\<lambda>r. r mod 4) 2 emptyHeap))"

lemma exHeap_slots: "slots exHeap = [5, 3, 2]"
  by (simp add: exHeap_def heap_push_def emptyHeap_def heap_up.simps heap_swap_def Let_def)

lemma exHeap_ok: "heap_ok (\<lambda>r. r mod 4) exHeap"
  unfolding exHeap_def by (intro push_ok) (simp_all add: heap_push_def emptyHeap_def heap_up.simps heap_swap_def Let_def, auto simp: heap_ok_def indexed_def heap_order_def)

theorem heap_remove_any_witness:
  "\<exists>h'. heap_remove (\<lambda>r. r mod 4) (heapIndex exHeap 3) exHeap = Some (3, h') \<and> set (slots h') = {2, 5}"
  using heap_remove_any [OF exHeap_ok, of 3] by (auto simp: exHeap_slots)

end
