(* ===== verification/Writeback_Waves.thy ===== *)
theory Writeback_Waves
  imports Writeback_Flush "HOL-Library.Sublist"
begin

text \<open>
  What a wave carries. The bytes of the records that are still accepted, each with its offset in the file, form a
  stream from a cursor on; forming the entries of a wave cuts a beginning off this stream and nothing else.
\<close>

section \<open>Bytes in their place\<close>

definition placed :: "int \<Rightarrow> byte list \<Rightarrow> (int \<times> byte) list" where
  "placed off bs = zip (map (\<lambda>i. off + int i) [0..<length bs]) bs"

lemma placed_Nil [simp]: "placed off [] = []"
  by (simp add: placed_def)

lemma placed_append: "placed off (xs @ ys) = placed off xs @ placed (off + int (length xs)) ys"
  by (rule nth_equalityI) (auto simp: placed_def nth_append)

fun stream :: "(nat \<Rightarrow> wrec) \<Rightarrow> nat list \<Rightarrow> nat \<Rightarrow> (int \<times> byte) list" where
  "stream recs [] off = []"
| "stream recs (s # rest) off =
     placed (r_off (recs s) + int off) (drop off (r_data (recs s))) @ stream recs rest 0"

definition entry_data :: "Entry \<Rightarrow> byte list" where
  "entry_data e = e_Data e @ concat (e_Segments e)"

definition carried :: "Entry \<Rightarrow> (int \<times> byte) list" where
  "carried e = placed (e_Offset e) (entry_data e)"

text \<open>The records behind the last completed one.\<close>

definition behind :: "nat option \<Rightarrow> nat list \<Rightarrow> nat list" where
  "behind completed xs = (case completed of None \<Rightarrow> xs | Some s \<Rightarrow> tl (dropWhile (\<lambda>t. t \<noteq> s) xs))"

section \<open>One entry\<close>

text \<open>How far an entry is filled: a single piece is its data, several are its segments.\<close>

definition filling :: "nat \<Rightarrow> Entry \<Rightarrow> bool" where
  "filling nspans e \<longleftrightarrow> (nspans = 0 \<longrightarrow> e_Data e = [] \<and> e_Segments e = []) \<and> (e_Segments e \<noteq> [] \<longrightarrow> e_Data e = []) \<and>
     length (e_Segments e) \<le> nspans"

lemma addPiece_data:
  assumes "filling nspans e"
  shows "entry_data (addPiece nspans piece e) = entry_data e @ piece"
    and "filling (nspans + 1) (addPiece nspans piece e)"
    and "e_Offset (addPiece nspans piece e) = e_Offset e"
  using assms by (auto simp: filling_def addPiece_def entry_data_def Let_def)

definition cursor_ok :: "(nat \<Rightarrow> wrec) \<Rightarrow> nat list \<Rightarrow> waveCursor \<Rightarrow> bool" where
  "cursor_ok recs xs cur \<longleftrightarrow> w_rest cur = behind (w_done cur) xs \<and>
     (w_rest cur \<noteq> [] \<longrightarrow> w_off cur \<le> length (r_data (recs (hd (w_rest cur))))) \<and> (w_rest cur = [] \<longrightarrow> w_off cur = 0)"

lemma behind_suffix: "\<exists>ys. xs = ys @ behind d xs"
proof (cases d)
  case (Some s)
  have "suffix (tl (dropWhile (\<lambda>t. t \<noteq> s) xs)) xs"
    by (meson suffix_dropWhile suffix_order.trans suffix_tl)
  then show ?thesis
    by (auto simp: behind_def Some suffix_def)
qed (simp add: behind_def)

lemma behind_next:
  assumes "distinct xs" "behind d xs = s # rest"
  shows "behind (Some s) xs = rest"
proof -
  obtain ys where xs: "xs = ys @ s # rest"
    using behind_suffix [of xs d] assms(2) by auto
  then have "s \<notin> set ys"
    using assms(1) by auto
  then have "dropWhile (\<lambda>t. t \<noteq> s) ys = []"
    by auto
  then show ?thesis
    by (simp add: behind_def xs dropWhile_append)
qed

lemma cursor_next:
  assumes "distinct xs" "cursor_ok recs xs cur" "w_rest cur = s # rest"
  shows "cursor_ok recs xs \<lparr>w_rest = rest, w_off = 0, w_done = Some s\<rparr>"
  using assms behind_next [OF assms(1), of "w_done cur" s rest] by (simp add: cursor_ok_def)

text \<open>Progress of a cursor: it completed a record or moved on within the one it stood in.\<close>

definition moved :: "waveCursor \<Rightarrow> waveCursor \<Rightarrow> bool" where
  "moved cur cur' \<longleftrightarrow> w_done cur' \<noteq> None \<or> w_done cur = None \<and> w_off cur \<le> w_off cur'"

definition advanced :: "waveCursor \<Rightarrow> waveCursor \<Rightarrow> bool" where
  "advanced cur cur' \<longleftrightarrow> w_done cur' \<noteq> None \<or> w_off cur < w_off cur'"

lemma moved_trans: "moved a b \<Longrightarrow> moved b c \<Longrightarrow> moved a c"
  by (auto simp: moved_def)

lemma advanced_moved: "advanced a b \<Longrightarrow> moved b c \<Longrightarrow> advanced a c"
  by (auto simp: advanced_def moved_def)

lemma piece_stream:
  assumes "off \<le> fin" "fin \<le> length (r_data (recs s))"
  shows "placed (r_off (recs s) + int off) (take (fin - off) (drop off (r_data (recs s)))) @ stream recs (s # rest) fin =
      stream recs (s # rest) off"
proof -
  have split: "drop off (r_data (recs s)) = take (fin - off) (drop off (r_data (recs s))) @ drop fin (r_data (recs s))"
    using assms(1) by (metis append_take_drop_id drop_drop le_add_diff_inverse2)
  have "placed (r_off (recs s) + int off) (drop off (r_data (recs s))) =
      placed (r_off (recs s) + int off) (take (fin - off) (drop off (r_data (recs s)))) @
      placed (r_off (recs s) + int fin) (drop fin (r_data (recs s)))"
    by (subst split, subst placed_append) (use assms in simp)
  then show ?thesis
    by simp
qed

text \<open>
  What filling an entry keeps: the bytes carried and the bytes ahead of the cursor together are the same, and the entry stays
  within its limits.
\<close>

definition within :: "Cut \<Rightarrow> nat \<Rightarrow> Entry \<Rightarrow> bool" where
  "within ct payload e \<longleftrightarrow> length (entry_data e) \<le> payload \<and> length (e_Segments e) \<le> 64 \<and> e_Last e \<le> c_Sequence ct"

definition filled :: "(nat \<Rightarrow> wrec) \<Rightarrow> Cut \<Rightarrow> nat list \<Rightarrow> nat \<Rightarrow> Entry \<Rightarrow> waveCursor \<Rightarrow> Entry \<Rightarrow> waveCursor \<Rightarrow> bool" where
  "filled recs ct xs payload e cur e' cur' \<longleftrightarrow>
     carried e' @ stream recs (w_rest cur') (w_off cur') = carried e @ stream recs (w_rest cur) (w_off cur) \<and>
     cursor_ok recs xs cur' \<and> within ct payload e' \<and> e_Token e' = e_Token e \<and> moved cur cur'"

text \<open>One round of filling.\<close>

lemma fill_round:
  assumes ok: "distinct xs" "cursor_ok recs xs cur" "filling nspans e" "used = length (entry_data e)"
    and rest: "w_rest cur = s # rest" "s \<le> c_Sequence ct" and go: "used < payload" "r_off (recs s) + int (w_off cur) = e_Offset e + int used"
    and fin: "fin = min (length (r_data (recs s))) (w_off cur + payload - used)"
    and piece: "piece = take (fin - w_off cur) (drop (w_off cur) (r_data (recs s)))"
    and e1: "e1 = (addPiece nspans piece e)\<lparr>e_Last := s\<rparr>"
    and cur1: "cur1 = (if fin = length (r_data (recs s)) then \<lparr>w_rest = rest, w_off = 0, w_done = Some s\<rparr> else cur\<lparr>w_off := fin\<rparr>)"
  shows "carried e1 @ stream recs (w_rest cur1) (w_off cur1) = carried e @ stream recs (w_rest cur) (w_off cur)"
    and "cursor_ok recs xs cur1" and "filling (nspans + 1) e1" and "used + length piece = length (entry_data e1)"
    and "used + length piece \<le> payload" and "e_Last e1 \<le> c_Sequence ct" and "advanced cur cur1" and "moved cur cur1"
    and "e_Token e1 = e_Token e"
proof -
  have off: "w_off cur \<le> length (r_data (recs s))"
    using ok(2) rest(1) by (simp add: cursor_ok_def)
  then have bounds: "w_off cur \<le> fin" "fin \<le> length (r_data (recs s))" "fin - w_off cur \<le> payload - used"
    using go(1) by (auto simp: fin)
  have len: "length piece = fin - w_off cur"
    using bounds by (simp add: piece)
  have data: "entry_data e1 = entry_data e @ piece" "e_Offset e1 = e_Offset e"
    using addPiece_data [OF ok(3), of piece] by (simp_all add: e1 entry_data_def)
  show "filling (nspans + 1) e1" "e_Last e1 \<le> c_Sequence ct" "e_Token e1 = e_Token e"
    using addPiece_data(2) [OF ok(3), of piece] rest(2) by (simp_all add: e1 filling_def addPiece_def Let_def)
  show "used + length piece = length (entry_data e1)" "used + length piece \<le> payload"
    using data ok(4) len bounds(3) go(1) by simp_all
  have "carried e1 = carried e @ placed (r_off (recs s) + int (w_off cur)) piece"
    using go(2) by (simp add: carried_def data placed_append ok(4))
  moreover have "stream recs (w_rest cur1) (w_off cur1) = stream recs (s # rest) fin"
    by (simp add: cur1 rest(1))
  ultimately show "carried e1 @ stream recs (w_rest cur1) (w_off cur1) = carried e @ stream recs (w_rest cur) (w_off cur)"
    using piece_stream [of "w_off cur" fin recs s rest] bounds by (simp add: piece rest(1))
  have "behind (w_done cur) xs = s # rest"
    using ok(2) rest(1) by (simp add: cursor_ok_def)
  then show "cursor_ok recs xs cur1"
    using cursor_next [OF ok(1,2) rest(1)] bounds(2) by (simp add: cur1 cursor_ok_def rest(1))
  show "advanced cur cur1" "moved cur cur1"
    using off bounds(1) go(1) by (auto simp: cur1 advanced_def moved_def fin min_def split: if_splits)
qed

lemma wave_fill_exact:
  assumes "wave_fill recs ct generation options payload nspans used e cur = (e', cur')"
    "distinct xs" "cursor_ok recs xs cur" "filling nspans e" "used = length (entry_data e)" "used \<le> payload" "nspans \<le> 64"
    "e_Last e \<le> c_Sequence ct"
  shows "filled recs ct xs payload e cur e' cur' \<and>
    (eligible recs ct generation options (w_rest cur) \<and> used < payload \<and>
       r_off (recs (hd (w_rest cur))) + int (w_off cur) = e_Offset e + int used \<and> nspans < 64 \<longrightarrow> advanced cur cur')"
  using assms
proof (induction "64 - nspans" arbitrary: nspans used e cur rule: less_induct)
  case less
  let ?s = "hd (w_rest cur)"
  let ?go = "eligible recs ct generation options (w_rest cur) \<and> used < payload \<and>
     r_off (recs ?s) + int (w_off cur) = e_Offset e + int used \<and> nspans < 64"
  show ?case
  proof (cases ?go)
    case False
    then have "e' = e" "cur' = cur"
      using less.prems(1) by (subst (asm) wave_fill.simps, auto simp: Let_def)+
    then show ?thesis
      using less.prems False by (auto simp: filled_def within_def filling_def moved_def)
  next
    case go: True
    then obtain rest where rest: "w_rest cur = ?s # rest" "?s \<le> c_Sequence ct"
      by (cases "w_rest cur") (auto simp: eligible_def)
    define fin where "fin = min (length (r_data (recs ?s))) (w_off cur + payload - used)"
    define piece where "piece = take (fin - w_off cur) (drop (w_off cur) (r_data (recs ?s)))"
    define e1 where "e1 = (addPiece nspans piece e)\<lparr>e_Last := ?s\<rparr>"
    define e2 where "e2 = (if fin = length (r_data (recs ?s)) then e1\<lparr>e_AppliedThrough := ?s\<rparr> else e1)"
    define cur1 where "cur1 = (if fin = length (r_data (recs ?s)) then \<lparr>w_rest = rest, w_off = 0, w_done = Some ?s\<rparr> else cur\<lparr>w_off := fin\<rparr>)"
    note round = fill_round [OF less.prems(2-5) rest go [THEN conjunct2, THEN conjunct1]
        go [THEN conjunct2, THEN conjunct2, THEN conjunct1] fin_def piece_def e1_def cur1_def]
    have same: "carried e2 = carried e1" "filling k e2 = filling k e1" "entry_data e2 = entry_data e1" "e_Last e2 = e_Last e1"
      "e_Token e2 = e_Token e1" for k
      by (simp_all add: e2_def carried_def filling_def entry_data_def)
    have tl: "tl (w_rest cur) = rest"
      by (subst rest(1)) simp
    have "wave_fill recs ct generation options payload nspans used e cur =
        wave_fill recs ct generation options payload (nspans + 1) (used + length piece) e2 cur1"
      by (subst wave_fill.simps, simp only: Let_def if_P [OF go] tl flip: fin_def piece_def e1_def) (simp add: e2_def cur1_def)
    then have "wave_fill recs ct generation options payload (nspans + 1) (used + length piece) e2 cur1 = (e', cur')"
      using less.prems(1) by simp
    moreover have "64 - (nspans + 1) < 64 - nspans"
      using go by linarith
    ultimately have "filled recs ct xs payload e2 cur1 e' cur'"
      using less.hyps [of "nspans + 1" "used + length piece" e2 cur1] go round less.prems(2) same by simp
    then show ?thesis
      using round same moved_trans advanced_moved unfolding filled_def by metis
  qed
qed

section \<open>A wave\<close>

lemma wave_entries_exact:
  assumes "wave_entries recs ct generation options width payload es token cur = (es', token', cur')"
    "distinct xs" "cursor_ok recs xs cur"
  shows "\<exists>new. es' = es @ new \<and> concat (map carried new) @ stream recs (w_rest cur') (w_off cur') = stream recs (w_rest cur) (w_off cur) \<and>
    cursor_ok recs xs cur' \<and> list_all (within ct payload) new \<and> length es' \<le> max (length es) width \<and>
    map e_Token new = [Suc token..<Suc token + length new] \<and> token' = token + length new \<and> moved cur cur' \<and>
    (length es < width \<and> 0 < payload \<and> eligible recs ct generation options (w_rest cur) \<longrightarrow> advanced cur cur')"
  using assms
proof (induction "width - length es" arbitrary: es token cur rule: less_induct)
  case less
  show ?case
  proof (cases "length es < width \<and> eligible recs ct generation options (w_rest cur)")
    case False
    then have "es' = es" "token' = token" "cur' = cur"
      using less.prems(1) by (subst (asm) wave_entries.simps, auto)+
    then show ?thesis
      using less.prems(3) False by (auto simp: moved_def)
  next
    case True
    let ?s = "hd (w_rest cur)"
    define e where "e = \<lparr>e_Token = Suc token, e_First = ?s, e_Last = 0, e_Generation = generation, e_AppliedThrough = 0,
               e_Kind = Write, e_Offset = r_off (recs ?s) + int (w_off cur), e_Data = [], e_Segments = [],
               e_Attributes = noAttributes, e_WriteOptions = options\<rparr>"
    obtain e1 cur1 where fill: "wave_fill recs ct generation options payload 0 0 e cur = (e1, cur1)"
      by fastforce
    have e: "filling 0 e" "entry_data e = []" "carried e = []" "e_Last e \<le> c_Sequence ct" "e_Token e = Suc token"
      "e_Offset e = r_off (recs ?s) + int (w_off cur)"
      by (simp_all add: e_def filling_def entry_data_def carried_def)
    have f: "filled recs ct xs payload e cur e1 cur1" "0 < payload \<longrightarrow> advanced cur cur1"
      using wave_fill_exact [OF fill less.prems(2,3) e(1)] e True by simp_all
    have rest: "wave_entries recs ct generation options width payload (es @ [e1]) (token + 1) cur1 = (es', token', cur')"
      using less.prems(1) True by (subst (asm) wave_entries.simps) (simp add: Let_def fill [unfolded e_def])
    have "width - length (es @ [e1]) < width - length es"
      using True by (simp add: diff_less_mono2)
    from less.hyps [OF this rest less.prems(2)] f(1) obtain new where new: "es' = (es @ [e1]) @ new"
      "concat (map carried new) @ stream recs (w_rest cur') (w_off cur') = stream recs (w_rest cur1) (w_off cur1)"
      "cursor_ok recs xs cur'" "list_all (within ct payload) new" "length es' \<le> max (length (es @ [e1])) width"
      "map e_Token new = [Suc (token + 1)..<Suc (token + 1) + length new]" "token' = token + 1 + length new" "moved cur1 cur'"
      unfolding filled_def by blast
    show ?thesis
    proof (rule exI [of _ "e1 # new"], intro conjI impI)
      show "map e_Token (e1 # new) = [Suc token..<Suc token + length (e1 # new)]"
        using new(6) f(1) e(5) by (simp add: filled_def upt_conv_Cons del: upt_Suc)
    qed (use new f e True moved_trans [of cur cur1 cur'] advanced_moved [of cur cur1 cur'] in \<open>simp_all add: filled_def\<close>)
  qed
qed

text \<open>
  C40. A wave of writes carries exactly the next bytes: the bytes of its entries in order, each at its offset in the file,
  followed by the bytes behind the place the wave ends at, are the bytes that were still accepted, so none is lost, sent twice,
  reordered or misplaced. It keeps the limits on width, payload and segments, its tokens are consecutive, and it
  completes a record or moves on within one, so that rounds of a flush come to an end.
\<close>

theorem wave_exact:
  assumes "waveLocked b fid f ct = (Some p, b')" and "accepted_rest f = s # rest" and "r_kind (b_records b s) = Write"
    and "distinct (f_queue f)" and "f_flushOffset f \<le> length (r_data (b_records b s))"
  shows "concat (map carried (p_entries p)) @ stream (b_records b) (behind (p_completedLast p) (s # rest)) (p_endOffset p) =
      stream (b_records b) (s # rest) (f_flushOffset f) \<and>
    list_all (within ct (b_batchPayload b)) (p_entries p) \<and> length (p_entries p) \<le> b_batchWidth b \<and>
    map e_Token (p_entries p) = [Suc (b_token b)..<Suc (b_token b) + length (p_entries p)] \<and>
    (0 < b_batchWidth b \<and> 0 < b_batchPayload b \<longrightarrow> p_completedLast p \<noteq> None \<or> f_flushOffset f < p_endOffset p)"
proof -
  let ?r = "b_records b s"
  let ?cur = "\<lparr>w_rest = s # rest, w_off = f_flushOffset f, w_done = None\<rparr>"
  have due: "\<not> s > c_Sequence ct"
    using assms(1,2) by (auto simp: waveLocked_def)
  obtain es token cur where w: "wave_entries (b_records b) ct (r_generation ?r) (r_writeOptions ?r) (b_batchWidth b)
      (b_batchPayload b) [] (b_token b) ?cur = (es, token, cur)"
    by (metis prod_cases3)
  have p: "p_entries p = es" "p_completedLast p = w_done cur" "p_endOffset p = w_off cur"
    using assms(1) due by (auto simp: waveLocked_def assms(2,3) w Let_def)
  have dist: "distinct (s # rest)"
    using assms(4) unfolding assms(2) [symmetric] accepted_rest_def by (rule distinct_dropWhile)
  have ok: "cursor_ok (b_records b) (s # rest) ?cur"
    using assms(5) by (simp add: cursor_ok_def behind_def)
  obtain new where new: "es = [] @ new"
    "concat (map carried new) @ stream (b_records b) (w_rest cur) (w_off cur) = stream (b_records b) (s # rest) (f_flushOffset f)"
    "cursor_ok (b_records b) (s # rest) cur" "list_all (within ct (b_batchPayload b)) new" "length es \<le> max 0 (b_batchWidth b)"
    "map e_Token new = [Suc (b_token b)..<Suc (b_token b) + length new]"
    "0 < b_batchWidth b \<and> 0 < b_batchPayload b \<and> eligible (b_records b) ct (r_generation ?r) (r_writeOptions ?r) (s # rest) \<longrightarrow> advanced ?cur cur"
    using wave_entries_exact [OF w dist ok] by auto
  have "eligible (b_records b) ct (r_generation ?r) (r_writeOptions ?r) (s # rest)"
    using due assms(3) by (simp add: eligible_def)
  then have "0 < b_batchWidth b \<and> 0 < b_batchPayload b \<longrightarrow> advanced ?cur cur"
    using new(7) by blast
  then show ?thesis
    using new(1-6) p by (simp add: cursor_ok_def advanced_def)
qed

text \<open>A record of three bytes at offset ten, with waves of one entry of two bytes.\<close>

definition exBuffer :: Buffer where
  "exBuffer = (projr (New 1 2 \<lparr>o_InitialLossSequence = 0, o_MaxBytes = 0, o_MaxEntries = 0, o_MaxFlushIdentities = 0\<rparr>))
     \<lparr>b_records := (\<lambda>_. blankRecord\<lparr>r_data := [1, 2, 3], r_off := 10\<rparr>), b_sequence := 1\<rparr>"

definition exFile :: bfile where
  "exFile = newFile\<lparr>f_queue := [1], f_accepted := Some 1\<rparr>"

theorem wave_exact_witness:
  "\<exists>p b'. waveLocked exBuffer 7 exFile (Snapshot exBuffer) = (Some p, b') \<and>
     concat (map carried (p_entries p)) @ stream (b_records exBuffer) (behind (p_completedLast p) [1]) (p_endOffset p) =
       [(10, 1), (11, 2), (12, 3)] \<and> (p_completedLast p \<noteq> None \<or> 0 < p_endOffset p)"
proof -
  have facts: "accepted_rest exFile = [1]" "r_kind (b_records exBuffer 1) = Write" "distinct (f_queue exFile)"
    "f_flushOffset exFile = 0" "c_Sequence (Snapshot exBuffer) = 1" "b_batchWidth exBuffer = 1" "b_batchPayload exBuffer = 2"
    by (simp_all add: accepted_rest_def exFile_def newFile_def exBuffer_def blankRecord_def Snapshot_def New_def Let_def)
  have stream: "stream (b_records exBuffer) [1] 0 = [(10, 1), (11, 2), (12, 3)]"
    by (simp add: exBuffer_def blankRecord_def placed_def upt_rec)
  have "\<exists>p b'. waveLocked exBuffer 7 exFile (Snapshot exBuffer) = (Some p, b')"
    using facts by (simp add: waveLocked_def Let_def split: prod.splits)
  then obtain p b' where p: "waveLocked exBuffer 7 exFile (Snapshot exBuffer) = (Some p, b')"
    by blast
  from wave_exact [OF p facts(1,2,3)] show ?thesis
    using p facts stream by auto
qed

end
