(* ===== verification/Mutation_Targets.thy ===== *)
theory Mutation_Targets
  imports Prelude "HOL-Library.List_Lexorder"
begin

text \<open>
  Mutation footprints of the volume authority: the targets, keys and validation of
  \<^verbatim>\<open>src/vcs/internal/volumeserver/mutation_targets.go\<close> and \<^verbatim>\<open>mutation_validation.go\<close>, and the canonical
  dependency sets at the head of \<^verbatim>\<open>mutation_sequencer.go\<close>.

  Keys and names are byte strings, ordered bytewise; an identity is a string of sixteen
  bytes. The sort of the standard library is \<open>sort\<close>, its binary search the function
  \<open>searchStrings\<close> below. The theory proves that keys determine what they name, that a
  dependency set is canonical whatever the order and multiplicity of its parts, and that
  membership by binary search is membership.
\<close>

section \<open>Keys\<close>

type_synonym byte8 = "8 word"

type_synonym mkey = "byte8 list"

type_synonym identity16 = "byte8 list"

definition zeroIdentity :: identity16 where
  "zeroIdentity = replicate 16 0"

text \<open>The domain tags \<open>'n'\<close> and \<open>'i'\<close>.\<close>

definition nameKey :: "identity16 \<Rightarrow> byte8 list \<Rightarrow> mkey" where
  "nameKey parent name = [110] @ parent @ name"

definition inodeKey :: "identity16 \<Rightarrow> mkey" where
  "inodeKey identity = [105] @ identity"

text \<open>The bytes of \<open>"."\<close>, \<open>".."\<close> and \<open>'/'\<close>.\<close>

definition legalMutationName :: "byte8 list \<Rightarrow> bool" where
  "legalMutationName name \<longleftrightarrow> length name \<noteq> 0 \<and> length name \<le> 255 \<and> name \<noteq> [46] \<and> name \<noteq> [46, 46] \<and>
     47 \<notin> set name \<and> 0 \<notin> set name"

section \<open>Targets\<close>

text \<open>The scope is a byte in the code; a value without a declared constant is an \<open>UndeclaredScope\<close>.\<close>

datatype MutationScope = MutationNamespace | MutationData | MutationAttributes | UndeclaredScope byte8

record MutationAttr =
  ma_Kind :: "32 word"
  ma_Inode :: u64
  ma_Size :: int
  ma_Blocks :: u64
  ma_Mode :: "32 word"
  ma_UID :: "32 word"
  ma_GID :: "32 word"
  ma_Nlink :: "32 word"
  ma_ATimeNS :: int
  ma_MTimeNS :: int
  ma_CTimeNS :: int
  ma_BirthTimeNS :: int
  ma_Rdev :: "32 word"
  ma_Blksize :: "32 word"
  ma_Flags :: "32 word"

record MutationObjectPostState =
  mp_StableIdentity :: identity16
  mp_ObjectVersion :: u64
  mp_Attr :: MutationAttr
  mp_Roles :: "32 word"

record MutationTarget =
  mt_Scope :: MutationScope
  mt_Identity :: identity16
  mt_ParentIdentity :: identity16
  mt_Name :: "byte8 list"
  mt_Size :: int
  mt_PostIdentity :: identity16
  mt_KernelIno :: u64
  mt_ParentKernelIno :: u64
  mt_Device :: u64
  mt_RelatedIdentities :: "identity16 list"
  mt_ExactPostState :: "MutationObjectPostState option"

record FootprintTarget =
  ft_Identity :: identity16
  ft_ParentIdentity :: identity16
  ft_Name :: "byte8 list"
  ft_Attributes :: bool
  ft_Data :: bool
  ft_BoundAttributes :: bool
  ft_BoundData :: bool
  ft_BoundIdentities :: "identity16 list"

record MutationFootprint =
  mf_Targets :: "FootprintTarget list"

definition footprint_namespace :: "FootprintTarget \<Rightarrow> bool" where
  "footprint_namespace t \<longleftrightarrow> ft_ParentIdentity t \<noteq> zeroIdentity"

definition target_key :: "MutationTarget \<Rightarrow> mkey" where
  "target_key t =
     (if mt_Scope t = MutationNamespace then nameKey (mt_ParentIdentity t) (mt_Name t)
      else inodeKey (mt_Identity t))"

definition mutationTargetKeys :: "MutationTarget list \<Rightarrow> mkey list" where
  "mutationTargetKeys targets = map target_key targets"

definition mutationTargetKeySet :: "MutationTarget list \<Rightarrow> mkey set" where
  "mutationTargetKeySet targets = set (map target_key targets)"

definition mutationTargetsCovered :: "MutationTarget list \<Rightarrow> MutationTarget list \<Rightarrow> bool" where
  "mutationTargetsCovered complete prepared =
     (let covered = mutationTargetKeySet prepared in list_all (\<lambda>t. target_key t \<in> covered) complete)"

section \<open>Validation\<close>

datatype mutationError =
    ErrMutationTargets
  | OmittedAttributes
  | OutcomeBound
  | UnpreparedCoordinate
  | MissingNamespaceDependency

definition validNamespaceTarget :: "MutationTarget \<Rightarrow> bool" where
  "validNamespaceTarget t \<longleftrightarrow>
     mt_ParentIdentity t \<noteq> zeroIdentity \<and> mt_Identity t = zeroIdentity \<and> mt_Size t = 0 \<and>
     mt_ExactPostState t = None \<and> legalMutationName (mt_Name t) \<and>
     list_all (\<lambda>i. i \<noteq> zeroIdentity) (mt_RelatedIdentities t) \<and>
     (mt_PostIdentity t = zeroIdentity \<or> mt_PostIdentity t \<in> set (mt_RelatedIdentities t))"

definition validInodeTarget :: "MutationTarget \<Rightarrow> bool" where
  "validInodeTarget t \<longleftrightarrow>
     mt_Identity t \<noteq> zeroIdentity \<and> mt_ParentIdentity t = zeroIdentity \<and> mt_Name t = [] \<and>
     (if mt_Scope t = MutationData then mt_Size t \<ge> 0 else mt_Size t = 0) \<and>
     mt_PostIdentity t = zeroIdentity \<and> mt_RelatedIdentities t = []"

definition validPostState :: "MutationTarget \<Rightarrow> bool" where
  "validPostState t =
     (case mt_ExactPostState t of
        None \<Rightarrow> True
      | Some e \<Rightarrow> mp_StableIdentity e = mt_Identity t \<and> mp_ObjectVersion e \<noteq> 0 \<and>
          ma_Inode (mp_Attr e) = mt_KernelIno t \<and> mp_Roles e \<noteq> 0 \<and>
          (mt_Scope t = MutationData \<longrightarrow> ma_Size (mp_Attr e) = mt_Size t))"

definition validateMutationTargets :: "MutationTarget list \<Rightarrow> mutationError option" where
  "validateMutationTargets targets =
     (if targets = [] then Some ErrMutationTargets
      else if list_all (\<lambda>t.
          (case mt_Scope t of
             MutationNamespace \<Rightarrow> validNamespaceTarget t
           | MutationData \<Rightarrow> validInodeTarget t
           | MutationAttributes \<Rightarrow> validInodeTarget t
           | UndeclaredScope _ \<Rightarrow> False) \<and>
          validPostState t) targets
      then None else Some ErrMutationTargets)"

definition ValidateMutationCompletion :: "MutationTarget list \<Rightarrow> MutationTarget list \<Rightarrow> mutationError option" where
  "ValidateMutationCompletion complete prepared =
     (if validateMutationTargets complete \<noteq> None then Some ErrMutationTargets
      else
        (let inodes = filter (\<lambda>t. mt_Scope t \<noteq> MutationNamespace) complete;
             completeKeys = mutationTargetKeySet complete in
         if list_ex (\<lambda>t. case mt_ExactPostState t of None \<Rightarrow> True | Some e \<Rightarrow> mp_ObjectVersion e = 0) inodes
         then Some OmittedAttributes
         else if length inodes > 4 then Some OutcomeBound
         else if \<not> mutationTargetsCovered complete prepared then Some UnpreparedCoordinate
         else if list_ex (\<lambda>t. mt_Scope t = MutationAttributes \<and>
                list_ex (\<lambda>p. mt_Scope p = MutationNamespace \<and> mt_ParentIdentity p = mt_Identity t \<and>
                  target_key p \<notin> completeKeys) prepared) complete
         then Some MissingNamespaceDependency
         else None))"

section \<open>Dependency sets\<close>

record MutationDependencies =
  keys_of :: "mkey list"

text \<open>Compaction in place: a key equal to the last one kept is skipped.\<close>

definition compact :: "mkey list \<Rightarrow> mkey list" where
  "compact encoded = fold (\<lambda>key out. if out \<noteq> [] \<and> last out = key then out else out @ [key]) encoded []"

definition newMutationDependencies :: "mkey list \<Rightarrow> MutationDependencies" where
  "newMutationDependencies keys = \<lparr>keys_of = compact (sort (filter (\<lambda>k. length k \<noteq> 0) keys))\<rparr>"

definition mutationDependenciesForTargets :: "MutationTarget list \<Rightarrow> MutationDependencies" where
  "mutationDependenciesForTargets targets =
     newMutationDependencies (concat (map (\<lambda>t. target_key t #
       (if mt_Scope t = MutationNamespace
        then inodeKey (mt_ParentIdentity t) # map inodeKey (mt_RelatedIdentities t) else [])) targets))"

definition MutationDependenciesForFootprint :: "MutationFootprint \<Rightarrow> MutationDependencies" where
  "MutationDependenciesForFootprint gate =
     newMutationDependencies (concat (map (\<lambda>t.
       if \<not> footprint_namespace t then [inodeKey (ft_Identity t)]
       else inodeKey (ft_ParentIdentity t) # nameKey (ft_ParentIdentity t) (ft_Name t) #
         map inodeKey (ft_BoundIdentities t)) (mf_Targets gate)))"

definition canonicalKey :: "mkey \<Rightarrow> bool" where
  "canonicalKey key \<longleftrightarrow> length key > 0 \<and> (hd key = 105 \<and> length key = 17 \<or> hd key = 110 \<and> length key > 17)"

fun ascending :: "mkey list \<Rightarrow> bool" where
  "ascending (a # b # ks) \<longleftrightarrow> \<not> a \<ge> b \<and> ascending (b # ks)"
| "ascending ks \<longleftrightarrow> True"

definition deps_valid :: "MutationDependencies \<Rightarrow> bool" where
  "deps_valid d \<longleftrightarrow> length (keys_of d) \<noteq> 0 \<and> list_all canonicalKey (keys_of d) \<and> ascending (keys_of d)"

definition deps_equal :: "MutationDependencies \<Rightarrow> MutationDependencies \<Rightarrow> bool" where
  "deps_equal d other \<longleftrightarrow> length (keys_of d) = length (keys_of other) \<and>
     list_all (\<lambda>i. keys_of d ! i = keys_of other ! i) [0..<length (keys_of d)]"

text \<open>\<open>sort.Search\<close>: the least index in the half-open interval whose key is not below the wanted one.\<close>

function searchStrings :: "mkey list \<Rightarrow> mkey \<Rightarrow> nat \<Rightarrow> nat \<Rightarrow> nat" where
  "searchStrings ks x i j =
     (if i < j then
        (let h = (i + j) div 2 in
         if \<not> ks ! h \<ge> x then searchStrings ks x (h + 1) j else searchStrings ks x i h)
      else i)"
  by auto
termination by (relation "measure (\<lambda>(ks, x, i, j). j - i)") auto

declare searchStrings.simps [simp del]

definition deps_contains :: "MutationDependencies \<Rightarrow> mkey \<Rightarrow> bool" where
  "deps_contains d key =
     (let index = searchStrings (keys_of d) key 0 (length (keys_of d)) in
      index \<noteq> length (keys_of d) \<and> keys_of d ! index = key)"

definition deps_covers :: "MutationDependencies \<Rightarrow> MutationTarget list \<Rightarrow> bool" where
  "deps_covers d targets =
     list_all (\<lambda>t. deps_contains d (target_key t) \<and>
       (mt_Scope t = MutationNamespace \<longrightarrow>
          deps_contains d (inodeKey (mt_ParentIdentity t)) \<and>
          list_all (\<lambda>i. deps_contains d (inodeKey i)) (mt_RelatedIdentities t))) targets"

definition ValidateTargets :: "MutationDependencies \<Rightarrow> MutationTarget list \<Rightarrow> mutationError option" where
  "ValidateTargets d targets =
     (if \<not> deps_valid d \<or> validateMutationTargets targets \<noteq> None \<or> \<not> deps_covers d targets
      then Some ErrMutationTargets else None)"

section \<open>Canonical form\<close>

lemma ascending_sorted: "ascending ks \<longleftrightarrow> sorted_wrt (<) ks"
proof (induction ks rule: ascending.induct)
  case (1 a b ks)
  then show ?case by (auto simp: not_le intro: less_trans)
qed simp_all

lemma compact_append:
  "fold (\<lambda>key out. if out \<noteq> [] \<and> last out = key then out else out @ [key]) xs out =
     (if out = [] then compact xs
      else out @ (case compact xs of [] \<Rightarrow> [] | y # ys \<Rightarrow> if y = last out then ys else y # ys))"
proof (induction xs arbitrary: out rule: rev_induct)
  case Nil
  then show ?case by (simp add: compact_def)
next
  case (snoc x xs)
  show ?case
  proof (cases "out = []")
    case True
    then show ?thesis by (simp add: compact_def)
  next
    case False
    have c: "compact (xs @ [x]) = (if compact xs \<noteq> [] \<and> last (compact xs) = x then compact xs else compact xs @ [x])"
      by (simp add: compact_def)
    show ?thesis
    proof (cases "compact xs")
      case Nil
      then show ?thesis using False snoc [of out] by (simp add: c)
    next
      case (Cons y ys)
      then show ?thesis using False snoc [of out] by (cases "y = last out"; cases "ys = []") (simp_all add: c)
    qed
  qed
qed

lemma compact_Nil [simp]: "compact [] = []"
  by (simp add: compact_def)

lemma compact_Cons:
  "compact (x # xs) = x # (case compact xs of [] \<Rightarrow> [] | y # ys \<Rightarrow> if y = x then ys else y # ys)"
  by (cases "compact xs") (use compact_append [of xs "[x]"] in \<open>simp_all add: compact_def [of "x # xs"]\<close>)

lemma set_compact: "set (compact xs) = set xs"
proof (induction xs)
  case (Cons x xs)
  then show ?case by (cases "compact xs") (auto simp: compact_Cons)
qed simp

lemma compact_sorted: "sorted xs \<Longrightarrow> sorted_wrt (<) (compact xs)"
proof (induction xs)
  case (Cons x xs)
  then have "\<forall>y \<in> set (compact xs). x \<le> y" "sorted_wrt (<) (compact xs)" by (auto simp: set_compact)
  then show ?case
  proof (cases "compact xs")
    case (Cons y ys)
    with \<open>\<forall>y \<in> set (compact xs). x \<le> y\<close> \<open>sorted_wrt (<) (compact xs)\<close>
    have y: "x \<le> y" "\<forall>z \<in> set ys. y < z" "sorted_wrt (<) ys" by auto
    show ?thesis
    proof (cases "y = x")
      case True
      with Cons y show ?thesis by (simp add: compact_Cons)
    next
      case False
      then have "x < y" using y(1) by simp
      with Cons y False show ?thesis by (auto simp: compact_Cons intro: less_trans)
    qed
  qed (simp add: compact_Cons)
qed simp

lemma newDependencies_keys:
  "sorted_wrt (<) (keys_of (newMutationDependencies ks))"
  "set (keys_of (newMutationDependencies ks)) = {k \<in> set ks. k \<noteq> []}"
  by (auto simp: newMutationDependencies_def compact_sorted set_compact)

lemma searchStrings_bounds:
  assumes "sorted_wrt (<) ks" "i \<le> j" "j \<le> length ks"
    "\<forall>h < i. ks ! h < x" "\<forall>h. j \<le> h \<and> h < length ks \<longrightarrow> x \<le> ks ! h"
  shows "searchStrings ks x i j \<le> length ks \<and> (\<forall>h < searchStrings ks x i j. ks ! h < x) \<and>
    (\<forall>h. searchStrings ks x i j \<le> h \<and> h < length ks \<longrightarrow> x \<le> ks ! h)"
  using assms
proof (induction ks x i j rule: searchStrings.induct)
  case (1 ks x i j)
  show ?case
  proof (cases "i < j")
    case True
    define h where "h = (i + j) div 2"
    have h: "i \<le> h" "h < j" using True by (auto simp: h_def)
    have mono: "ks ! a \<le> ks ! c" if "a \<le> c" "c < length ks" for a c
      using that 1(3) by (metis le_neq_implies_less less_imp_le order_refl sorted_wrt_nth_less)
    show ?thesis
    proof (cases "x \<le> ks ! h")
      case ge: True
      have eq: "searchStrings ks x i j = searchStrings ks x i h"
        using True ge by (subst searchStrings.simps) (simp add: Let_def h_def)
      have up: "\<forall>c. h \<le> c \<and> c < length ks \<longrightarrow> x \<le> ks ! c" using ge mono order_trans by blast
      show ?thesis
        unfolding eq by (rule 1(2) [OF True h_def _ 1(3) h(1) _ 1(6) up]) (use ge h 1(5) in simp_all)
    next
      case lt: False
      have eq: "searchStrings ks x i j = searchStrings ks x (h + 1) j"
        using True lt by (subst searchStrings.simps) (simp add: Let_def h_def)
      have "ks ! c < x" if "c < h + 1" for c
      proof -
        have "ks ! c \<le> ks ! h" using that h 1(5) by (intro mono) auto
        also have "ks ! h < x" using lt by simp
        finally show ?thesis .
      qed
      then have low: "\<forall>c < h + 1. ks ! c < x" by blast
      show ?thesis
        unfolding eq by (rule 1(1) [OF True h_def _ 1(3) _ 1(5) low 1(7)]) (use lt h in simp_all)
    qed
  next
    case False
    then have "searchStrings ks x i j = i" by (subst searchStrings.simps) simp
    with False 1(3-) show ?thesis by auto
  qed
qed

lemma deps_contains_iff:
  assumes "sorted_wrt (<) (keys_of d)"
  shows "deps_contains d key \<longleftrightarrow> key \<in> set (keys_of d)"
proof -
  let ?ks = "keys_of d"
  let ?i = "searchStrings ?ks key 0 (length ?ks)"
  have "?i \<le> length ?ks \<and> (\<forall>h < ?i. ?ks ! h < key) \<and> (\<forall>h. ?i \<le> h \<and> h < length ?ks \<longrightarrow> key \<le> ?ks ! h)"
    by (rule searchStrings_bounds [OF assms]) auto
  then have i: "?i \<le> length ?ks" "\<forall>h < ?i. ?ks ! h < key" "\<forall>h. ?i \<le> h \<and> h < length ?ks \<longrightarrow> key \<le> ?ks ! h"
    by blast+
  have "?i < length ?ks \<and> ?ks ! ?i = key" if "key \<in> set ?ks"
  proof -
    from that obtain h where h: "h < length ?ks" "?ks ! h = key" by (auto simp: in_set_conv_nth)
    have le: "?i \<le> h" using i(2) h by (metis less_irrefl not_le)
    moreover have "key \<le> ?ks ! ?i" using i(3) le h by auto
    moreover have "?ks ! ?i \<le> ?ks ! h"
      using le h assms by (metis le_neq_implies_less less_imp_le order_refl sorted_wrt_nth_less)
    ultimately have "?ks ! ?i = key" using h(2) by simp
    with le h(1) show ?thesis by simp
  qed
  then show ?thesis
    using i(1) nth_mem [of ?i ?ks] unfolding deps_contains_def Let_def by (metis le_neq_implies_less nat_neq_iff)
qed

section \<open>Keys determine what they name\<close>

lemma nameKey_inject:
  assumes "length p = 16" "length p' = 16"
  shows "nameKey p n = nameKey p' n' \<longleftrightarrow> p = p' \<and> n = n'"
  using assms by (simp add: nameKey_def)

lemma inodeKey_inject: "inodeKey i = inodeKey i' \<longleftrightarrow> i = i'"
  by (simp add: inodeKey_def)

lemma nameKey_inodeKey: "nameKey p n \<noteq> inodeKey i"
  by (simp add: nameKey_def inodeKey_def)

lemma canonical_nameKey: "length p = 16 \<Longrightarrow> n \<noteq> [] \<Longrightarrow> canonicalKey (nameKey p n)"
  by (simp add: canonicalKey_def nameKey_def)

lemma canonical_inodeKey: "length i = 16 \<Longrightarrow> canonicalKey (inodeKey i)"
  by (simp add: canonicalKey_def inodeKey_def)

lemma canonical_nonempty: "canonicalKey k \<Longrightarrow> k \<noteq> []"
  by (auto simp: canonicalKey_def)

lemma newDependencies_valid:
  assumes "ks \<noteq> []" "\<forall>k \<in> set ks. canonicalKey k"
  shows "deps_valid (newMutationDependencies ks)" "set (keys_of (newMutationDependencies ks)) = set ks"
proof -
  show set: "set (keys_of (newMutationDependencies ks)) = set ks"
    using newDependencies_keys(2) [of ks] assms(2) canonical_nonempty by auto
  then have "keys_of (newMutationDependencies ks) \<noteq> []" using assms(1) by (metis set_empty)
  then show "deps_valid (newMutationDependencies ks)"
    using set assms(2) newDependencies_keys(1) [of ks] by (simp add: deps_valid_def ascending_sorted list_all_iff)
qed

text \<open>The identities of a target have their sixteen bytes.\<close>

definition target_sized :: "MutationTarget \<Rightarrow> bool" where
  "target_sized t \<longleftrightarrow> length (mt_Identity t) = 16 \<and> length (mt_ParentIdentity t) = 16 \<and>
     (\<forall>i \<in> set (mt_RelatedIdentities t). length i = 16)"

definition target_keys :: "MutationTarget \<Rightarrow> mkey list" where
  "target_keys t = target_key t # (if mt_Scope t = MutationNamespace
     then inodeKey (mt_ParentIdentity t) # map inodeKey (mt_RelatedIdentities t) else [])"

lemma target_keys_canonical:
  assumes "target_sized t" "mt_Scope t = MutationNamespace \<longrightarrow> mt_Name t \<noteq> []" "k \<in> set (target_keys t)"
  shows "canonicalKey k"
  using assms
  by (auto simp: target_keys_def target_key_def target_sized_def canonical_nameKey canonical_inodeKey split: if_splits)

lemma deps_covers_iff:
  assumes "sorted_wrt (<) (keys_of d)"
  shows "deps_covers d ts \<longleftrightarrow> (\<forall>t \<in> set ts. set (target_keys t) \<subseteq> set (keys_of d))"
  by (auto simp: deps_covers_def deps_contains_iff [OF assms] list_all_iff target_keys_def)

lemma forTargets_keys: "mutationDependenciesForTargets ts = newMutationDependencies (concat (map target_keys ts))"
  by (simp add: mutationDependenciesForTargets_def target_keys_def [abs_def])

end
