(* ===== verification/Mutation_Sequencer.thy ===== *)
theory Mutation_Sequencer
  imports Mutation_Targets "HOL-Library.Monad_Syntax"
begin

text \<open>
  The mutation sequencer, \<^verbatim>\<open>src/vcs/internal/volumeserver/mutation_sequencer.go\<close>, and the storage
  sequencer built on it, \<^verbatim>\<open>storage_sequencer.go\<close>. A waiter asks for a set of keys and is granted
  all of them or none; on every key the waiters are served in the order of their ordinals.

  A waiter object is a number, and the store gives its fields. The claim queue of a key is
  the list of its waiters from head to tail; a key without a queue has the empty list. Ordinals,
  candidate generations and versions are 64-bit words that wrap, and the code's panics (a wrapped
  counter, a release of keys that are not held, a non-canonical set) are the result \<open>None\<close>. A call
  that waits is split at the wait: \<open>acquire\<close> enqueues, and a cancelled caller abandons.
\<close>

section \<open>State\<close>

record waiter =
  sw_keys :: "mkey list"
  sw_ordinal :: u64
  sw_ready :: bool
  sw_queued :: bool
  sw_candidateGeneration :: u64
  sw_granted :: bool
  sw_readOnly :: bool
  sw_settled :: bool

record dependencyVersion =
  dv_value :: u64
  dv_watchers :: u64

record mutationSequencer =
  sq_nextOrdinal :: u64
  sq_held :: "mkey \<Rightarrow> nat option"
  sq_versions :: "mkey \<Rightarrow> dependencyVersion option"
  sq_waiters :: "nat list"
  sq_claims :: "mkey \<Rightarrow> nat list"
  sq_candidateGeneration :: u64
  sq_candidates :: "nat list"
  sq_store :: "nat \<Rightarrow> waiter"
  sq_fresh :: nat

definition noWaiter :: waiter where
  "noWaiter = \<lparr>sw_keys = [], sw_ordinal = 0, sw_ready = False, sw_queued = False, sw_candidateGeneration = 0,
     sw_granted = False, sw_readOnly = False, sw_settled = False\<rparr>"

definition newMutationSequencer :: mutationSequencer where
  "newMutationSequencer = \<lparr>sq_nextOrdinal = 0, sq_held = (\<lambda>_. None), sq_versions = (\<lambda>_. None), sq_waiters = [],
     sq_claims = (\<lambda>_. []), sq_candidateGeneration = 0, sq_candidates = [], sq_store = (\<lambda>_. noWaiter), sq_fresh = 0\<rparr>"

definition mod_waiter :: "nat \<Rightarrow> (waiter \<Rightarrow> waiter) \<Rightarrow> mutationSequencer \<Rightarrow> mutationSequencer" where
  "mod_waiter w g s = s\<lparr>sq_store := (sq_store s)(w := g (sq_store s w))\<rparr>"

abbreviation ordinal_of :: "mutationSequencer \<Rightarrow> nat \<Rightarrow> u64" where
  "ordinal_of s w \<equiv> sw_ordinal (sq_store s w)"

section \<open>Ordinals and snapshots\<close>

definition nextOrdinalLocked :: "mutationSequencer \<Rightarrow> (u64 \<times> mutationSequencer) option" where
  "nextOrdinalLocked s =
     (let n = sq_nextOrdinal s + 1 in if n = 0 then None else Some (n, s\<lparr>sq_nextOrdinal := n\<rparr>))"

definition reserveOrdinal where
  "reserveOrdinal s = nextOrdinalLocked s"

text \<open>\<open>ds_once\<close> is set when the watchers of the snapshot have been released.\<close>

record dependencySnapshot =
  ds_versions :: "(mkey \<times> u64) list"
  ds_once :: bool

definition version_at :: "mutationSequencer \<Rightarrow> mkey \<Rightarrow> dependencyVersion" where
  "version_at s key = (case sq_versions s key of Some v \<Rightarrow> v | None \<Rightarrow> \<lparr>dv_value = 0, dv_watchers = 0\<rparr>)"

fun watch_keys :: "mkey list \<Rightarrow> mutationSequencer \<Rightarrow> ((mkey \<times> u64) list \<times> mutationSequencer) option" where
  "watch_keys [] s = Some ([], s)"
| "watch_keys (key # ks) s =
     (let v = version_at s key; v = v\<lparr>dv_watchers := dv_watchers v + 1\<rparr> in
      if dv_watchers v = 0 then None
      else do { (vs, s) \<leftarrow> watch_keys ks (s\<lparr>sq_versions := (sq_versions s)(key \<mapsto> v)\<rparr>);
                Some ((key, dv_value v) # vs, s) })"

definition snapshot :: "mutationSequencer \<Rightarrow> MutationDependencies \<Rightarrow> (dependencySnapshot \<times> mutationSequencer) option" where
  "snapshot s deps = do { (vs, s) \<leftarrow> watch_keys (keys_of deps) s; Some (\<lparr>ds_versions = vs, ds_once = False\<rparr>, s) }"

fun unwatch_keys :: "mkey list \<Rightarrow> mutationSequencer \<Rightarrow> mutationSequencer option" where
  "unwatch_keys [] s = Some s"
| "unwatch_keys (key # ks) s =
     (let v = version_at s key in
      if dv_watchers v = 0 then None
      else
        (let v = v\<lparr>dv_watchers := dv_watchers v - 1\<rparr> in
         unwatch_keys ks (s\<lparr>sq_versions := (sq_versions s)(key := (if dv_watchers v = 0 then None else Some v))\<rparr>)))"

definition releaseSnapshotLocked :: "mutationSequencer \<Rightarrow> dependencySnapshot \<Rightarrow> mutationSequencer option" where
  "releaseSnapshotLocked s sn = unwatch_keys (map fst (ds_versions sn)) s"

definition snapshot_release :: "mutationSequencer \<Rightarrow> dependencySnapshot \<Rightarrow> (dependencySnapshot \<times> mutationSequencer) option" where
  "snapshot_release s sn =
     (if ds_once sn then Some (sn, s)
      else do { s \<leftarrow> releaseSnapshotLocked s sn; Some (sn\<lparr>ds_once := True\<rparr>, s) })"

definition sn_unchanged ::
  "mutationSequencer \<Rightarrow> dependencySnapshot \<Rightarrow> (bool \<times> dependencySnapshot \<times> mutationSequencer) option" where
  "sn_unchanged s sn =
     (let same = list_all (\<lambda>(key, v). dv_value (version_at s key) = v) (ds_versions sn) in
      do { (sn, s) \<leftarrow> snapshot_release s sn; Some (same, sn, s) })"

section \<open>Queues\<close>

definition insertGlobalLocked :: "nat \<Rightarrow> mutationSequencer \<Rightarrow> mutationSequencer" where
  "insertGlobalLocked w s =
     (let ws = sq_waiters s; o' = ordinal_of s w in
      mod_waiter w (\<lambda>r. r\<lparr>sw_queued := True\<rparr>)
        (s\<lparr>sq_waiters :=
           (if ws = [] \<or> ordinal_of s (last ws) \<le> o' then ws @ [w]
            else takeWhile (\<lambda>v. \<not> ordinal_of s v > o') ws @ w # dropWhile (\<lambda>v. \<not> ordinal_of s v > o') ws)\<rparr>))"

text \<open>A claim is linked behind the last claim whose ordinal is not larger, found from the tail.\<close>

definition linkClaim :: "(nat \<Rightarrow> u64) \<Rightarrow> nat \<Rightarrow> nat list \<Rightarrow> nat list" where
  "linkClaim ord w q =
     (let later = (\<lambda>v. ord v > ord w) in
      rev (dropWhile later (rev q)) @ w # rev (takeWhile later (rev q)))"

definition insertLocked :: "nat \<Rightarrow> mutationSequencer \<Rightarrow> mutationSequencer" where
  "insertLocked w s =
     (let s = insertGlobalLocked w s;
          ks = sw_keys (sq_store s w) in
      s\<lparr>sq_claims := (\<lambda>key. if key \<in> set ks then linkClaim (ordinal_of s) w (sq_claims s key) else sq_claims s key)\<rparr>)"

definition removeClaimsLocked :: "nat \<Rightarrow> mutationSequencer \<Rightarrow> mutationSequencer" where
  "removeClaimsLocked w s =
     (let ks = sw_keys (sq_store s w) in
      s\<lparr>sq_claims := (\<lambda>key. if key \<in> set ks then remove1 w (sq_claims s key) else sq_claims s key)\<rparr>)"

definition eligibleLocked :: "mutationSequencer \<Rightarrow> nat \<Rightarrow> bool" where
  "eligibleLocked s w =
     (let r = sq_store s w in
      \<not> sw_settled r \<and> \<not> sw_granted r \<and> sw_queued r \<and>
      list_all (\<lambda>key. sq_held s key = None \<and> (case sq_claims s key of [] \<Rightarrow> False | v # _ \<Rightarrow> v = w)) (sw_keys r))"

definition unqueue :: "nat \<Rightarrow> mutationSequencer \<Rightarrow> mutationSequencer" where
  "unqueue w s = mod_waiter w (\<lambda>r. r\<lparr>sw_queued := False\<rparr>) (s\<lparr>sq_waiters := remove1 w (sq_waiters s)\<rparr>)"

definition grantLocked :: "nat \<Rightarrow> mutationSequencer \<Rightarrow> mutationSequencer" where
  "grantLocked w s =
     (let s = removeClaimsLocked w (unqueue w s);
          ks = sw_keys (sq_store s w) in
      mod_waiter w (\<lambda>r. r\<lparr>sw_granted := True, sw_ready := True\<rparr>)
        (s\<lparr>sq_held := (\<lambda>key. if key \<in> set ks then Some w else sq_held s key)\<rparr>))"

definition enqueueFor :: "mutationSequencer \<Rightarrow> MutationDependencies \<Rightarrow> u64 \<Rightarrow> (nat \<times> mutationSequencer) option" where
  "enqueueFor s deps reserved =
     (if \<not> deps_valid deps then None
      else
        do { (o', s) \<leftarrow> (if reserved = 0 then nextOrdinalLocked s else Some (reserved, s));
             let w = sq_fresh s;
             let s = s\<lparr>sq_fresh := w + 1, sq_store := (sq_store s)(w := noWaiter\<lparr>sw_keys := keys_of deps, sw_ordinal := o'\<rparr>)\<rparr>;
             let s = insertLocked w s;
             Some (w, if eligibleLocked s w then grantLocked w s else s) })"

definition enqueue where
  "enqueue s deps = enqueueFor s deps 0"

section \<open>Granting after a release\<close>

definition beginCandidatesLocked :: "mutationSequencer \<Rightarrow> mutationSequencer option" where
  "beginCandidatesLocked s =
     (let g = sq_candidateGeneration s + 1 in if g = 0 then None else Some (s\<lparr>sq_candidateGeneration := g\<rparr>))"

definition addCandidateLocked :: "nat \<Rightarrow> mutationSequencer \<Rightarrow> mutationSequencer" where
  "addCandidateLocked w s =
     (let r = sq_store s w in
      if sw_settled r \<or> sw_granted r \<or> sw_candidateGeneration r = sq_candidateGeneration s then s
      else mod_waiter w (\<lambda>r. r\<lparr>sw_candidateGeneration := sq_candidateGeneration s\<rparr>)
        (s\<lparr>sq_candidates := sq_candidates s @ [w]\<rparr>))"

definition addFront :: "mkey \<Rightarrow> mutationSequencer \<Rightarrow> mutationSequencer" where
  "addFront key s =
     (if sq_held s key = None then (case sq_claims s key of [] \<Rightarrow> s | w # _ \<Rightarrow> addCandidateLocked w s) else s)"

definition addFrontCandidatesLocked :: "mkey list \<Rightarrow> mutationSequencer \<Rightarrow> mutationSequencer" where
  "addFrontCandidatesLocked ks s = fold addFront ks s"

definition grantIfEligible :: "nat \<Rightarrow> mutationSequencer \<Rightarrow> mutationSequencer" where
  "grantIfEligible w s = (if eligibleLocked s w then grantLocked w s else s)"

definition grantCandidatesLocked :: "mutationSequencer \<Rightarrow> mutationSequencer" where
  "grantCandidatesLocked s =
     (fold grantIfEligible (sort_key (ordinal_of s) (sq_candidates s)) s)\<lparr>sq_candidates := []\<rparr>"

fun releaseEach :: "nat \<Rightarrow> mkey list \<Rightarrow> mutationSequencer \<Rightarrow> mutationSequencer option" where
  "releaseEach w [] s = Some s"
| "releaseEach w (key # ks) s =
     (if sq_held s key \<noteq> Some w then None
      else
        (let s = s\<lparr>sq_held := (sq_held s)(key := None)\<rparr> in
         case sq_versions s key of
           None \<Rightarrow> releaseEach w ks s
         | Some v \<Rightarrow>
             if sw_readOnly (sq_store s w) then releaseEach w ks s
             else if dv_value v + 1 = 0 then None
             else releaseEach w ks (s\<lparr>sq_versions := (sq_versions s)(key \<mapsto> v\<lparr>dv_value := dv_value v + 1\<rparr>)\<rparr>)))"

definition releaseKeysLocked :: "nat \<Rightarrow> mutationSequencer \<Rightarrow> mutationSequencer option" where
  "releaseKeysLocked w s =
     do { s \<leftarrow> releaseEach w (sw_keys (sq_store s w)) s;
          Some (mod_waiter w (\<lambda>r. r\<lparr>sw_granted := False\<rparr>) s) }"

definition requeue :: "mutationSequencer \<Rightarrow> nat \<Rightarrow> MutationDependencies \<Rightarrow> mutationSequencer option" where
  "requeue s w deps =
     (if \<not> deps_valid deps \<or> sw_settled (sq_store s w) \<or> \<not> sw_granted (sq_store s w) then None
      else
        do { s \<leftarrow> beginCandidatesLocked s;
             s \<leftarrow> releaseKeysLocked w s;
             let s = addFrontCandidatesLocked (sw_keys (sq_store s w)) s;
             let s = mod_waiter w (\<lambda>r. r\<lparr>sw_keys := keys_of deps, sw_ready := False\<rparr>) s;
             let s = insertLocked w s;
             let s = addCandidateLocked w s;
             Some (grantCandidatesLocked s) })"

definition wakeNext :: "nat \<Rightarrow> mutationSequencer \<Rightarrow> mutationSequencer" where
  "wakeNext w s = grantCandidatesLocked (addFrontCandidatesLocked (sw_keys (sq_store s w)) s)"

definition abandon :: "mutationSequencer \<Rightarrow> nat \<Rightarrow> mutationSequencer option" where
  "abandon s w =
     (if sw_settled (sq_store s w) then Some s
      else
        do { let s = mod_waiter w (\<lambda>r. r\<lparr>sw_settled := True\<rparr>) s;
             s \<leftarrow> beginCandidatesLocked s;
             s \<leftarrow> (if sw_granted (sq_store s w) then releaseKeysLocked w s
                   else if sw_queued (sq_store s w) then Some (removeClaimsLocked w (unqueue w s))
                   else Some s);
             Some (wakeNext w s) })"

definition sequencer_release :: "mutationSequencer \<Rightarrow> nat \<Rightarrow> mutationSequencer option" where
  "sequencer_release s w =
     (if sw_settled (sq_store s w) \<or> \<not> sw_granted (sq_store s w) then None
      else
        do { let s = mod_waiter w (\<lambda>r. r\<lparr>sw_settled := True\<rparr>) s;
             s \<leftarrow> beginCandidatesLocked s;
             s \<leftarrow> releaseKeysLocked w s;
             Some (wakeNext w s) })"

definition settle :: "mutationSequencer \<Rightarrow> nat \<Rightarrow> mutationSequencer option" where
  "settle s w = (if sw_settled (sq_store s w) then Some s else sequencer_release s w)"

definition queued :: "mutationSequencer \<Rightarrow> nat" where
  "queued s = length (sq_waiters s)"

section \<open>The storage sequencer\<close>

text \<open>
  An acquisition is the waiter it enqueues, with whether it was granted at once, and what follows
  the wait: the grant, or the end of the caller's context, which abandons the waiter. A wait that
  is told of a grant before \<open>ready\<close> is set has no result.
\<close>

definition acquire :: "mutationSequencer \<Rightarrow> MutationDependencies \<Rightarrow> (nat \<times> bool \<times> mutationSequencer) option" where
  "acquire s deps = do { (w, s) \<leftarrow> enqueue s deps; Some (w, sw_ready (sq_store s w), s) }"

datatype wake = Ready | ContextDone

definition acquire_wake :: "mutationSequencer \<Rightarrow> nat \<Rightarrow> wake \<Rightarrow> (nat option \<times> mutationSequencer) option" where
  "acquire_wake s w wk =
     (case wk of
        Ready \<Rightarrow> if sw_ready (sq_store s w) then Some (Some w, s) else None
      | ContextDone \<Rightarrow> do { s \<leftarrow> abandon s w; Some (None, s) })"

definition setReadOnly :: "mutationSequencer \<Rightarrow> nat \<Rightarrow> mutationSequencer" where
  "setReadOnly s w = mod_waiter w (\<lambda>r. r\<lparr>sw_readOnly := True\<rparr>) s"

definition AcquireRead_wake :: "mutationSequencer \<Rightarrow> nat \<Rightarrow> wake \<Rightarrow> (nat option \<times> mutationSequencer) option" where
  "AcquireRead_wake s w wk =
     do { (r, s) \<leftarrow> acquire_wake s w wk;
          Some (case r of None \<Rightarrow> (None, s) | Some w \<Rightarrow> (Some w, setReadOnly s w)) }"

text \<open>
  \<open>AcquireDeclared\<close>: the check of the declaration comes before the wait; a failed wait releases
  the declaration, a granted one consumes it and reports whether its bindings are unchanged.
\<close>

definition declared_covered :: "MutationDependencies \<Rightarrow> dependencySnapshot \<Rightarrow> bool" where
  "declared_covered deps sn = list_all (\<lambda>(key, _). list_ex (\<lambda>h. key = h) (keys_of deps)) (ds_versions sn)"

definition AcquireDeclared_wake ::
  "mutationSequencer \<Rightarrow> nat \<Rightarrow> dependencySnapshot \<Rightarrow> wake \<Rightarrow>
   ((nat \<times> bool) option \<times> dependencySnapshot \<times> mutationSequencer) option" where
  "AcquireDeclared_wake s w sn wk =
     do { (r, s) \<leftarrow> AcquireRead_wake s w wk;
          (case r of
             None \<Rightarrow> do { (sn, s) \<leftarrow> snapshot_release s sn; Some (None, sn, s) }
           | Some w \<Rightarrow> do { (same, sn, s) \<leftarrow> sn_unchanged s sn; Some (Some (w, same), sn, s) }) }"

fun expand_scan :: "mutationSequencer \<Rightarrow> nat \<Rightarrow> mkey list \<Rightarrow> mkey list \<Rightarrow> mkey list option" where
  "expand_scan s w mine [] = Some mine"
| "expand_scan s w mine (key # ks) =
     (if mine \<noteq> [] \<and> hd mine < key then None
      else
        (let existing = (mine \<noteq> [] \<and> hd mine = key);
             mine' = (if existing then tl mine else mine) in
         if sq_held s key \<noteq> None \<and> sq_held s key \<noteq> Some w then None
         else if \<not> existing \<and> (case sq_claims s key of [] \<Rightarrow> False | v # _ \<Rightarrow> ordinal_of s v < ordinal_of s w) then None
         else expand_scan s w mine' ks))"

definition TryExpand :: "mutationSequencer \<Rightarrow> nat \<Rightarrow> MutationDependencies \<Rightarrow> bool \<times> mutationSequencer" where
  "TryExpand s w deps =
     (if \<not> deps_valid deps \<or> sw_settled (sq_store s w) \<or> \<not> sw_granted (sq_store s w) then (False, s)
      else
        (case expand_scan s w (sw_keys (sq_store s w)) (keys_of deps) of
           Some [] \<Rightarrow>
             (True, mod_waiter w (\<lambda>r. r\<lparr>sw_keys := keys_of deps\<rparr>)
               (s\<lparr>sq_held := (\<lambda>key. if key \<in> set (keys_of deps) then Some w else sq_held s key)\<rparr>))
         | _ \<Rightarrow> (False, s)))"

end
