(* ===== verification/Mutation_Order.thy ===== *)
theory Mutation_Order
  imports Mutation_Sequencer
begin

text \<open>
  The invariant of the mutation sequencer and its preservation. A granted waiter holds
  exactly its keys, a queued one none; the claim queue of a key is the part of the global
  queue that wants the key, in the order of the ordinals; and between two calls no queued
  waiter could be granted, so no wake-up is lost.
\<close>

section \<open>Insertion by ordinal\<close>

definition place :: "(nat \<Rightarrow> u64) \<Rightarrow> nat \<Rightarrow> nat list \<Rightarrow> nat list" where
  "place ord w ws = filter (\<lambda>v. ord v \<le> ord w) ws @ w # filter (\<lambda>v. ord v > ord w) ws"

lemma sorted_split:
  assumes "sorted (map f ws)"
  shows "takeWhile (\<lambda>v. \<not> f v > c) ws = filter (\<lambda>v. f v \<le> c) ws"
    "dropWhile (\<lambda>v. \<not> f v > c) ws = filter (\<lambda>v. f v > (c :: u64)) ws"
proof -
  have "takeWhile (\<lambda>v. \<not> f v > c) ws = filter (\<lambda>v. f v \<le> c) ws \<and> dropWhile (\<lambda>v. \<not> f v > c) ws = filter (\<lambda>v. f v > c) ws"
    using assms
  proof (induction ws)
    case (Cons v ws)
    show ?case
    proof (cases "f v > c")
      case True
      with Cons.prems have "\<forall>u \<in> set ws. f u > c" by auto
      then have "filter (\<lambda>u. f u \<le> c) ws = []" "filter (\<lambda>u. f u > c) ws = ws"
        by (auto simp: filter_empty_conv filter_id_conv not_le)
      with True show ?thesis by simp
    qed (use Cons in auto)
  qed simp
  then show "takeWhile (\<lambda>v. \<not> f v > c) ws = filter (\<lambda>v. f v \<le> c) ws"
    "dropWhile (\<lambda>v. \<not> f v > c) ws = filter (\<lambda>v. f v > c) ws" by blast+
qed

lemma sorted_split_rev:
  assumes "sorted (map f ws)"
  shows "rev (takeWhile (\<lambda>v. f v > c) (rev ws)) = filter (\<lambda>v. f v > c) ws"
    "rev (dropWhile (\<lambda>v. f v > c) (rev ws)) = filter (\<lambda>v. f v \<le> (c :: u64)) ws"
proof -
  have "rev (takeWhile (\<lambda>v. f v > c) (rev ws)) = filter (\<lambda>v. f v > c) ws \<and>
      rev (dropWhile (\<lambda>v. f v > c) (rev ws)) = filter (\<lambda>v. f v \<le> c) ws"
    using assms
  proof (induction ws rule: rev_induct)
    case (snoc v ws)
    show ?case
    proof (cases "f v > c")
      case False
      with snoc.prems have "\<forall>u \<in> set ws. f u \<le> c" by (auto simp: sorted_append)
      then have "filter (\<lambda>u. f u > c) ws = []" "filter (\<lambda>u. f u \<le> c) ws = ws"
        by (auto simp: filter_empty_conv filter_id_conv not_less)
      with False show ?thesis by simp
    qed (use snoc in \<open>auto simp: sorted_append\<close>)
  qed simp
  then show "rev (takeWhile (\<lambda>v. f v > c) (rev ws)) = filter (\<lambda>v. f v > c) ws"
    "rev (dropWhile (\<lambda>v. f v > c) (rev ws)) = filter (\<lambda>v. f v \<le> c) ws" by blast+
qed

lemma linkClaim_place: "sorted (map ord q) \<Longrightarrow> linkClaim ord w q = place ord w q"
  by (simp add: linkClaim_def place_def sorted_split_rev Let_def)

lemma insertGlobal_place:
  assumes "sorted (map ord ws)"
  shows "(if ws = [] \<or> ord (last ws) \<le> ord w then ws @ [w]
     else takeWhile (\<lambda>v. \<not> ord v > ord w) ws @ w # dropWhile (\<lambda>v. \<not> ord v > ord w) ws) = place ord w ws"
proof (cases "ws = [] \<or> ord (last ws) \<le> ord w")
  case True
  have "ord v \<le> ord w" if "v \<in> set ws" for v
  proof -
    from that obtain us u where ws: "ws = us @ [u]" by (cases ws rule: rev_cases) auto
    with assms that have "ord v \<le> ord (last ws)" by (auto simp: sorted_append)
    with True that show ?thesis by auto
  qed
  then have "filter (\<lambda>v. ord v \<le> ord w) ws = ws" "filter (\<lambda>v. ord v > ord w) ws = []"
    by (auto simp: filter_id_conv filter_empty_conv not_less)
  with True show ?thesis by (auto simp: place_def)
next
  case False
  then show ?thesis using sorted_split [OF assms, of "ord w"] by (simp add: place_def)
qed

lemma set_place [simp]: "set (place ord w ws) = insert w (set ws)"
  by (auto simp: place_def)

lemma filter_place: "P w \<Longrightarrow> filter P (place ord w ws) = place ord w (filter P ws)"
  by (simp add: place_def conj_commute)

lemma filter_place_not: "sorted (map ord ws) \<Longrightarrow> \<not> P w \<Longrightarrow> filter P (place ord w ws) = filter P ws"
proof (induction ws)
  case (Cons v ws)
  show ?case
  proof (cases "ord v \<le> ord w")
    case False
    with Cons.prems have "\<forall>u \<in> set ws. \<not> ord u \<le> ord w" by (auto simp: not_le intro: less_le_trans)
    then have "filter (\<lambda>u. ord u \<le> ord w) ws = []" "filter (\<lambda>u. ord u > ord w) ws = ws"
      by (auto simp: filter_empty_conv filter_id_conv not_le)
    with False Cons.prems show ?thesis by (simp add: place_def not_le)
  qed (use Cons in \<open>auto simp: place_def\<close>)
qed (simp add: place_def)

lemma sorted_place: "sorted (map ord ws) \<Longrightarrow> sorted (map ord (place ord w ws))"
  by (auto simp: place_def sorted_append sorted_filter intro: less_imp_le)

lemma distinct_place: "distinct ws \<Longrightarrow> w \<notin> set ws \<Longrightarrow> distinct (place ord w ws)"
  by (auto simp: place_def)

section \<open>The invariant\<close>

abbreviation wkeys :: "mutationSequencer \<Rightarrow> nat \<Rightarrow> mkey list" where
  "wkeys s w \<equiv> sw_keys (sq_store s w)"

abbreviation wgranted :: "mutationSequencer \<Rightarrow> nat \<Rightarrow> bool" where
  "wgranted s w \<equiv> sw_granted (sq_store s w)"

abbreviation wqueued :: "mutationSequencer \<Rightarrow> nat \<Rightarrow> bool" where
  "wqueued s w \<equiv> sw_queued (sq_store s w)"

abbreviation wsettled :: "mutationSequencer \<Rightarrow> nat \<Rightarrow> bool" where
  "wsettled s w \<equiv> sw_settled (sq_store s w)"

definition seq_core :: "mutationSequencer \<Rightarrow> bool" where
  "seq_core s \<longleftrightarrow>
     distinct (sq_waiters s) \<and> sorted (map (ordinal_of s) (sq_waiters s)) \<and>
     (\<forall>w. wqueued s w \<longleftrightarrow> w \<in> set (sq_waiters s)) \<and>
     (\<forall>w. wqueued s w \<longrightarrow> \<not> wgranted s w \<and> \<not> wsettled s w) \<and>
     (\<forall>k. sq_claims s k = filter (\<lambda>w. k \<in> set (wkeys s w)) (sq_waiters s)) \<and>
     (\<forall>k w. sq_held s k = Some w \<longleftrightarrow> wgranted s w \<and> k \<in> set (wkeys s w)) \<and>
     (\<forall>w. wqueued s w \<or> wgranted s w \<longrightarrow> w < sq_fresh s \<and> wkeys s w \<noteq> [] \<and> sorted_wrt (<) (wkeys s w)) \<and>
     (\<forall>w. sw_candidateGeneration (sq_store s w) \<le> sq_candidateGeneration s)"

text \<open>No queued waiter is eligible: whoever can go has gone.\<close>

definition seq_idle :: "mutationSequencer \<Rightarrow> bool" where
  "seq_idle s \<longleftrightarrow> sq_candidates s = [] \<and> (\<forall>w. \<not> eligibleLocked s w)"

definition seq_inv :: "mutationSequencer \<Rightarrow> bool" where
  "seq_inv s \<longleftrightarrow> seq_core s \<and> seq_idle s \<and> (\<forall>w. wsettled s w \<longrightarrow> \<not> wgranted s w)"

lemma seq_coreI:
  assumes "distinct (sq_waiters s)" "sorted (map (ordinal_of s) (sq_waiters s))"
    "\<And>w. wqueued s w \<longleftrightarrow> w \<in> set (sq_waiters s)"
    "\<And>w. wqueued s w \<Longrightarrow> \<not> wgranted s w \<and> \<not> wsettled s w"
    "\<And>k. sq_claims s k = filter (\<lambda>w. k \<in> set (wkeys s w)) (sq_waiters s)"
    "\<And>k w. sq_held s k = Some w \<longleftrightarrow> wgranted s w \<and> k \<in> set (wkeys s w)"
    "\<And>w. wqueued s w \<or> wgranted s w \<Longrightarrow> w < sq_fresh s \<and> wkeys s w \<noteq> [] \<and> sorted_wrt (<) (wkeys s w)"
    "\<And>w. sw_candidateGeneration (sq_store s w) \<le> sq_candidateGeneration s"
  shows "seq_core s"
  using assms unfolding seq_core_def by blast

lemma seq_coreD:
  assumes "seq_core s"
  shows "distinct (sq_waiters s)" "sorted (map (ordinal_of s) (sq_waiters s))"
    "wqueued s w \<longleftrightarrow> w \<in> set (sq_waiters s)"
    "wqueued s w \<Longrightarrow> \<not> wgranted s w \<and> \<not> wsettled s w"
    "sq_claims s k = filter (\<lambda>w. k \<in> set (wkeys s w)) (sq_waiters s)"
    "sq_held s k = Some w \<longleftrightarrow> wgranted s w \<and> k \<in> set (wkeys s w)"
    "wqueued s w \<or> wgranted s w \<Longrightarrow> w < sq_fresh s \<and> wkeys s w \<noteq> [] \<and> sorted_wrt (<) (wkeys s w)"
    "sw_candidateGeneration (sq_store s w) \<le> sq_candidateGeneration s"
  using assms unfolding seq_core_def by blast+

lemma head_case: "(case xs of [] \<Rightarrow> False | v # _ \<Rightarrow> v = w) \<longleftrightarrow> (\<exists>r. xs = w # r)"
  by (cases xs) auto

lemma eligible_iff:
  assumes "seq_core s"
  shows "eligibleLocked s w \<longleftrightarrow> wqueued s w \<and>
    (\<forall>k \<in> set (wkeys s w). sq_held s k = None \<and>
       (\<exists>r. filter (\<lambda>v. k \<in> set (wkeys s v)) (sq_waiters s) = w # r))"
  using seq_coreD(4) [OF assms, of w]
  unfolding eligibleLocked_def Let_def list_all_iff head_case seq_coreD(5) [OF assms] by blast

lemma core_heldD: "seq_core s \<Longrightarrow> sq_held s k = Some w \<longleftrightarrow> wgranted s w \<and> k \<in> set (wkeys s w)"
  by (simp add: seq_core_def)

lemma core_held_None: "seq_core s \<Longrightarrow> sq_held s k = None \<longleftrightarrow> (\<forall>w. wgranted s w \<longrightarrow> k \<notin> set (wkeys s w))"
  by (metis (no_types, lifting) core_heldD not_None_eq)

lemma new_inv: "seq_inv newMutationSequencer"
  by (simp add: seq_inv_def seq_core_def seq_idle_def newMutationSequencer_def noWaiter_def eligibleLocked_def)

section \<open>Granting\<close>

lemma grant_fields:
  "sq_waiters (grantLocked w s) = remove1 w (sq_waiters s)"
  "sq_claims (grantLocked w s) = (\<lambda>k. if k \<in> set (wkeys s w) then remove1 w (sq_claims s k) else sq_claims s k)"
  "sq_held (grantLocked w s) = (\<lambda>k. if k \<in> set (wkeys s w) then Some w else sq_held s k)"
  "sq_store (grantLocked w s) = (sq_store s)(w := (sq_store s w)\<lparr>sw_queued := False, sw_granted := True, sw_ready := True\<rparr>)"
  "sq_fresh (grantLocked w s) = sq_fresh s" "sq_candidates (grantLocked w s) = sq_candidates s"
  "sq_candidateGeneration (grantLocked w s) = sq_candidateGeneration s"
  "sq_versions (grantLocked w s) = sq_versions s" "sq_nextOrdinal (grantLocked w s) = sq_nextOrdinal s"
  by (simp_all add: grantLocked_def removeClaimsLocked_def unqueue_def mod_waiter_def Let_def fun_eq_iff)

lemma grant_core:
  assumes "seq_core s" "eligibleLocked s w"
  shows "seq_core (grantLocked w s)"
proof -
  have el: "wqueued s w" "\<not> wgranted s w" "\<not> wsettled s w" "\<forall>k \<in> set (wkeys s w). sq_held s k = None"
    using assms eligible_iff [OF assms(1)] by (auto simp: seq_core_def)
  note core = seq_coreD [OF assms(1)]
  let ?g = "grantLocked w s"
  have same: "ordinal_of ?g v = ordinal_of s v" "wkeys ?g v = wkeys s v" "wsettled ?g v = wsettled s v"
    "wqueued ?g v \<longleftrightarrow> wqueued s v \<and> v \<noteq> w" "wgranted ?g v \<longleftrightarrow> wgranted s v \<or> v = w" for v
    by (auto simp: grant_fields)
  show ?thesis
  proof (rule seq_coreI)
    show "distinct (sq_waiters ?g)" using core(1) by (simp add: grant_fields)
    show "sorted (map (ordinal_of ?g) (sq_waiters ?g))"
      using core(2) by (simp add: same grant_fields(1) sorted_map_remove1)
    show "wqueued ?g v \<longleftrightarrow> v \<in> set (sq_waiters ?g)" for v using core(1,3) by (auto simp: same grant_fields(1))
    show "\<not> wgranted ?g v \<and> \<not> wsettled ?g v" if "wqueued ?g v" for v using that core(4) [of v] by (auto simp: same)
    show "sq_claims ?g k = filter (\<lambda>v. k \<in> set (wkeys ?g v)) (sq_waiters ?g)" for k
      using core(5) [of k] by (auto simp: same grant_fields(1,2) filter_remove1 remove1_idem)
    show "sq_held ?g k = Some v \<longleftrightarrow> wgranted ?g v \<and> k \<in> set (wkeys ?g v)" for k v
      using el(2,4) core(6) [of k v] by (auto simp: same grant_fields(3))
    show "v < sq_fresh ?g \<and> wkeys ?g v \<noteq> [] \<and> sorted_wrt (<) (wkeys ?g v)" if "wqueued ?g v \<or> wgranted ?g v" for v
      using that el(1) core(7) [of v] by (auto simp: same grant_fields(5))
    show "sw_candidateGeneration (sq_store ?g v) \<le> sq_candidateGeneration ?g" for v
      using core(8) [of v] by (auto simp: grant_fields)
  qed
qed

text \<open>A grant makes nobody else eligible.\<close>

lemma grant_antitone:
  assumes "seq_core s" "eligibleLocked s w" "eligibleLocked (grantLocked w s) u"
  shows "eligibleLocked s u"
proof -
  have u: "u \<noteq> w" using assms(3) by (auto simp: eligibleLocked_def grant_fields Let_def)
  then have keys: "sq_store (grantLocked w s) u = sq_store s u" by (simp add: grant_fields)
  have "sq_held s k = None \<and> (case sq_claims s k of [] \<Rightarrow> False | v # _ \<Rightarrow> v = u)" if "k \<in> set (wkeys s u)" for k
  proof -
    have g: "sq_held (grantLocked w s) k = None" "case sq_claims (grantLocked w s) k of [] \<Rightarrow> False | v # _ \<Rightarrow> v = u"
      using assms(3) that keys by (auto simp: eligibleLocked_def list_all_iff Let_def)
    then have "k \<notin> set (wkeys s w)" by (auto simp: grant_fields split: if_splits)
    with g show ?thesis by (simp add: grant_fields)
  qed
  with assms(3) keys show ?thesis by (simp add: eligibleLocked_def list_all_iff Let_def)
qed

lemma grantIf_core: "seq_core s \<Longrightarrow> seq_core (grantIfEligible w s)"
  by (simp add: grantIfEligible_def grant_core)

lemma grantIf_antitone: "seq_core s \<Longrightarrow> eligibleLocked (grantIfEligible w s) u \<Longrightarrow> eligibleLocked s u"
  by (auto simp: grantIfEligible_def split: if_splits intro: grant_antitone)

lemma grantIf_self: "\<not> eligibleLocked (grantIfEligible w s) w"
  by (auto simp: grantIfEligible_def eligibleLocked_def grant_fields Let_def)

lemma grant_fold:
  assumes "seq_core s"
  shows "seq_core (fold grantIfEligible ws s) \<and>
    (\<forall>u. eligibleLocked (fold grantIfEligible ws s) u \<longrightarrow> eligibleLocked s u \<and> u \<notin> set ws)"
  using assms
proof (induction ws arbitrary: s)
  case (Cons w ws)
  then have "seq_core (grantIfEligible w s)" by (simp add: grantIf_core)
  from Cons.IH [OF this] Cons.prems show ?case
    using grantIf_antitone grantIf_self by fastforce
qed simp

text \<open>What the grants of a candidate list leave alone.\<close>

lemma grantIf_keeps:
  "wkeys (grantIfEligible w s) v = wkeys s v" "wsettled (grantIfEligible w s) v = wsettled s v"
  "sq_fresh (grantIfEligible w s) = sq_fresh s" "ordinal_of (grantIfEligible w s) v = ordinal_of s v"
  "sq_versions (grantIfEligible w s) = sq_versions s"
  "wgranted s v \<Longrightarrow> wgranted (grantIfEligible w s) v"
  "wgranted (grantIfEligible w s) v \<Longrightarrow> wgranted s v \<or> wqueued s v"
  "wqueued (grantIfEligible w s) v \<Longrightarrow> wqueued s v"
  by (auto simp: grantIfEligible_def grant_fields eligibleLocked_def Let_def fun_eq_iff split: if_splits)

lemma grant_fold_keeps:
  "wkeys (fold grantIfEligible ws s) v = wkeys s v" "wsettled (fold grantIfEligible ws s) v = wsettled s v"
  "sq_fresh (fold grantIfEligible ws s) = sq_fresh s" "ordinal_of (fold grantIfEligible ws s) v = ordinal_of s v"
  "sq_versions (fold grantIfEligible ws s) = sq_versions s"
  by (induction ws arbitrary: s; simp add: grantIf_keeps(1-5))+

lemma grant_fold_granted: "wgranted s v \<Longrightarrow> wgranted (fold grantIfEligible ws s) v"
  by (induction ws arbitrary: s) (simp_all add: grantIf_keeps(6))

lemma grant_fold_from: "wgranted (fold grantIfEligible ws s) v \<Longrightarrow> wgranted s v \<or> wqueued s v"
proof (induction ws arbitrary: s)
  case (Cons w ws)
  then have "wgranted (grantIfEligible w s) v \<or> wqueued (grantIfEligible w s) v" by simp
  then show ?case using grantIf_keeps(7,8) by blast
qed simp

lemma core_candidates [simp]: "seq_core (s\<lparr>sq_candidates := c\<rparr>) = seq_core s"
  by (simp add: seq_core_def)

lemma eligible_candidates [simp]: "eligibleLocked (s\<lparr>sq_candidates := c\<rparr>) w = eligibleLocked s w"
  by (simp add: eligibleLocked_def)

lemma grantCandidates_idle:
  assumes "seq_core s" "\<forall>u. eligibleLocked s u \<longrightarrow> u \<in> set (sq_candidates s)" "\<forall>w. wsettled s w \<longrightarrow> \<not> wgranted s w"
  shows "seq_inv (grantCandidatesLocked s)"
proof -
  let ?ws = "sort_key (ordinal_of s) (sq_candidates s)"
  have f: "seq_core (fold grantIfEligible ?ws s)"
    "\<forall>u. eligibleLocked (fold grantIfEligible ?ws s) u \<longrightarrow> eligibleLocked s u \<and> u \<notin> set ?ws"
    using grant_fold [OF assms(1), of ?ws] by auto
  have "\<not> wgranted (fold grantIfEligible ?ws s) w" if "wsettled s w" for w
    using that assms(1,3) grant_fold_from [of ?ws s w] by (auto simp: seq_core_def)
  with f assms(2) show ?thesis
    by (auto simp: seq_inv_def seq_idle_def grantCandidatesLocked_def grant_fold_keeps(2))
qed

section \<open>Candidates\<close>

text \<open>Collecting candidates changes nothing else, and finds the head of every free key.\<close>

definition same_state :: "mutationSequencer \<Rightarrow> mutationSequencer \<Rightarrow> bool" where
  "same_state s t \<longleftrightarrow> sq_waiters t = sq_waiters s \<and> sq_claims t = sq_claims s \<and> sq_held t = sq_held s \<and>
     sq_fresh t = sq_fresh s \<and> sq_versions t = sq_versions s \<and> sq_candidateGeneration t = sq_candidateGeneration s \<and>
     (\<forall>w. wkeys t w = wkeys s w \<and> ordinal_of t w = ordinal_of s w \<and> wqueued t w = wqueued s w \<and>
        wgranted t w = wgranted s w \<and> wsettled t w = wsettled s w \<and> sw_readOnly (sq_store t w) = sw_readOnly (sq_store s w) \<and>
        sw_candidateGeneration (sq_store t w) \<in> {sw_candidateGeneration (sq_store s w), sq_candidateGeneration s})"

lemma same_state_refl: "same_state s s"
  by (auto simp: same_state_def)

lemma same_stateD:
  assumes "same_state s t"
  shows "sq_waiters t = sq_waiters s" "sq_claims t = sq_claims s" "sq_held t = sq_held s" "sq_fresh t = sq_fresh s"
    "sq_versions t = sq_versions s" "sq_candidateGeneration t = sq_candidateGeneration s"
    "wkeys t w = wkeys s w" "ordinal_of t w = ordinal_of s w" "wqueued t w = wqueued s w" "wgranted t w = wgranted s w"
    "wsettled t w = wsettled s w" "sw_readOnly (sq_store t w) = sw_readOnly (sq_store s w)"
    "sw_candidateGeneration (sq_store t w) \<in> {sw_candidateGeneration (sq_store s w), sq_candidateGeneration s}"
  using assms unfolding same_state_def by blast+

lemma same_state_trans:
  assumes "same_state s t" "same_state t u"
  shows "same_state s u"
proof -
  have "sw_candidateGeneration (sq_store u w) \<in> {sw_candidateGeneration (sq_store s w), sq_candidateGeneration s}" for w
    using same_stateD(13) [OF assms(1), of w] same_stateD(13) [OF assms(2), of w] same_stateD(6) [OF assms(1)] by auto
  then show ?thesis
    using assms unfolding same_state_def by simp
qed

lemma same_state_core:
  assumes "same_state s t" "seq_core s"
  shows "seq_core t"
proof -
  note st = same_stateD [OF assms(1)] and core = seq_coreD [OF assms(2)]
  show ?thesis
  proof (rule seq_coreI)
    show "sw_candidateGeneration (sq_store t w) \<le> sq_candidateGeneration t" for w
      using st(13) [of w] core(8) [of w] by (auto simp: st(6))
  qed (use core st(1-11) in auto)
qed

lemma same_state_eligible: "same_state s t \<Longrightarrow> eligibleLocked t w = eligibleLocked s w"
  by (simp add: eligibleLocked_def same_stateD Let_def)

text \<open>Whoever carries the current generation is already a candidate.\<close>

definition marked :: "mutationSequencer \<Rightarrow> bool" where
  "marked s \<longleftrightarrow> (\<forall>w. sw_candidateGeneration (sq_store s w) = sq_candidateGeneration s \<longrightarrow> w \<in> set (sq_candidates s))"

lemma addCandidate_step:
  assumes "marked s"
  shows "same_state s (addCandidateLocked w s)" "marked (addCandidateLocked w s)"
    "set (sq_candidates s) \<subseteq> set (sq_candidates (addCandidateLocked w s))"
    "\<not> wsettled s w \<Longrightarrow> \<not> wgranted s w \<Longrightarrow> w \<in> set (sq_candidates (addCandidateLocked w s))"
  using assms
  by (auto simp: addCandidateLocked_def mod_waiter_def marked_def same_state_def Let_def)

lemma addFront_step:
  assumes "marked s"
  shows "same_state s (addFront k s)" "marked (addFront k s)"
    "set (sq_candidates s) \<subseteq> set (sq_candidates (addFront k s))"
  using assms addCandidate_step [OF assms] same_state_refl
  by (auto simp: addFront_def split: list.splits)

lemma addFronts_step:
  "marked s \<Longrightarrow> same_state s (addFrontCandidatesLocked ks s) \<and> marked (addFrontCandidatesLocked ks s) \<and>
     set (sq_candidates s) \<subseteq> set (sq_candidates (addFrontCandidatesLocked ks s)) \<and>
     (\<forall>k w r. k \<in> set ks \<longrightarrow> sq_held s k = None \<longrightarrow> sq_claims s k = w # r \<longrightarrow> \<not> wsettled s w \<longrightarrow> \<not> wgranted s w \<longrightarrow>
        w \<in> set (sq_candidates (addFrontCandidatesLocked ks s)))"
proof (induction ks arbitrary: s)
  case Nil
  then show ?case by (simp add: addFrontCandidatesLocked_def same_state_refl)
next
  case (Cons k ks)
  let ?t = "addFront k s"
  note step = addFront_step [OF Cons.prems, of k] and st = same_stateD [OF addFront_step(1) [OF Cons.prems, of k]]
  have eq: "addFrontCandidatesLocked (k # ks) s = addFrontCandidatesLocked ks ?t" by (simp add: addFrontCandidatesLocked_def)
  have IH: "same_state ?t (addFrontCandidatesLocked ks ?t)" "marked (addFrontCandidatesLocked ks ?t)"
    "set (sq_candidates ?t) \<subseteq> set (sq_candidates (addFrontCandidatesLocked ks ?t))"
    "\<forall>k w r. k \<in> set ks \<longrightarrow> sq_held ?t k = None \<longrightarrow> sq_claims ?t k = w # r \<longrightarrow> \<not> wsettled ?t w \<longrightarrow> \<not> wgranted ?t w \<longrightarrow>
        w \<in> set (sq_candidates (addFrontCandidatesLocked ks ?t))"
    using Cons.IH [OF step(2)] by blast+
  have here: "w \<in> set (sq_candidates ?t)" if "sq_held s k = None" "sq_claims s k = w # r" "\<not> wsettled s w" "\<not> wgranted s w" for w r
    using that addCandidate_step(4) [OF Cons.prems, of w] by (simp add: addFront_def)
  have "w \<in> set (sq_candidates (addFrontCandidatesLocked ks ?t))"
    if "j \<in> set (k # ks)" "sq_held s j = None" "sq_claims s j = w # r" "\<not> wsettled s w" "\<not> wgranted s w" for j w r
    using that here [of w r] IH(3,4) by (auto simp: st)
  then show ?case
    unfolding eq using IH(1-3) step(3) same_state_trans [OF step(1) IH(1)] by blast
qed

section \<open>Operations\<close>

lemma begin_core:
  assumes "seq_core s" "beginCandidatesLocked s = Some t" "sq_candidates s = []"
  shows "seq_core t" "marked t" "t = s\<lparr>sq_candidateGeneration := sq_candidateGeneration s + 1\<rparr>"
proof -
  have t: "t = s\<lparr>sq_candidateGeneration := sq_candidateGeneration s + 1\<rparr>" "sq_candidateGeneration s + 1 \<noteq> 0"
    using assms(2) by (auto simp: beginCandidatesLocked_def Let_def split: if_splits)
  then have "sq_candidateGeneration s \<noteq> MaxUint64" by auto
  then have less: "sq_candidateGeneration s < sq_candidateGeneration s + 1" by (rule word_less_succ)
  note core = seq_coreD [OF assms(1)]
  show "t = s\<lparr>sq_candidateGeneration := sq_candidateGeneration s + 1\<rparr>" by (rule t(1))
  show "seq_core t"
  proof (rule seq_coreI)
    show "sw_candidateGeneration (sq_store t w) \<le> sq_candidateGeneration t" for w
      using core(8) [of w] less by (simp add: t(1))
  qed (use core in \<open>auto simp: t(1)\<close>)
  show "marked t"
    using core(8) less by (auto simp: marked_def t(1)) (metis leD)
qed

text \<open>Releasing the keys of a granted waiter; it only fails when a watched version would wrap.\<close>

lemma releaseEach_state:
  assumes "releaseEach w ks s = Some t"
  shows "sq_held t k = (if k \<in> set ks then None else sq_held s k)"
    "sq_claims t = sq_claims s" "sq_waiters t = sq_waiters s" "sq_candidates t = sq_candidates s" "sq_fresh t = sq_fresh s"
    "sq_candidateGeneration t = sq_candidateGeneration s" "sq_store t = sq_store s"
proof -
  have "sq_held t k = (if k \<in> set ks then None else sq_held s k) \<and>
    sq_claims t = sq_claims s \<and> sq_waiters t = sq_waiters s \<and> sq_candidates t = sq_candidates s \<and> sq_fresh t = sq_fresh s \<and>
    sq_candidateGeneration t = sq_candidateGeneration s \<and> sq_store t = sq_store s"
    using assms
    by (induction ks arbitrary: s) (fastforce simp: Let_def split: if_splits option.splits)+
  then show "sq_held t k = (if k \<in> set ks then None else sq_held s k)"
    "sq_claims t = sq_claims s" "sq_waiters t = sq_waiters s" "sq_candidates t = sq_candidates s" "sq_fresh t = sq_fresh s"
    "sq_candidateGeneration t = sq_candidateGeneration s" "sq_store t = sq_store s" by blast+
qed

lemma releaseKeys_core:
  assumes "seq_core s" "wgranted s w" "releaseKeysLocked w s = Some t"
  shows "seq_core t" "\<And>k. sq_held t k = (if k \<in> set (wkeys s w) then None else sq_held s k)"
    "sq_claims t = sq_claims s" "sq_waiters t = sq_waiters s" "sq_candidates t = sq_candidates s" "sq_fresh t = sq_fresh s"
    "sq_candidateGeneration t = sq_candidateGeneration s"
    "sq_store t = (sq_store s)(w := (sq_store s w)\<lparr>sw_granted := False\<rparr>)"
proof -
  obtain u where u: "releaseEach w (wkeys s w) s = Some u" "t = mod_waiter w (\<lambda>r. r\<lparr>sw_granted := False\<rparr>) u"
    using assms(3) by (auto simp: releaseKeysLocked_def split: bind_splits)
  show st: "\<And>k. sq_held t k = (if k \<in> set (wkeys s w) then None else sq_held s k)"
    "sq_claims t = sq_claims s" "sq_waiters t = sq_waiters s" "sq_candidates t = sq_candidates s" "sq_fresh t = sq_fresh s"
    "sq_candidateGeneration t = sq_candidateGeneration s"
    "sq_store t = (sq_store s)(w := (sq_store s w)\<lparr>sw_granted := False\<rparr>)"
    using u(2) by (simp_all add: mod_waiter_def releaseEach_state [OF u(1)])
  note core = seq_coreD [OF assms(1)]
  have same: "ordinal_of t v = ordinal_of s v" "wkeys t v = wkeys s v" "wsettled t v = wsettled s v" "wqueued t v = wqueued s v"
    "wgranted t v \<longleftrightarrow> wgranted s v \<and> v \<noteq> w" "sw_candidateGeneration (sq_store t v) = sw_candidateGeneration (sq_store s v)" for v
    by (auto simp: st(7))
  show "seq_core t"
  proof (rule seq_coreI)
    show "sq_held t k = Some v \<longleftrightarrow> wgranted t v \<and> k \<in> set (wkeys t v)" for k v
      using core(6) [of k v] core(6) [of k w] assms(2) by (auto simp: st(1) same)
  qed (use core in \<open>auto simp: st(2-6) same\<close>)
qed

lemma idle_not_eligible: "seq_inv s \<Longrightarrow> \<not> eligibleLocked s w"
  by (simp add: seq_inv_def seq_idle_def)

text \<open>
  After keys were given up or claims withdrawn, everybody who became eligible stands at the
  head of a free key among those of the waiter, so the candidates contain them.
\<close>

lemma wake_idle:
  assumes "seq_core s" "marked s" "\<forall>v. wsettled s v \<longrightarrow> \<not> wgranted s v"
    "\<forall>u. eligibleLocked s u \<longrightarrow> (\<exists>k \<in> set (wkeys s w). k \<in> set (wkeys s u))"
  shows "seq_inv (wakeNext w s)"
proof -
  let ?t = "addFrontCandidatesLocked (wkeys s w) s"
  have fr: "same_state s ?t" "\<forall>k v r. k \<in> set (wkeys s w) \<longrightarrow> sq_held s k = None \<longrightarrow> sq_claims s k = v # r \<longrightarrow>
      \<not> wsettled s v \<longrightarrow> \<not> wgranted s v \<longrightarrow> v \<in> set (sq_candidates ?t)"
    using addFronts_step [OF assms(2), of "wkeys s w"] by blast+
  have "u \<in> set (sq_candidates ?t)" if el: "eligibleLocked s u" for u
  proof -
    obtain k where k: "k \<in> set (wkeys s w)" "k \<in> set (wkeys s u)" using assms(4) el by blast
    have "wqueued s u" "sq_held s k = None" "\<exists>r. sq_claims s k = u # r"
      using el k(2) unfolding eligible_iff [OF assms(1)] seq_coreD(5) [OF assms(1)] by blast+
    with fr(2) k(1) seq_coreD(4) [OF assms(1)] show ?thesis by blast
  qed
  then show ?thesis
    unfolding wakeNext_def using assms(3) same_state_eligible [OF fr(1)] same_stateD(10,11) [OF fr(1)]
    by (intro grantCandidates_idle same_state_core [OF fr(1) assms(1)]) auto
qed

text \<open>
  What every granting operation amounts to: a consistent state in which nobody holds more than before and
  a given set of waiters is live, followed by grants to eligible waiters.
\<close>

definition live :: "mutationSequencer \<Rightarrow> nat set" where
  "live s = {w. wqueued s w \<or> wgranted s w}"

definition grants :: "mutationSequencer \<Rightarrow> nat set \<Rightarrow> mutationSequencer \<Rightarrow> bool" where
  "grants s L t \<longleftrightarrow> (\<exists>s' ws c. seq_core s' \<and> (\<forall>v. wgranted s' v \<longrightarrow> wgranted s v \<and> wkeys s' v = wkeys s v) \<and> live s' = L \<and>
     t = (fold grantIfEligible ws s')\<lparr>sq_candidates := c\<rparr>)"

lemma grantsI:
  assumes "seq_core s'" "\<forall>v. wgranted s' v \<longrightarrow> wgranted s v \<and> wkeys s' v = wkeys s v" "live s' = L"
  shows "grants s L (grantCandidatesLocked s')" "grants s L (grantIfEligible w s')"
proof -
  show "grants s L (grantCandidatesLocked s')"
    unfolding grants_def grantCandidatesLocked_def using assms by blast
  have "grantIfEligible w s' = (fold grantIfEligible [w] s')\<lparr>sq_candidates := sq_candidates (grantIfEligible w s')\<rparr>" by simp
  then show "grants s L (grantIfEligible w s')" unfolding grants_def using assms by blast
qed

lemma same_state_live: "same_state s t \<Longrightarrow> live t = live s"
  by (simp add: live_def same_stateD)

lemma wake_grants:
  assumes "seq_core s'" "marked s'" "\<forall>v. wgranted s' v \<longrightarrow> wgranted s v \<and> wkeys s' v = wkeys s v" "live s' = L"
  shows "grants s L (wakeNext w s')"
proof -
  have fr: "same_state s' (addFrontCandidatesLocked (wkeys s' w) s')" using addFronts_step [OF assms(2)] by blast
  show ?thesis
    unfolding wakeNext_def
    by (rule grantsI) (use same_state_core [OF fr assms(1)] same_state_live [OF fr] same_stateD(7,10) [OF fr] assms in simp_all)
qed

lemma settled_core:
  assumes "seq_core s" "\<not> wqueued s w"
  shows "seq_core (mod_waiter w (\<lambda>r. r\<lparr>sw_settled := True\<rparr>) s)"
proof -
  let ?t = "mod_waiter w (\<lambda>r. r\<lparr>sw_settled := True\<rparr>) s"
  note core = seq_coreD [OF assms(1)]
  have same: "ordinal_of ?t v = ordinal_of s v" "wkeys ?t v = wkeys s v" "wqueued ?t v = wqueued s v" "wgranted ?t v = wgranted s v"
    "wsettled ?t v \<longleftrightarrow> wsettled s v \<or> v = w" "sw_candidateGeneration (sq_store ?t v) = sw_candidateGeneration (sq_store s v)"
    "sq_waiters ?t = sq_waiters s" "sq_claims ?t = sq_claims s" "sq_held ?t = sq_held s" "sq_fresh ?t = sq_fresh s"
    "sq_candidateGeneration ?t = sq_candidateGeneration s" for v
    by (auto simp: mod_waiter_def)
  show ?thesis by (rule seq_coreI) (use core assms(2) in \<open>auto simp: same\<close>)
qed

lemma release_inv:
  assumes "seq_inv s" "sequencer_release s w = Some t"
  shows "seq_inv t" "grants s (live s - {w}) t"
proof -
  have inv: "seq_core s" "sq_candidates s = []" "\<forall>v. wsettled s v \<longrightarrow> \<not> wgranted s v"
    using assms(1) by (auto simp: seq_inv_def seq_idle_def)
  let ?s1 = "mod_waiter w (\<lambda>r. r\<lparr>sw_settled := True\<rparr>) s"
  obtain s2 s3 where op: "\<not> wsettled s w" "wgranted s w" "beginCandidatesLocked ?s1 = Some s2"
    "releaseKeysLocked w s2 = Some s3" "t = wakeNext w s3"
    using assms(2) by (auto simp: sequencer_release_def Let_def split: if_splits bind_splits)
  have notq: "\<not> wqueued s w" using seq_coreD(4) [OF inv(1), of w] op(2) by blast
  have c1: "seq_core ?s1" "sq_candidates ?s1 = []" using settled_core [OF inv(1) notq] inv(2) by (simp_all add: mod_waiter_def)
  note b = begin_core [OF c1(1) op(3) c1(2)]
  have g2: "wgranted s2 w" using op(2) by (simp add: b(3) mod_waiter_def)
  note r = releaseKeys_core [OF b(1) g2 op(4)]
  have store: "sq_store s3 v = (if v = w then (sq_store s w)\<lparr>sw_settled := True, sw_granted := False\<rparr> else sq_store s v)" for v
    by (simp add: r(8) b(3) mod_waiter_def)
  have m: "marked s3" using b(2) unfolding marked_def by (simp add: r(5,7,8))
  have cl: "sq_claims s3 = sq_claims s" by (simp add: r(3) b(3) mod_waiter_def)
  have held: "sq_held s3 k = (if k \<in> set (wkeys s w) then None else sq_held s k)" for k
    by (simp add: r(2) b(3) mod_waiter_def)
  have "\<exists>k \<in> set (wkeys s3 w). k \<in> set (wkeys s3 u)" if el: "eligibleLocked s3 u" for u
  proof (rule ccontr)
    assume no: "\<not> (\<exists>k \<in> set (wkeys s3 w). k \<in> set (wkeys s3 u))"
    have "u \<noteq> w" using el by (auto simp: eligibleLocked_def Let_def store)
    with no have "sq_held s3 k = sq_held s k" if "k \<in> set (wkeys s u)" for k using that by (auto simp: held store)
    with el \<open>u \<noteq> w\<close> have "eligibleLocked s u" by (simp add: eligibleLocked_def Let_def store cl list_all_iff)
    with idle_not_eligible [OF assms(1)] show False by blast
  qed
  moreover have "\<forall>v. wsettled s3 v \<longrightarrow> \<not> wgranted s3 v" using inv(3) by (simp add: store)
  ultimately show "seq_inv t" unfolding op(5) using wake_idle [OF r(1) m] by blast
  have "live s3 = live s - {w}" using notq by (auto simp: live_def store split: if_splits)
  then show "grants s (live s - {w}) t"
    unfolding op(5) by (intro wake_grants r(1) m) (simp_all add: store)
qed

lemma settle_inv: "seq_inv s \<Longrightarrow> settle s w = Some t \<Longrightarrow> seq_inv t"
  by (auto simp: settle_def split: if_splits intro: release_inv)

end
