(* ===== verification/Mutation_Operations.thy ===== *)
theory Mutation_Operations
  imports Mutation_Order
begin

text \<open>
  The operations of the mutation sequencer keep its invariant: arrival, abandonment, requeueing with a
  corrected set, expansion of a held set without waiting, and the operations on versions and
  snapshots that leave the queues alone.
\<close>

section \<open>Arrival\<close>

lemma insert_fields:
  assumes "seq_core s"
  shows "sq_waiters (insertLocked w s) = place (ordinal_of s) w (sq_waiters s)"
    "sq_claims (insertLocked w s) k = (if k \<in> set (wkeys s w) then place (ordinal_of s) w (sq_claims s k) else sq_claims s k)"
    "sq_held (insertLocked w s) = sq_held s"
    "sq_store (insertLocked w s) = (sq_store s)(w := (sq_store s w)\<lparr>sw_queued := True\<rparr>)"
    "sq_fresh (insertLocked w s) = sq_fresh s" "sq_candidates (insertLocked w s) = sq_candidates s"
    "sq_candidateGeneration (insertLocked w s) = sq_candidateGeneration s" "sq_versions (insertLocked w s) = sq_versions s"
proof -
  note core = seq_coreD [OF assms]
  have ord: "ordinal_of (insertGlobalLocked w s) = ordinal_of s"
    by (auto simp: insertGlobalLocked_def mod_waiter_def Let_def fun_eq_iff)
  have "sorted (map (ordinal_of s) (sq_claims s k))"
    unfolding core(5) using core(2) by (rule sorted_filter)
  from linkClaim_place [OF this]
  show "sq_claims (insertLocked w s) k = (if k \<in> set (wkeys s w) then place (ordinal_of s) w (sq_claims s k) else sq_claims s k)"
    unfolding insertLocked_def Let_def ord by (simp add: insertGlobalLocked_def mod_waiter_def Let_def)
  show "sq_waiters (insertLocked w s) = place (ordinal_of s) w (sq_waiters s)"
    using insertGlobal_place [OF core(2), of w] by (simp add: insertLocked_def insertGlobalLocked_def mod_waiter_def Let_def)
  show "sq_held (insertLocked w s) = sq_held s"
    "sq_store (insertLocked w s) = (sq_store s)(w := (sq_store s w)\<lparr>sw_queued := True\<rparr>)"
    "sq_fresh (insertLocked w s) = sq_fresh s" "sq_candidates (insertLocked w s) = sq_candidates s"
    "sq_candidateGeneration (insertLocked w s) = sq_candidateGeneration s" "sq_versions (insertLocked w s) = sq_versions s"
    by (simp_all add: insertLocked_def insertGlobalLocked_def mod_waiter_def Let_def)
qed

lemma insert_core:
  assumes "seq_core s" "\<not> wqueued s w" "\<not> wgranted s w" "\<not> wsettled s w" "w < sq_fresh s"
    "wkeys s w \<noteq> []" "sorted_wrt (<) (wkeys s w)"
  shows "seq_core (insertLocked w s)"
proof -
  let ?t = "insertLocked w s"
  note core = seq_coreD [OF assms(1)] and ins = insert_fields [OF assms(1)]
  have same: "ordinal_of ?t v = ordinal_of s v" "wkeys ?t v = wkeys s v" "wqueued ?t v \<longleftrightarrow> wqueued s v \<or> v = w"
    "wgranted ?t v = wgranted s v" "wsettled ?t v = wsettled s v"
    "sw_candidateGeneration (sq_store ?t v) = sw_candidateGeneration (sq_store s v)" for v
    by (auto simp: ins(4))
  have fresh: "w \<notin> set (sq_waiters s)" using assms(2) core(3) by blast
  show ?thesis
  proof (rule seq_coreI)
    show "distinct (sq_waiters ?t)" using distinct_place [OF core(1) fresh] by (simp add: ins(1))
    show "sorted (map (ordinal_of ?t) (sq_waiters ?t))" using sorted_place [OF core(2)] by (simp add: ins(1) same)
    show "sq_claims ?t k = filter (\<lambda>v. k \<in> set (wkeys ?t v)) (sq_waiters ?t)" for k
      using core(5) [of k] filter_place [of "\<lambda>v. k \<in> set (wkeys s v)" w] filter_place_not [OF core(2), of "\<lambda>v. k \<in> set (wkeys s v)" w]
      by (simp add: ins(1,2) same)
  qed (use core assms in \<open>auto simp: ins(1,3,5,7) same\<close>)
qed

text \<open>Behind a new waiter nobody becomes eligible.\<close>

lemma place_hd: "place ord w ws = u # r \<Longrightarrow> u \<noteq> w \<Longrightarrow> sorted (map ord ws) \<Longrightarrow> \<exists>r'. ws = u # r'"
proof (cases ws)
  case (Cons a list)
  assume *: "place ord w ws = u # r" "u \<noteq> w" "sorted (map ord ws)"
  show ?thesis
  proof (cases "ord a \<le> ord w")
    case False
    with * Cons have "filter (\<lambda>v. ord v \<le> ord w) list = []" by (auto simp: filter_empty_conv not_le intro: less_le_trans)
    with False * Cons show ?thesis by (simp add: place_def)
  qed (use * Cons in \<open>simp add: place_def\<close>)
qed (simp add: place_def)

lemma insert_antitone:
  assumes "seq_core s" "eligibleLocked (insertLocked w s) u" "u \<noteq> w"
  shows "eligibleLocked s u"
proof -
  note core = seq_coreD [OF assms(1)] and ins = insert_fields [OF assms(1)]
  have store: "sq_store (insertLocked w s) u = sq_store s u" using assms(3) by (simp add: ins(4))
  have "sq_held s k = None \<and> (\<exists>r. sq_claims s k = u # r)" if "k \<in> set (wkeys s u)" for k
  proof -
    have g: "sq_held (insertLocked w s) k = None" "\<exists>r. sq_claims (insertLocked w s) k = u # r"
      using assms(2) that store by (auto simp: eligibleLocked_def list_all_iff Let_def head_case)
    have "sorted (map (ordinal_of s) (sq_claims s k))" unfolding core(5) using core(2) by (rule sorted_filter)
    with g show ?thesis using place_hd [OF _ assms(3)] by (auto simp: ins(2,3) split: if_splits)
  qed
  with assms(2) store show ?thesis by (simp add: eligibleLocked_def list_all_iff Let_def head_case)
qed

lemma alloc_core:
  assumes "seq_core s" "w = sq_fresh s" and
    t_def: "t = s\<lparr>sq_nextOrdinal := n, sq_fresh := w + 1, sq_store := (sq_store s)(w := noWaiter\<lparr>sw_keys := ks, sw_ordinal := o'\<rparr>)\<rparr>"
  shows "seq_core t" "\<And>u. eligibleLocked t u \<Longrightarrow> eligibleLocked s u"
proof -
  note core = seq_coreD [OF assms(1)]
  have w: "\<not> wqueued s w" "\<not> wgranted s w" using core(7) [of w] assms(2) by auto
  have wmem: "w \<notin> set (sq_waiters s)" using w(1) core(3) by blast
  have same: "wqueued t v = wqueued s v" "wgranted t v = wgranted s v" "v \<noteq> w \<Longrightarrow> sq_store t v = sq_store s v"
    "sq_waiters t = sq_waiters s" "sq_claims t = sq_claims s" "sq_held t = sq_held s" "sq_fresh t = sq_fresh s + 1"
    "sq_candidateGeneration t = sq_candidateGeneration s" for v
    using w by (auto simp: t_def noWaiter_def assms(2))
  have off: "v \<noteq> w" if "wqueued s v \<or> wgranted s v \<or> v \<in> set (sq_waiters s)" for v using that w wmem by auto
  show "seq_core t"
  proof (rule seq_coreI)
    have "map (ordinal_of t) (sq_waiters s) = map (ordinal_of s) (sq_waiters s)" using same(3) off by simp
    then show "sorted (map (ordinal_of t) (sq_waiters t))" using core(2) by (simp only: same(4))
    have "filter (\<lambda>v. k \<in> set (wkeys t v)) (sq_waiters s) = filter (\<lambda>v. k \<in> set (wkeys s v)) (sq_waiters s)" for k
      using same(3) off by (intro filter_cong) auto
    then show "sq_claims t k = filter (\<lambda>v. k \<in> set (wkeys t v)) (sq_waiters t)" for k using core(5) by (simp add: same(4,5))
    show "\<not> wgranted t v \<and> \<not> wsettled t v" if "wqueued t v" for v
      using that core(4) [of v] off [of v] same(1-3) [of v] by simp
    show "sq_held t k = Some v \<longleftrightarrow> wgranted t v \<and> k \<in> set (wkeys t v)" for k v
      using core(6) [of k v] off [of v] same(2,3) [of v] by (auto simp: same(6))
    show "v < sq_fresh t \<and> wkeys t v \<noteq> [] \<and> sorted_wrt (<) (wkeys t v)" if "wqueued t v \<or> wgranted t v" for v
      using that core(7) [of v] off [of v] same(1-3) [of v] by (auto simp: same(7))
    show "sw_candidateGeneration (sq_store t v) \<le> sq_candidateGeneration t" for v
      using core(8) [of v] by (auto simp: t_def noWaiter_def)
  qed (use core(1,3) in \<open>simp_all add: same\<close>)
  show "eligibleLocked s u" if "eligibleLocked t u" for u
  proof -
    have "u \<noteq> w" using that w same(1) by (auto simp: eligibleLocked_def Let_def)
    with that same(3-6) show ?thesis by (simp add: eligibleLocked_def Let_def)
  qed
qed

lemma enqueue_inv:
  assumes "seq_inv s" "enqueueFor s deps reserved = Some (w, t)"
  shows "seq_inv t" "grants s (insert w (live s)) t" "w = sq_fresh s" "wgranted t w \<or> wqueued t w" "wkeys t w = keys_of deps"
proof -
  have inv: "seq_core s" "sq_candidates s = []" "\<forall>v. wsettled s v \<longrightarrow> \<not> wgranted s v"
    using assms(1) by (auto simp: seq_inv_def seq_idle_def)
  note core = seq_coreD [OF inv(1)]
  obtain o' n where op: "deps_valid deps" "w = sq_fresh s"
    "t = (let s2 = insertLocked w (s\<lparr>sq_nextOrdinal := n, sq_fresh := w + 1, sq_store := (sq_store s)(w := noWaiter\<lparr>sw_keys := keys_of deps, sw_ordinal := o'\<rparr>)\<rparr>)
          in if eligibleLocked s2 w then grantLocked w s2 else s2)"
  proof (cases "reserved = 0")
    case True
    with assms(2) that [of "sq_nextOrdinal s + 1" "sq_nextOrdinal s + 1"] show ?thesis
      by (auto simp: enqueueFor_def nextOrdinalLocked_def Let_def split: if_splits)
  next
    case False
    have "s\<lparr>sq_nextOrdinal := sq_nextOrdinal s\<rparr> = s" by simp
    with False assms(2) that [of reserved "sq_nextOrdinal s"] show ?thesis
      by (auto simp: enqueueFor_def Let_def split: if_splits)
  qed
  show "w = sq_fresh s" by (rule op(2))
  define s1 where "s1 = s\<lparr>sq_nextOrdinal := n, sq_fresh := w + 1, sq_store := (sq_store s)(w := noWaiter\<lparr>sw_keys := keys_of deps, sw_ordinal := o'\<rparr>)\<rparr>"
  define s2 where "s2 = insertLocked w s1"
  have c1: "seq_core s1" "\<And>u. eligibleLocked s1 u \<Longrightarrow> eligibleLocked s u"
    using alloc_core [OF inv(1) op(2) s1_def] by blast+
  have w1: "\<not> wqueued s1 w" "\<not> wgranted s1 w" "\<not> wsettled s1 w" "w < sq_fresh s1" "wkeys s1 w = keys_of deps"
    by (simp_all add: s1_def noWaiter_def)
  have k1: "wkeys s1 w \<noteq> []" "sorted_wrt (<) (wkeys s1 w)"
    using op(1) by (auto simp: w1(5) deps_valid_def ascending_sorted)
  have c2: "seq_core s2" unfolding s2_def by (rule insert_core [OF c1(1) w1(1-4) k1])
  note f2 = insert_fields [OF c1(1), of w, folded s2_def]
  have only: "u = w" if "eligibleLocked s2 u" for u
    using that insert_antitone [OF c1(1), of w u] c1(2) idle_not_eligible [OF assms(1)] by (auto simp: s2_def)
  have t: "t = grantIfEligible w s2" using op(3) by (simp add: grantIfEligible_def s2_def s1_def Let_def)
  have "wsettled s2 v \<longrightarrow> \<not> wgranted s2 v" for v
    using inv(3) by (auto simp: f2(4) s1_def noWaiter_def)
  then have "wsettled t v \<longrightarrow> \<not> wgranted t v" for v
    unfolding t using grantIf_keeps(2) [of w s2 v] grantIf_keeps(7) [of w s2 v] seq_coreD(4) [OF c2, of v] by auto
  moreover have "\<not> eligibleLocked t u" for u
    unfolding t using only grantIf_antitone [OF c2, of w u] grantIf_self by blast
  moreover have "sq_candidates t = []"
    using inv(2) by (simp add: t grantIfEligible_def grant_fields f2(6) s1_def)
  ultimately show "seq_inv t" using grantIf_core [OF c2] by (simp add: seq_inv_def seq_idle_def t)
  have "wgranted s2 v \<longrightarrow> wgranted s v \<and> wkeys s2 v = wkeys s v" for v using w1(2) by (auto simp: f2(4) s1_def noWaiter_def)
  moreover have "live s2 = insert w (live s)"
    using seq_coreD(7) [OF inv(1), of w] op(2) by (auto simp: live_def f2(4) s1_def noWaiter_def)
  ultimately show "grants s (insert w (live s)) t" unfolding t by (intro grantsI c2) auto
  show "wgranted t w \<or> wqueued t w"
    by (auto simp: t grantIfEligible_def grant_fields f2(4))
  show "wkeys t w = keys_of deps" by (simp add: t grantIf_keeps(1) f2(4) w1(5))
qed


lemma grant_fold_either: "wqueued s v \<Longrightarrow> wgranted (fold grantIfEligible ws s) v \<or> wqueued (fold grantIfEligible ws s) v"
proof (induction ws arbitrary: s)
  case (Cons w ws)
  show ?case
  proof (cases "wqueued (grantIfEligible w s) v")
    case True
    with Cons.IH show ?thesis by simp
  next
    case False
    with Cons.prems have "wgranted (grantIfEligible w s) v"
      by (auto simp: grantIfEligible_def grant_fields split: if_splits)
    with grant_fold_granted show ?thesis by simp
  qed
qed simp

section \<open>Withdrawal and requeueing\<close>

text \<open>Whoever becomes eligible when one waiter gives up its keys and claims shares a key with it.\<close>

lemma woken_shares:
  assumes "\<forall>u. \<not> eligibleLocked s u" "\<forall>v. v \<noteq> w \<longrightarrow> sq_store t v = sq_store s v" "\<not> wqueued t w"
    "\<forall>k. k \<notin> set (wkeys s w) \<longrightarrow> sq_held t k = sq_held s k \<and> sq_claims t k = sq_claims s k" "eligibleLocked t u"
  shows "\<exists>k \<in> set (wkeys s w). k \<in> set (wkeys t u)"
proof (rule ccontr)
  assume no: "\<not> ?thesis"
  have u: "u \<noteq> w" using assms(3,5) by (auto simp: eligibleLocked_def Let_def)
  with assms(2) have "sq_store t u = sq_store s u" by blast
  moreover have "sq_held t k = sq_held s k \<and> sq_claims t k = sq_claims s k" if "k \<in> set (wkeys t u)" for k
    using no assms(4) that by blast
  ultimately have "eligibleLocked s u" using assms(5) by (simp add: eligibleLocked_def Let_def list_all_iff)
  with assms(1) show False by blast
qed

lemma front_candidates:
  assumes "seq_core s" "marked s" "eligibleLocked s u" "k \<in> set ks" "k \<in> set (wkeys s u)"
  shows "u \<in> set (sq_candidates (addFrontCandidatesLocked ks s))"
proof -
  have "wqueued s u" "sq_held s k = None" "\<exists>r. sq_claims s k = u # r"
    using assms(3,5) unfolding eligible_iff [OF assms(1)] seq_coreD(5) [OF assms(1)] by blast+
  with addFronts_step [OF assms(2), of ks] assms(4) seq_coreD(4) [OF assms(1)] show ?thesis by blast
qed

lemma withdraw_core:
  assumes "seq_core s" "wqueued s w"
  defines "t \<equiv> removeClaimsLocked w (unqueue w (mod_waiter w (\<lambda>r. r\<lparr>sw_settled := True\<rparr>) s))"
  shows "seq_core t" "sq_candidates t = sq_candidates s" "sq_held t = sq_held s"
    "sq_store t = (sq_store s)(w := (sq_store s w)\<lparr>sw_settled := True, sw_queued := False\<rparr>)"
    "sq_claims t = (\<lambda>k. if k \<in> set (wkeys s w) then remove1 w (sq_claims s k) else sq_claims s k)"
    "sq_candidateGeneration t = sq_candidateGeneration s"
proof -
  note core = seq_coreD [OF assms(1)]
  show f: "sq_candidates t = sq_candidates s" "sq_held t = sq_held s"
    "sq_store t = (sq_store s)(w := (sq_store s w)\<lparr>sw_settled := True, sw_queued := False\<rparr>)"
    "sq_claims t = (\<lambda>k. if k \<in> set (wkeys s w) then remove1 w (sq_claims s k) else sq_claims s k)"
    "sq_candidateGeneration t = sq_candidateGeneration s"
    by (simp_all add: t_def removeClaimsLocked_def unqueue_def mod_waiter_def Let_def fun_eq_iff)
  have f2: "sq_waiters t = remove1 w (sq_waiters s)" "sq_fresh t = sq_fresh s"
    by (simp_all add: t_def removeClaimsLocked_def unqueue_def mod_waiter_def Let_def)
  have same: "ordinal_of t v = ordinal_of s v" "wkeys t v = wkeys s v" "wgranted t v = wgranted s v"
    "wqueued t v \<longleftrightarrow> wqueued s v \<and> v \<noteq> w" "wsettled t v \<longleftrightarrow> wsettled s v \<or> v = w"
    "sw_candidateGeneration (sq_store t v) = sw_candidateGeneration (sq_store s v)" for v
    by (auto simp: f(3))
  show "seq_core t"
  proof (rule seq_coreI)
    show "sorted (map (ordinal_of t) (sq_waiters t))" using core(2) by (simp add: same f2 sorted_map_remove1)
    show "sq_claims t k = filter (\<lambda>v. k \<in> set (wkeys t v)) (sq_waiters t)" for k
      using core(5) [of k] by (auto simp: same f(4) f2 filter_remove1 remove1_idem)
  qed (use core in \<open>auto simp: same f(2,5) f2\<close>)
qed

lemma abandon_inv:
  assumes "seq_inv s" "abandon s w = Some t"
  shows "seq_inv t" "wsettled s w \<and> t = s \<or> grants s (live s - {w}) t"
proof -
  have inv: "seq_core s" "sq_candidates s = []" "\<forall>v. wsettled s v \<longrightarrow> \<not> wgranted s v" "\<forall>u. \<not> eligibleLocked s u"
    using assms(1) by (auto simp: seq_inv_def seq_idle_def)
  note core = seq_coreD [OF inv(1)]
  consider "wsettled s w" | "\<not> wsettled s w" "wgranted s w" | "\<not> wsettled s w" "\<not> wgranted s w" "wqueued s w"
    | "\<not> wsettled s w" "\<not> wgranted s w" "\<not> wqueued s w" by blast
  then have "seq_inv t \<and> (wsettled s w \<and> t = s \<or> grants s (live s - {w}) t)"
  proof cases
    case 2
    then have "abandon s w = sequencer_release s w"
      by (auto simp: abandon_def sequencer_release_def Let_def beginCandidatesLocked_def mod_waiter_def)
    with assms release_inv [OF assms(1), of w t] show ?thesis by simp
  next
    case 3
    obtain b where b: "beginCandidatesLocked s = Some b"
      and t: "t = wakeNext w (removeClaimsLocked w (unqueue w (mod_waiter w (\<lambda>r. r\<lparr>sw_settled := True\<rparr>) b)))"
    proof -
      have comm: "s\<lparr>sq_store := f, sq_candidateGeneration := g\<rparr> = s\<lparr>sq_candidateGeneration := g, sq_store := f\<rparr>" for f g by simp
      show ?thesis
        using assms(2) 3 that by (auto simp: abandon_def beginCandidatesLocked_def mod_waiter_def Let_def comm split: if_splits)
    qed
    note bc = begin_core [OF inv(1) b inv(2)]
    have bf: "sq_store b = sq_store s" "sq_held b = sq_held s" "sq_claims b = sq_claims s" by (simp_all add: bc(3))
    have "wqueued b w" using 3 by (simp add: bf)
    note d = withdraw_core [OF bc(1) this]
    let ?d = "removeClaimsLocked w (unqueue w (mod_waiter w (\<lambda>r. r\<lparr>sw_settled := True\<rparr>) b))"
    have keys: "wkeys ?d w = wkeys s w" by (simp add: d(4) bf)
    have "marked ?d" using bc(2) by (simp add: marked_def d(2,4,6))
    moreover have "\<forall>v. wsettled ?d v \<longrightarrow> \<not> wgranted ?d v" using inv(3) 3 by (simp add: d(4) bf)
    moreover have "\<forall>u. eligibleLocked ?d u \<longrightarrow> (\<exists>k \<in> set (wkeys ?d w). k \<in> set (wkeys ?d u))"
      unfolding keys by (intro allI impI woken_shares [OF inv(4)]) (simp_all add: d(3-5) bf)
    ultimately have "seq_inv t" unfolding t using wake_idle [OF d(1)] by blast
    moreover have "live ?d = live s - {w}" using 3 by (auto simp: live_def d(4) bf split: if_splits)
    then have "grants s (live s - {w}) t"
      unfolding t using \<open>marked ?d\<close> by (intro wake_grants d(1)) (simp_all add: d(4) bf)
    ultimately show ?thesis by blast
  next
    case 4
    let ?s1 = "mod_waiter w (\<lambda>r. r\<lparr>sw_settled := True\<rparr>) s"
    obtain b where b: "beginCandidatesLocked ?s1 = Some b" "t = wakeNext w b"
      using assms(2) 4 by (auto simp: abandon_def beginCandidatesLocked_def mod_waiter_def Let_def split: if_splits)
    have c1: "seq_core ?s1" "sq_candidates ?s1 = []" using settled_core [OF inv(1) 4(3)] inv(2) by (simp_all add: mod_waiter_def)
    note bc = begin_core [OF c1(1) b(1) c1(2)]
    have "\<forall>v. wsettled b v \<longrightarrow> \<not> wgranted b v" using inv(3) 4 by (simp add: bc(3) mod_waiter_def)
    moreover have "\<forall>u. \<not> eligibleLocked b u"
      using inv(4) by (simp add: bc(3) mod_waiter_def eligibleLocked_def Let_def)
    ultimately have "seq_inv t" unfolding b(2) using wake_idle [OF bc(1,2)] by blast
    moreover have "live b = live s - {w}" using 4 by (auto simp: live_def bc(3) mod_waiter_def split: if_splits)
    then have "grants s (live s - {w}) t"
      unfolding b(2) by (intro wake_grants bc(1,2)) (simp_all add: bc(3) mod_waiter_def)
    ultimately show ?thesis by blast
  qed (use assms in \<open>simp add: abandon_def\<close>)
  then show "seq_inv t" "wsettled s w \<and> t = s \<or> grants s (live s - {w}) t" by blast+
qed

lemma rekey_core:
  assumes "seq_core s" "\<not> wqueued s w" "\<not> wgranted s w" and
    t_def: "t = mod_waiter w (\<lambda>r. r\<lparr>sw_keys := ks, sw_ready := False\<rparr>) s"
  shows "seq_core t" "\<And>u. eligibleLocked t u = eligibleLocked s u" "marked t = marked s"
proof -
  note core = seq_coreD [OF assms(1)]
  have same: "ordinal_of t v = ordinal_of s v" "wgranted t v = wgranted s v" "wqueued t v = wqueued s v" "wsettled t v = wsettled s v"
    "v \<noteq> w \<Longrightarrow> wkeys t v = wkeys s v" "sw_candidateGeneration (sq_store t v) = sw_candidateGeneration (sq_store s v)"
    "sq_waiters t = sq_waiters s" "sq_claims t = sq_claims s" "sq_held t = sq_held s" "sq_fresh t = sq_fresh s"
    "sq_candidateGeneration t = sq_candidateGeneration s" "sq_candidates t = sq_candidates s" for v
    by (auto simp: t_def mod_waiter_def)
  have off: "wkeys t v = wkeys s v" if "wqueued s v \<or> wgranted s v" for v using same(5) [of v] that assms(2,3) by blast
  have filt: "filter (\<lambda>v. k \<in> set (wkeys t v)) (sq_waiters s) = filter (\<lambda>v. k \<in> set (wkeys s v)) (sq_waiters s)" for k
    using core(3) off by (intro filter_cong) auto
  show "seq_core t"
  proof (rule seq_coreI)
    show "sq_held t k = Some v \<longleftrightarrow> wgranted t v \<and> k \<in> set (wkeys t v)" for k v
      using core(6) [of k v] off [of v] by (auto simp: same)
    show "v < sq_fresh t \<and> wkeys t v \<noteq> [] \<and> sorted_wrt (<) (wkeys t v)" if "wqueued t v \<or> wgranted t v" for v
      using core(7) [of v] off [of v] that by (simp add: same(2,3,10))
    show "sq_claims t k = filter (\<lambda>v. k \<in> set (wkeys t v)) (sq_waiters t)" for k
      unfolding same(7,8) filt by (rule core(5))
  qed (use core in \<open>auto simp: same(1-4,6-12)\<close>)
  show "eligibleLocked t u = eligibleLocked s u" for u
    using assms(2) same(5) [of u] by (cases "u = w") (auto simp: eligibleLocked_def Let_def same)
  show "marked t = marked s" by (simp add: marked_def same)
qed

lemma requeue_inv:
  assumes "seq_inv s" "requeue s w deps = Some t"
  shows "seq_inv t" "grants (mod_waiter w (\<lambda>r. r\<lparr>sw_granted := False\<rparr>) s) (live s) t"
    "wgranted t w \<or> wqueued t w" "wkeys t w = keys_of deps" "ordinal_of t w = ordinal_of s w"
proof -
  have inv: "seq_core s" "sq_candidates s = []" "\<forall>v. wsettled s v \<longrightarrow> \<not> wgranted s v" "\<forall>u. \<not> eligibleLocked s u"
    using assms(1) by (auto simp: seq_inv_def seq_idle_def)
  let ?f = "\<lambda>s3. addFrontCandidatesLocked (wkeys s3 w) s3"
  let ?k = "\<lambda>s3. mod_waiter w (\<lambda>r. r\<lparr>sw_keys := keys_of deps, sw_ready := False\<rparr>) (?f s3)"
  obtain b s3 where op: "deps_valid deps" "\<not> wsettled s w" "wgranted s w" "beginCandidatesLocked s = Some b"
    "releaseKeysLocked w b = Some s3" "t = grantCandidatesLocked (addCandidateLocked w (insertLocked w (?k s3)))"
    using assms(2) by (auto simp: requeue_def Let_def split: if_splits bind_splits)
  note bc = begin_core [OF inv(1) op(4) inv(2)]
  have "wgranted b w" using op(3) by (simp add: bc(3))
  note r = releaseKeys_core [OF bc(1) this op(5)]
  have notq: "\<not> wqueued s w" using seq_coreD(4) [OF inv(1), of w] op(3) by blast
  have m3: "marked s3" using bc(2) unfolding marked_def by (simp add: r(5,7,8))
  have w3: "\<not> wqueued s3 w" "\<not> wgranted s3 w" "\<not> wsettled s3 w" "w < sq_fresh s3" "wkeys s3 w = wkeys s w" "ordinal_of s3 w = ordinal_of s w"
    using notq op(2,3) seq_coreD(7) [OF inv(1), of w] by (simp_all add: r(6,8) bc(3))
  have s3: "\<forall>v. wsettled s3 v \<longrightarrow> \<not> wgranted s3 v" using inv(3) by (simp add: r(8) bc(3))
  have woke: "u \<in> set (sq_candidates (?f s3))" if "eligibleLocked s3 u" for u
  proof -
    have "\<exists>k \<in> set (wkeys s w). k \<in> set (wkeys s3 u)"
      by (rule woken_shares [OF inv(4) _ w3(1) _ that]) (simp_all add: r(2,3,8) bc(3))
    then show ?thesis using front_candidates [OF r(1) m3 that] by (auto simp: w3(5))
  qed
  have f: "same_state s3 (?f s3)" "marked (?f s3)" using addFronts_step [OF m3] by blast+
  note fd = same_stateD [OF f(1)]
  have w4: "\<not> wqueued (?f s3) w" "\<not> wgranted (?f s3) w" using w3(1,2) by (simp_all add: fd(9,10))
  note k = rekey_core [OF same_state_core [OF f(1) r(1)] w4 refl, of "keys_of deps"]
  have w5: "\<not> wqueued (?k s3) w" "\<not> wgranted (?k s3) w" "\<not> wsettled (?k s3) w" "w < sq_fresh (?k s3)" "wkeys (?k s3) w = keys_of deps"
    "ordinal_of (?k s3) w = ordinal_of s w"
    using w3(1-4,6) by (simp_all add: mod_waiter_def fd(4,8-11))
  have k5: "wkeys (?k s3) w \<noteq> []" "sorted_wrt (<) (wkeys (?k s3) w)"
    using op(1) by (auto simp: w5(5) deps_valid_def ascending_sorted)
  let ?i = "insertLocked w (?k s3)"
  have ic: "seq_core ?i" by (rule insert_core [OF k(1) w5(1-4) k5])
  note i = insert_fields [OF k(1), of w]
  have im: "marked ?i" using k(3) f(2) unfolding marked_def by (simp add: i(4,6,7))
  note a = addCandidate_step [OF im, of w]
  let ?a = "addCandidateLocked w ?i"
  have "u \<in> set (sq_candidates ?a)" if "eligibleLocked ?a u" for u
  proof (cases "u = w")
    case True
    then show ?thesis using a(4) w5(2,3) by (simp add: i(4))
  next
    case False
    have "eligibleLocked s3 u"
      using that insert_antitone [OF k(1) _ False] k(2) same_state_eligible [OF f(1)] same_state_eligible [OF a(1)] by blast
    then have "u \<in> set (sq_candidates ?i)" using woke unfolding i(6) by (simp add: mod_waiter_def)
    with a(3) show ?thesis by blast
  qed
  moreover have "wsettled ?a v = wsettled s3 v" "wgranted ?a v = wgranted s3 v" for v
  proof -
    have "wsettled ?a v = wsettled (?k s3) v" "wgranted ?a v = wgranted (?k s3) v"
      unfolding same_stateD(10,11) [OF a(1)] i(4) by simp_all
    then show "wsettled ?a v = wsettled s3 v" "wgranted ?a v = wgranted s3 v" by (simp_all add: mod_waiter_def fd(10,11))
  qed
  ultimately show "seq_inv t" unfolding op(6) using s3 by (intro grantCandidates_idle same_state_core [OF a(1) ic]) auto
  have "wgranted ?a v = wgranted s3 v" "wqueued ?a v \<longleftrightarrow> wqueued s3 v \<or> v = w" "v \<noteq> w \<Longrightarrow> wkeys ?a v = wkeys s3 v" for v
  proof -
    have "wgranted ?a v = wgranted (?k s3) v" "wqueued ?a v \<longleftrightarrow> wqueued (?k s3) v \<or> v = w" "wkeys ?a v = wkeys (?k s3) v"
      unfolding same_stateD(7,9,10) [OF a(1)] i(4) by simp_all
    then show "wgranted ?a v = wgranted s3 v" "wqueued ?a v \<longleftrightarrow> wqueued s3 v \<or> v = w" "v \<noteq> w \<Longrightarrow> wkeys ?a v = wkeys s3 v"
      by (simp_all add: mod_waiter_def fd(7,9,10))
  qed
  then have "live ?a = live s" "\<forall>v. wgranted ?a v \<longrightarrow> v \<noteq> w \<and> wgranted s v \<and> wkeys ?a v = wkeys s v"
    using op(3) by (auto simp: live_def r(8) bc(3))
  then have "live ?a = live s" "\<forall>v. wgranted ?a v \<longrightarrow> wgranted (mod_waiter w (\<lambda>r. r\<lparr>sw_granted := False\<rparr>) s) v \<and> wkeys ?a v = wkeys (mod_waiter w (\<lambda>r. r\<lparr>sw_granted := False\<rparr>) s) v" by (auto simp: mod_waiter_def)
  then show "grants (mod_waiter w (\<lambda>r. r\<lparr>sw_granted := False\<rparr>) s) (live s) t" unfolding op(6) by (intro grantsI same_state_core [OF a(1) ic])
  have aw: "wqueued ?a w" "wkeys ?a w = keys_of deps" "ordinal_of ?a w = ordinal_of s w"
    using w5(5,6) by (simp_all add: same_stateD(7-9) [OF a(1)] i(4))
  show "wkeys t w = keys_of deps" "ordinal_of t w = ordinal_of s w"
    unfolding op(6) grantCandidatesLocked_def using aw by (simp_all add: grant_fold_keeps)
  show "wgranted t w \<or> wqueued t w"
    unfolding op(6) grantCandidatesLocked_def using grant_fold_either aw(1) by simp
qed

section \<open>Expansion of a held set\<close>

lemma expand_scan_ok:
  "expand_scan s w mine ks = Some [] \<Longrightarrow>
     set mine \<subseteq> set ks \<and> (\<forall>k \<in> set ks. sq_held s k = None \<or> sq_held s k = Some w) \<and>
     (\<forall>k \<in> set ks. k \<notin> set mine \<longrightarrow> (\<forall>v r. sq_claims s k = v # r \<longrightarrow> ordinal_of s w \<le> ordinal_of s v))"
proof (induction ks arbitrary: mine)
  case (Cons k ks)
  define existing where "existing \<longleftrightarrow> mine \<noteq> [] \<and> hd mine = k"
  define rest where "rest = (if existing then tl mine else mine)"
  have ok: "sq_held s k = None \<or> sq_held s k = Some w"
    "\<not> existing \<Longrightarrow> sq_claims s k = v # r \<Longrightarrow> ordinal_of s w \<le> ordinal_of s v"
    and rec: "expand_scan s w rest ks = Some []" for v r
    using Cons.prems by (auto simp: existing_def rest_def Let_def split: if_splits)
  have mine: "set mine = set rest \<union> (if existing then {k} else {})"
    by (cases mine) (auto simp: rest_def existing_def)
  show ?case using Cons.IH [OF rec] ok unfolding mine by (auto split: if_splits)
qed auto

lemma TryExpand_refused: "fst (TryExpand s w deps) = False \<Longrightarrow> snd (TryExpand s w deps) = s"
  by (auto simp: TryExpand_def split: option.splits list.splits if_splits)

lemma TryExpand_done:
  assumes "TryExpand s w deps = (True, t)"
  shows "deps_valid deps" "\<not> wsettled s w" "wgranted s w" "expand_scan s w (wkeys s w) (keys_of deps) = Some []"
    "sq_held t = (\<lambda>k. if k \<in> set (keys_of deps) then Some w else sq_held s k)"
    "sq_store t = (sq_store s)(w := (sq_store s w)\<lparr>sw_keys := keys_of deps\<rparr>)"
    "sq_claims t = sq_claims s" "sq_waiters t = sq_waiters s" "sq_fresh t = sq_fresh s" "sq_candidates t = sq_candidates s"
    "sq_candidateGeneration t = sq_candidateGeneration s" "sq_versions t = sq_versions s"
  using assms
  by (auto simp: TryExpand_def mod_waiter_def split: option.splits list.splits if_splits)

text \<open>A key that an expansion adds is not claimed by an older waiter.\<close>

lemma TryExpand_oldest:
  assumes "seq_core s" "TryExpand s w deps = (True, t)" "k \<in> set (keys_of deps)" "k \<notin> set (wkeys s w)"
    "wqueued s v" "k \<in> set (wkeys s v)"
  shows "ordinal_of s w \<le> ordinal_of s v"
proof -
  have "v \<in> set (sq_claims s k)" using assms(5,6) seq_coreD(3,5) [OF assms(1)] by simp
  then obtain h r where h: "sq_claims s k = h # r" by (cases "sq_claims s k") auto
  have "sorted (map (ordinal_of s) (h # r))"
    unfolding h [symmetric] seq_coreD(5) [OF assms(1)] using seq_coreD(2) [OF assms(1)] by (rule sorted_filter)
  with \<open>v \<in> set (sq_claims s k)\<close> h have "ordinal_of s h \<le> ordinal_of s v" by auto
  moreover have "ordinal_of s w \<le> ordinal_of s h"
    using expand_scan_ok [OF TryExpand_done(4) [OF assms(2)]] h assms(3,4) by blast
  ultimately show ?thesis by simp
qed

lemma TryExpand_core:
  assumes "seq_core s" "TryExpand s w deps = (True, t)"
  shows "seq_core t"
proof -
  note core = seq_coreD [OF assms(1)] and ex = TryExpand_done [OF assms(2)]
  have sc: "set (wkeys s w) \<subseteq> set (keys_of deps)" "\<forall>k \<in> set (keys_of deps). sq_held s k = None \<or> sq_held s k = Some w"
    using expand_scan_ok [OF ex(4)] by blast+
  have same: "ordinal_of t v = ordinal_of s v" "wgranted t v = wgranted s v" "wqueued t v = wqueued s v" "wsettled t v = wsettled s v"
    "v \<noteq> w \<Longrightarrow> wkeys t v = wkeys s v" "sw_candidateGeneration (sq_store t v) = sw_candidateGeneration (sq_store s v)"
    "wkeys t w = keys_of deps" for v
    by (auto simp: ex(6))
  have notq: "\<not> wqueued s w" using core(4) [of w] ex(3) by blast
  have filt: "filter (\<lambda>v. k \<in> set (wkeys t v)) (sq_waiters s) = filter (\<lambda>v. k \<in> set (wkeys s v)) (sq_waiters s)" for k
  proof (intro filter_cong refl)
    fix v assume "v \<in> set (sq_waiters s)"
    then have "v \<noteq> w" using core(3) [of w] notq by auto
    then have "wkeys t v = wkeys s v" by (rule same(5))
    then show "(k \<in> set (wkeys t v)) = (k \<in> set (wkeys s v))" by simp
  qed
  show ?thesis
  proof (rule seq_coreI)
    show "sq_claims t k = filter (\<lambda>v. k \<in> set (wkeys t v)) (sq_waiters t)" for k
      unfolding ex(7,8) filt by (rule core(5))
    show "v < sq_fresh t \<and> wkeys t v \<noteq> [] \<and> sorted_wrt (<) (wkeys t v)" if "wqueued t v \<or> wgranted t v" for v
      using core(7) [of v] that ex(1) same(5) [of v] same(7)
      by (cases "v = w") (auto simp: same(2,3) ex(9) deps_valid_def ascending_sorted)
    show "sq_held t k = Some v \<longleftrightarrow> wgranted t v \<and> k \<in> set (wkeys t v)" for k v
    proof (cases "v = w")
      case True
      then show ?thesis using sc(1) core(6) [of k w] ex(3) by (auto simp: ex(5) same)
    next
      case False
      then show ?thesis using sc(2) core(6) [of k v] same(5) [of v] by (auto simp: ex(5) same(2))
    qed
  qed (use core in \<open>auto simp: same(1-4,6) ex(8,9,11)\<close>)
qed

lemma TryExpand_inv:
  assumes "seq_inv s" "TryExpand s w deps = (b, t)"
  shows "seq_inv t"
proof (cases b)
  case True
  then have tr: "TryExpand s w deps = (True, t)" using assms(2) by simp
  note ex = TryExpand_done [OF tr]
  have inv: "seq_core s" "sq_candidates s = []" "\<forall>v. wsettled s v \<longrightarrow> \<not> wgranted s v" "\<forall>u. \<not> eligibleLocked s u"
    using assms(1) by (auto simp: seq_inv_def seq_idle_def)
  have "\<not> eligibleLocked t u" for u
  proof
    assume el: "eligibleLocked t u"
    have "u \<noteq> w" using el ex(3) by (auto simp: eligibleLocked_def Let_def ex(6))
    then have "eligibleLocked s u"
      using el by (auto simp: eligibleLocked_def Let_def list_all_iff ex(5-7) split: if_splits)
    with inv(4) show False by blast
  qed
  then show ?thesis
    using TryExpand_core [OF inv(1) tr] inv(2,3) by (simp add: seq_inv_def seq_idle_def ex(6,10))
next
  case False
  with TryExpand_refused [of s w deps] assms show ?thesis by simp
qed

section \<open>Operations that leave the queues alone\<close>

lemma calm_inv:
  assumes "seq_inv s" "sq_waiters t = sq_waiters s" "sq_claims t = sq_claims s" "sq_held t = sq_held s" "sq_fresh t = sq_fresh s"
    "sq_candidates t = sq_candidates s" "sq_candidateGeneration t = sq_candidateGeneration s"
    "\<forall>v. sq_store t v = (sq_store s v)\<lparr>sw_readOnly := sw_readOnly (sq_store t v)\<rparr>"
  shows "seq_inv t"
proof -
  have same: "ordinal_of t v = ordinal_of s v" "wgranted t v = wgranted s v" "wqueued t v = wqueued s v" "wsettled t v = wsettled s v"
    "wkeys t v = wkeys s v" "sw_candidateGeneration (sq_store t v) = sw_candidateGeneration (sq_store s v)" for v
    by (subst assms(8) [rule_format], simp)+
  have "seq_inv t = seq_inv s"
    by (simp only: seq_inv_def seq_core_def seq_idle_def eligibleLocked_def Let_def same assms(2-7))
  with assms(1) show ?thesis by blast
qed

lemma setReadOnly_inv: "seq_inv s \<Longrightarrow> seq_inv (setReadOnly s w)"
  by (rule calm_inv, assumption) (simp_all add: setReadOnly_def mod_waiter_def)

lemma ordinal_inv: "seq_inv s \<Longrightarrow> nextOrdinalLocked s = Some (n, t) \<Longrightarrow> seq_inv t"
  by (rule calm_inv, assumption) (auto simp: nextOrdinalLocked_def Let_def split: if_splits)

lemma watch_keys_state:
  assumes "watch_keys ks s = Some (vs, t)"
  shows "t = s\<lparr>sq_versions := sq_versions t\<rparr>"
  using assms
proof (induction ks arbitrary: s vs t)
  case (Cons k ks)
  then show ?case by (fastforce simp: Let_def split: if_splits bind_splits)
qed auto

lemma unwatch_keys_state:
  assumes "unwatch_keys ks s = Some t"
  shows "t = s\<lparr>sq_versions := sq_versions t\<rparr>"
  using assms
proof (induction ks arbitrary: s)
  case (Cons k ks)
  then show ?case by (fastforce simp: Let_def split: if_splits)
qed auto

lemma versions_inv: "seq_inv s \<Longrightarrow> t = s\<lparr>sq_versions := v\<rparr> \<Longrightarrow> seq_inv t"
  by (rule calm_inv, assumption) simp_all

end
