(* ===== verification/Mutation_Reach.thy ===== *)
theory Mutation_Reach
  imports Mutation_Operations
begin

text \<open>
  Reachable states of the mutation sequencer. Grants respect arrival order; the versions of the
  watched keys move exactly when a turn other than a read gives a key up, so a declaration
  knows whether a binding it depends on was published since it was taken.
\<close>

section \<open>Grants respect arrival order\<close>

text \<open>When a waiter is granted, every queued waiter that shares a key with it arrived no earlier.\<close>

lemma eligible_oldest:
  assumes "seq_core s" "eligibleLocked s w" "wqueued s v" "k \<in> set (wkeys s w)" "k \<in> set (wkeys s v)"
  shows "ordinal_of s w \<le> ordinal_of s v"
proof -
  note core = seq_coreD [OF assms(1)]
  obtain r where r: "filter (\<lambda>v. k \<in> set (wkeys s v)) (sq_waiters s) = w # r"
    using assms(2,4) unfolding eligible_iff [OF assms(1)] by blast
  have "v \<in> set (w # r)" using assms(3,5) core(3) unfolding r [symmetric] by simp
  moreover have "sorted (map (ordinal_of s) (w # r))" unfolding r [symmetric] using core(2) by (rule sorted_filter)
  ultimately show ?thesis by auto
qed

lemma grant_fold_queued: "wqueued (fold grantIfEligible ws s) v \<Longrightarrow> wqueued s v"
proof (induction ws arbitrary: s)
  case (Cons u ws)
  then have "wqueued (grantIfEligible u s) v" by simp
  then show ?case by (rule grantIf_keeps(8))
qed simp

lemma grant_fold_fifo:
  assumes "seq_core s" "wgranted (fold grantIfEligible ws s) w" "\<not> wgranted s w" "wqueued (fold grantIfEligible ws s) v"
    "k \<in> set (wkeys s w)" "k \<in> set (wkeys s v)"
  shows "ordinal_of s w \<le> ordinal_of s v"
  using assms
proof (induction ws arbitrary: s)
  case (Cons u ws)
  let ?t = "grantIfEligible u s"
  have q: "wqueued s v" using grant_fold_queued [OF Cons.prems(4)] .
  show ?case
  proof (cases "wgranted ?t w")
    case True
    then have "u = w" "eligibleLocked s w" using Cons.prems(3) by (auto simp: grantIfEligible_def grant_fields split: if_splits)
    with eligible_oldest [OF Cons.prems(1)] q Cons.prems(5,6) show ?thesis by blast
  next
    case False
    have "ordinal_of ?t w \<le> ordinal_of ?t v"
      by (rule Cons.IH) (use False Cons.prems grantIf_core in \<open>simp_all add: grantIf_keeps\<close>)
    then show ?thesis by (simp add: grantIf_keeps)
  qed
qed simp

lemma grants_live:
  assumes "grants s L t"
  shows "live t = L"
proof -
  obtain s' ws c where g: "live s' = L" "t = (fold grantIfEligible ws s')\<lparr>sq_candidates := c\<rparr>"
    using assms unfolding grants_def by blast
  have "live (fold grantIfEligible ws s') = live s'"
    using grant_fold_either [of s' _ ws] grant_fold_from [of ws s'] grant_fold_granted [of s' _ ws] grant_fold_queued [of ws s']
    unfolding live_def by blast
  then show ?thesis using g by (simp add: live_def)
qed

lemma grants_fifo:
  assumes "grants s L t" "\<not> (wgranted s w \<and> k \<in> set (wkeys s w))" "wgranted t w" "wqueued t v" "k \<in> set (wkeys t w)" "k \<in> set (wkeys t v)"
  shows "ordinal_of t w \<le> ordinal_of t v"
proof -
  obtain s' ws c where g: "seq_core s'" "\<forall>v. wgranted s' v \<longrightarrow> wgranted s v \<and> wkeys s' v = wkeys s v"
    "t = (fold grantIfEligible ws s')\<lparr>sq_candidates := c\<rparr>"
    using assms(1) unfolding grants_def by blast
  have k: "k \<in> set (wkeys s' w)" "k \<in> set (wkeys s' v)" using assms(5,6) by (simp_all add: g(3) grant_fold_keeps)
  with g(2) assms(2) have "\<not> wgranted s' w" by auto
  with assms(3,4) have "ordinal_of s' w \<le> ordinal_of s' v"
    by (intro grant_fold_fifo [OF g(1), of ws w v k] k) (simp_all add: g(3))
  then show ?thesis by (simp add: g(3) grant_fold_keeps)
qed

section \<open>Versions\<close>

lemma watch_keys_ok:
  assumes "distinct ks" "watch_keys ks s = Some (vs, t)"
  shows "vs = map (\<lambda>k. (k, dv_value (version_at s k))) ks"
    "sq_versions t k = (if k \<in> set ks then Some ((version_at s k)\<lparr>dv_watchers := dv_watchers (version_at s k) + 1\<rparr>) else sq_versions s k)"
    "k \<in> set ks \<Longrightarrow> dv_watchers (version_at s k) + 1 \<noteq> 0"
proof -
  have "vs = map (\<lambda>k. (k, dv_value (version_at s k))) ks \<and>
    (\<forall>k. sq_versions t k = (if k \<in> set ks then Some ((version_at s k)\<lparr>dv_watchers := dv_watchers (version_at s k) + 1\<rparr>) else sq_versions s k)) \<and>
    (\<forall>k \<in> set ks. dv_watchers (version_at s k) + 1 \<noteq> 0)"
    using assms
  proof (induction ks arbitrary: s vs t)
    case (Cons a ks)
    let ?v = "(version_at s a)\<lparr>dv_watchers := dv_watchers (version_at s a) + 1\<rparr>"
    let ?s = "s\<lparr>sq_versions := (sq_versions s)(a \<mapsto> ?v)\<rparr>"
    obtain vs' where op: "dv_watchers (version_at s a) + 1 \<noteq> 0" "watch_keys ks ?s = Some (vs', t)" "vs = (a, dv_value (version_at s a)) # vs'"
      using Cons.prems(2) by (auto simp: Let_def split: if_splits bind_splits)
    have at: "version_at ?s k = version_at s k" if "k \<in> set ks" for k
      using that Cons.prems(1) by (auto simp: version_at_def)
    have d: "distinct ks" "a \<notin> set ks" using Cons.prems(1) by simp_all
    show ?case using Cons.IH [OF d(1) op(2)] op(1,3) d(2) at by (auto cong: map_cong)
  qed simp
  then show "vs = map (\<lambda>k. (k, dv_value (version_at s k))) ks"
    "sq_versions t k = (if k \<in> set ks then Some ((version_at s k)\<lparr>dv_watchers := dv_watchers (version_at s k) + 1\<rparr>) else sq_versions s k)"
    "k \<in> set ks \<Longrightarrow> dv_watchers (version_at s k) + 1 \<noteq> 0" by blast+
qed

lemma unwatch_keys_ok:
  assumes "distinct ks" "\<forall>k \<in> set ks. dv_watchers (version_at s k) \<noteq> 0"
  shows "\<exists>t. unwatch_keys ks s = Some t \<and> (\<forall>k. sq_versions t k =
    (if k \<in> set ks then
       if dv_watchers (version_at s k) - 1 = 0 then None
       else Some ((version_at s k)\<lparr>dv_watchers := dv_watchers (version_at s k) - 1\<rparr>)
     else sq_versions s k))"
  using assms
proof (induction ks arbitrary: s)
  case (Cons a ks)
  let ?v = "(version_at s a)\<lparr>dv_watchers := dv_watchers (version_at s a) - 1\<rparr>"
  let ?s = "s\<lparr>sq_versions := (sq_versions s)(a := (if dv_watchers ?v = 0 then None else Some ?v))\<rparr>"
  have at: "version_at ?s k = version_at s k" if "k \<in> set ks" for k
    using that Cons.prems(1) by (auto simp: version_at_def)
  have d: "distinct ks" "a \<notin> set ks" "\<forall>k \<in> set ks. dv_watchers (version_at ?s k) \<noteq> 0"
    using Cons.prems at by simp_all
  obtain t where t: "unwatch_keys ks ?s = Some t" "\<forall>k. sq_versions t k =
    (if k \<in> set ks then
       if dv_watchers (version_at ?s k) - 1 = 0 then None
       else Some ((version_at ?s k)\<lparr>dv_watchers := dv_watchers (version_at ?s k) - 1\<rparr>)
     else sq_versions ?s k)"
    using Cons.IH [OF d(1,3)] by blast
  have "unwatch_keys (a # ks) s = Some t" using Cons.prems(2) t(1) by (simp add: Let_def)
  moreover have "sq_versions t k =
    (if k \<in> set (a # ks) then
       if dv_watchers (version_at s k) - 1 = 0 then None
       else Some ((version_at s k)\<lparr>dv_watchers := dv_watchers (version_at s k) - 1\<rparr>)
     else sq_versions s k)" for k
    using t(2) [rule_format, of k] at [of k] d(2) by (cases "k \<in> set ks") auto
  ultimately show ?case by blast
qed simp

lemma releaseEach_versions:
  assumes "distinct ks" "releaseEach w ks s = Some t"
  shows "sq_versions t k = (if k \<in> set ks \<and> \<not> sw_readOnly (sq_store s w)
      then map_option (\<lambda>v. v\<lparr>dv_value := dv_value v + 1\<rparr>) (sq_versions s k) else sq_versions s k)"
    "k \<in> set ks \<Longrightarrow> \<not> sw_readOnly (sq_store s w) \<Longrightarrow> sq_versions s k = Some v \<Longrightarrow> dv_value v + 1 \<noteq> 0"
proof -
  have "(\<forall>k. sq_versions t k = (if k \<in> set ks \<and> \<not> sw_readOnly (sq_store s w)
      then map_option (\<lambda>v. v\<lparr>dv_value := dv_value v + 1\<rparr>) (sq_versions s k) else sq_versions s k)) \<and>
    (\<forall>k v. k \<in> set ks \<longrightarrow> \<not> sw_readOnly (sq_store s w) \<longrightarrow> sq_versions s k = Some v \<longrightarrow> dv_value v + 1 \<noteq> 0)"
    using assms
  proof (induction ks arbitrary: s)
    case (Cons a ks)
    show ?case
    proof (cases "\<not> sw_readOnly (sq_store s w) \<and> sq_versions s a \<noteq> None")
      case True
      then obtain v where v: "sq_versions s a = Some v" by blast
      let ?s = "s\<lparr>sq_held := (sq_held s)(a := None), sq_versions := (sq_versions s)(a \<mapsto> v\<lparr>dv_value := dv_value v + 1\<rparr>)\<rparr>"
      have r: "releaseEach w ks ?s = Some t" "dv_value v + 1 \<noteq> 0"
        using Cons.prems(2) True v by (auto simp: Let_def split: if_splits)
      have d: "distinct ks" "a \<notin> set ks" using Cons.prems(1) by simp_all
      have IH: "\<forall>k. sq_versions t k = (if k \<in> set ks \<and> \<not> sw_readOnly (sq_store ?s w)
          then map_option (\<lambda>v. v\<lparr>dv_value := dv_value v + 1\<rparr>) (sq_versions ?s k) else sq_versions ?s k)"
        "\<forall>k v. k \<in> set ks \<longrightarrow> \<not> sw_readOnly (sq_store ?s w) \<longrightarrow> sq_versions ?s k = Some v \<longrightarrow> dv_value v + 1 \<noteq> 0"
        using Cons.IH [OF d(1) r(1)] by blast+
      have "dv_value u + 1 \<noteq> 0" if "k \<in> set (a # ks)" "sq_versions s k = Some u" for k u
        using IH(2) [rule_format, of k u] that v r(2) d(2) True by (cases "k = a") auto
      then show ?thesis using IH(1) d(2) v True by auto
    next
      case False
      let ?s = "s\<lparr>sq_held := (sq_held s)(a := None)\<rparr>"
      have "releaseEach w ks ?s = Some t"
        using Cons.prems(2) False by (auto simp: Let_def split: if_splits option.splits)
      with Cons.IH [of ?s] Cons.prems(1) False show ?thesis by auto
    qed
  qed simp
  then show "sq_versions t k = (if k \<in> set ks \<and> \<not> sw_readOnly (sq_store s w)
      then map_option (\<lambda>v. v\<lparr>dv_value := dv_value v + 1\<rparr>) (sq_versions s k) else sq_versions s k)"
    "k \<in> set ks \<Longrightarrow> \<not> sw_readOnly (sq_store s w) \<Longrightarrow> sq_versions s k = Some v \<Longrightarrow> dv_value v + 1 \<noteq> 0" by blast+
qed

definition bumped :: "mutationSequencer \<Rightarrow> nat \<Rightarrow> mutationSequencer \<Rightarrow> bool" where
  "bumped s w t \<longleftrightarrow>
     (\<forall>k. sq_versions t k = (if k \<in> set (wkeys s w) \<and> \<not> sw_readOnly (sq_store s w)
        then map_option (\<lambda>v. v\<lparr>dv_value := dv_value v + 1\<rparr>) (sq_versions s k) else sq_versions s k)) \<and>
     (\<forall>k v. k \<in> set (wkeys s w) \<longrightarrow> \<not> sw_readOnly (sq_store s w) \<longrightarrow> sq_versions s k = Some v \<longrightarrow> dv_value v + 1 \<noteq> 0)"

lemma addFronts_versions: "sq_versions (addFrontCandidatesLocked ks s) = sq_versions s"
proof -
  have one: "sq_versions (addFront k s) = sq_versions s" for k s
    by (simp add: addFront_def addCandidateLocked_def mod_waiter_def Let_def split: list.split)
  have "sq_versions (fold addFront ks s) = sq_versions s" by (induction ks arbitrary: s) (simp_all add: one)
  then show ?thesis by (simp add: addFrontCandidatesLocked_def)
qed

lemma grantCandidates_versions: "sq_versions (grantCandidatesLocked s) = sq_versions s"
  by (simp add: grantCandidatesLocked_def grant_fold_keeps)

lemma wake_versions: "sq_versions (wakeNext w s) = sq_versions s"
  by (simp add: wakeNext_def grantCandidates_versions addFronts_versions)

lemma releaseKeys_bumped:
  assumes "releaseKeysLocked w b = Some c" "sq_versions b = sq_versions s" "wkeys b w = wkeys s w"
    "sw_readOnly (sq_store b w) = sw_readOnly (sq_store s w)" "distinct (wkeys s w)" "sq_versions t = sq_versions c"
  shows "bumped s w t"
proof -
  obtain u where u: "releaseEach w (wkeys b w) b = Some u" "sq_versions c = sq_versions u"
    using assms(1) by (auto simp: releaseKeysLocked_def mod_waiter_def split: bind_splits)
  have d: "distinct (wkeys b w)" using assms(3,5) by simp
  note v = releaseEach_versions [OF d u(1), unfolded assms(2-4)]
  show ?thesis unfolding bumped_def assms(6) u(2) using v by blast
qed

lemma granted_distinct: "seq_inv s \<Longrightarrow> wgranted s w \<Longrightarrow> distinct (wkeys s w)"
  unfolding seq_inv_def using seq_coreD(7) [of s w] strict_sorted_iff by blast

lemma release_bumped:
  assumes "seq_inv s" "sequencer_release s w = Some t"
  shows "bumped s w t" "wgranted s w"
proof -
  let ?s1 = "mod_waiter w (\<lambda>r. r\<lparr>sw_settled := True\<rparr>) s"
  obtain b c where op: "wgranted s w" "beginCandidatesLocked ?s1 = Some b" "releaseKeysLocked w b = Some c" "t = wakeNext w c"
    using assms(2) by (auto simp: sequencer_release_def Let_def split: if_splits bind_splits)
  show "wgranted s w" by (rule op(1))
  have b: "b = ?s1\<lparr>sq_candidateGeneration := sq_candidateGeneration s + 1\<rparr>"
    using op(2) by (auto simp: beginCandidatesLocked_def Let_def mod_waiter_def split: if_splits)
  show "bumped s w t"
    by (rule releaseKeys_bumped [OF op(3)]) (use granted_distinct [OF assms(1) op(1)] in \<open>simp_all add: b mod_waiter_def op(4) wake_versions\<close>)
qed

lemma abandon_versions:
  assumes "seq_inv s" "abandon s w = Some t"
  shows "if wgranted s w \<and> \<not> wsettled s w then bumped s w t else sq_versions t = sq_versions s"
proof (cases "wgranted s w \<and> \<not> wsettled s w")
  case True
  then have "abandon s w = sequencer_release s w"
    by (auto simp: abandon_def sequencer_release_def Let_def beginCandidatesLocked_def mod_waiter_def)
  with assms release_bumped(1) [OF assms(1)] True show ?thesis by simp
next
  case False
  then show ?thesis
    using assms(2)
    by (auto simp: abandon_def beginCandidatesLocked_def mod_waiter_def removeClaimsLocked_def unqueue_def Let_def wake_versions
        split: if_splits)
qed

lemma requeue_bumped:
  assumes "seq_inv s" "requeue s w deps = Some t"
  shows "bumped s w t" "wgranted s w"
proof -
  obtain b c where op: "wgranted s w" "beginCandidatesLocked s = Some b" "releaseKeysLocked w b = Some c"
    "t = grantCandidatesLocked (addCandidateLocked w (insertLocked w
       (mod_waiter w (\<lambda>r. r\<lparr>sw_keys := keys_of deps, sw_ready := False\<rparr>) (addFrontCandidatesLocked (wkeys c w) c))))"
    using assms(2) by (auto simp: requeue_def Let_def split: if_splits bind_splits)
  show "wgranted s w" by (rule op(1))
  have b: "b = s\<lparr>sq_candidateGeneration := sq_candidateGeneration s + 1\<rparr>"
    using op(2) by (auto simp: beginCandidatesLocked_def Let_def split: if_splits)
  have "sq_versions t = sq_versions c"
    by (simp add: op(4) grantCandidates_versions addCandidateLocked_def insertLocked_def insertGlobalLocked_def mod_waiter_def
        Let_def addFronts_versions)
  then show "bumped s w t"
    by (intro releaseKeys_bumped [OF op(3)]) (use granted_distinct [OF assms(1) op(1)] in \<open>simp_all add: b\<close>)
qed

lemma enqueue_versions: "enqueueFor s deps r = Some (w, t) \<Longrightarrow> sq_versions t = sq_versions s"
  by (auto simp: enqueueFor_def nextOrdinalLocked_def insertLocked_def insertGlobalLocked_def mod_waiter_def grant_fields Let_def
      split: if_splits)

section \<open>Reachable states\<close>

text \<open>
  A reachable sequencer together with the live declarations: every snapshot that was taken and
  not yet released, with the keys that turns other than reads have given up since it was taken.
\<close>

definition published :: "mutationSequencer \<Rightarrow> nat \<Rightarrow> (dependencySnapshot \<times> mkey set) list \<Rightarrow> (dependencySnapshot \<times> mkey set) list" where
  "published s w S = (if sw_readOnly (sq_store s w) then S else map (\<lambda>(sn, D). (sn, D \<union> set (wkeys s w))) S)"

inductive seq_reach :: "mutationSequencer \<Rightarrow> (dependencySnapshot \<times> mkey set) list \<Rightarrow> bool" where
  reach_new: "seq_reach newMutationSequencer []"
| reach_enqueue: "seq_reach s S \<Longrightarrow> enqueueFor s deps r = Some (w, t) \<Longrightarrow> seq_reach t S"
| reach_reserve: "seq_reach s S \<Longrightarrow> reserveOrdinal s = Some (n, t) \<Longrightarrow> seq_reach t S"
| reach_release: "seq_reach s S \<Longrightarrow> sequencer_release s w = Some t \<Longrightarrow> seq_reach t (published s w S)"
| reach_abandon: "seq_reach s S \<Longrightarrow> abandon s w = Some t \<Longrightarrow>
    seq_reach t (if wgranted s w \<and> \<not> wsettled s w then published s w S else S)"
| reach_requeue: "seq_reach s S \<Longrightarrow> requeue s w deps = Some t \<Longrightarrow> seq_reach t (published s w S)"
| reach_expand: "seq_reach s S \<Longrightarrow> TryExpand s w deps = (b, t) \<Longrightarrow> seq_reach t S"
| reach_read: "seq_reach s S \<Longrightarrow> seq_reach (setReadOnly s w) S"
| reach_snapshot: "seq_reach s S \<Longrightarrow> sorted_wrt (<) (keys_of deps) \<Longrightarrow> snapshot s deps = Some (sn, t) \<Longrightarrow> seq_reach t ((sn, {}) # S)"
| reach_forget: "seq_reach s S \<Longrightarrow> (sn, D) \<in> set S \<Longrightarrow> snapshot_release s sn = Some (sn', t) \<Longrightarrow> seq_reach t (remove1 (sn, D) S)"

lemma reach_settle: "seq_reach s S \<Longrightarrow> settle s w = Some t \<Longrightarrow> seq_reach t (if wsettled s w then S else published s w S)"
  by (auto simp: settle_def intro: reach_release split: if_splits)

lemma snapshot_state: "snapshot s deps = Some (sn, t) \<Longrightarrow> t = s\<lparr>sq_versions := sq_versions t\<rparr>"
  by (auto simp: snapshot_def split: bind_splits dest: watch_keys_state)

lemma snapshot_release_state: "snapshot_release s sn = Some (sn', t) \<Longrightarrow> t = s\<lparr>sq_versions := sq_versions t\<rparr>"
  by (auto simp: snapshot_release_def releaseSnapshotLocked_def split: if_splits bind_splits dest: unwatch_keys_state)

lemma reach_inv: "seq_reach s S \<Longrightarrow> seq_inv s"
proof (induction rule: seq_reach.induct)
  case (reach_snapshot s S deps sn t)
  then show ?case using versions_inv snapshot_state by blast
next
  case (reach_forget s S sn D sn' t)
  then show ?case using versions_inv snapshot_release_state by blast
qed (auto simp: new_inv reserveOrdinal_def
    intro: enqueue_inv(1) release_inv(1) abandon_inv(1) requeue_inv(1) TryExpand_inv setReadOnly_inv ordinal_inv)

section \<open>Declarations detect every published change\<close>

definition pins :: "mkey \<Rightarrow> (dependencySnapshot \<times> mkey set) list \<Rightarrow> nat" where
  "pins k S = length (filter (\<lambda>p. k \<in> fst ` set (ds_versions (fst p))) S)"

definition pinned :: "mutationSequencer \<Rightarrow> (dependencySnapshot \<times> mkey set) list \<Rightarrow> bool" where
  "pinned s S \<longleftrightarrow> (\<forall>k. case sq_versions s k of None \<Rightarrow> pins k S = 0 | Some v \<Rightarrow> unat (dv_watchers v) = pins k S \<and> 0 < pins k S)"

definition tracked :: "mutationSequencer \<Rightarrow> dependencySnapshot \<Rightarrow> mkey set \<Rightarrow> bool" where
  "tracked s sn D \<longleftrightarrow> distinct (map fst (ds_versions sn)) \<and> \<not> ds_once sn \<and>
     (\<forall>k v. (k, v) \<in> set (ds_versions sn) \<longrightarrow> v \<le> dv_value (version_at s k) \<and> (dv_value (version_at s k) = v \<longleftrightarrow> k \<notin> D))"

lemma pins_published [simp]: "pins k (published s w S) = pins k S"
  by (auto simp: pins_def published_def filter_map o_def case_prod_beta)

lemma pinned_versions: "pinned s S \<Longrightarrow> sq_versions t = sq_versions s \<Longrightarrow> pinned t S"
  by (simp add: pinned_def)

lemma pinned_bumped:
  assumes "pinned s S" "bumped s w t"
  shows "pinned t (published s w S)"
  unfolding pinned_def
proof
  fix k
  show "case sq_versions t k of None \<Rightarrow> pins k (published s w S) = 0
    | Some v \<Rightarrow> unat (dv_watchers v) = pins k (published s w S) \<and> 0 < pins k (published s w S)"
    using assms(1) [unfolded pinned_def, rule_format, of k] assms(2)
    by (cases "sq_versions s k") (auto simp: bumped_def)
qed

lemma tracked_versions: "tracked s sn D \<Longrightarrow> sq_versions t = sq_versions s \<Longrightarrow> tracked t sn D"
  by (simp add: tracked_def version_at_def)

lemma pins_pos: "(sn, D) \<in> set S \<Longrightarrow> k \<in> fst ` set (ds_versions sn) \<Longrightarrow> 0 < pins k S"
proof -
  assume "(sn, D) \<in> set S" "k \<in> fst ` set (ds_versions sn)"
  then have "(sn, D) \<in> set (filter (\<lambda>p. k \<in> fst ` set (ds_versions (fst p))) S)" by simp
  then show ?thesis unfolding pins_def by (rule length_pos_if_in_set)
qed

lemma tracked_bumped:
  assumes "tracked s sn D" "bumped s w t" "\<forall>k \<in> fst ` set (ds_versions sn). sq_versions s k \<noteq> None"
  shows "tracked t sn (if sw_readOnly (sq_store s w) then D else D \<union> set (wkeys s w))"
proof -
  have "v \<le> dv_value (version_at t k) \<and>
      (dv_value (version_at t k) = v \<longleftrightarrow> k \<notin> (if sw_readOnly (sq_store s w) then D else D \<union> set (wkeys s w)))"
    if kv: "(k, v) \<in> set (ds_versions sn)" for k v
  proof -
    have old: "v \<le> dv_value (version_at s k)" "dv_value (version_at s k) = v \<longleftrightarrow> k \<notin> D"
      using assms(1) kv unfolding tracked_def by blast+
    obtain x where x: "sq_versions s k = Some x" using assms(3) kv by force
    show ?thesis
    proof (cases "k \<in> set (wkeys s w) \<and> \<not> sw_readOnly (sq_store s w)")
      case True
      then have t: "dv_value (version_at t k) = dv_value x + 1" "dv_value x + 1 \<noteq> 0"
        using assms(2) x by (auto simp: bumped_def version_at_def)
      then have "dv_value x \<noteq> MaxUint64" by auto
      then have "dv_value x < dv_value x + 1" by (rule word_less_succ)
      moreover have "v \<le> dv_value x" using old(1) x by (simp add: version_at_def)
      ultimately show ?thesis using True t by auto
    next
      case False
      then have "version_at t k = version_at s k" using assms(2) by (auto simp: bumped_def version_at_def)
      with old False show ?thesis by auto
    qed
  qed
  then show ?thesis using assms(1) unfolding tracked_def by blast
qed


definition declared :: "mutationSequencer \<Rightarrow> (dependencySnapshot \<times> mkey set) list \<Rightarrow> bool" where
  "declared s S \<longleftrightarrow> pinned s S \<and> (\<forall>sn D. (sn, D) \<in> set S \<longrightarrow> tracked s sn D)"

lemma declared_versions: "declared s S \<Longrightarrow> sq_versions t = sq_versions s \<Longrightarrow> declared t S"
  unfolding declared_def using pinned_versions tracked_versions by blast

lemma declared_known: "declared s S \<Longrightarrow> (sn, D) \<in> set S \<Longrightarrow> k \<in> fst ` set (ds_versions sn) \<Longrightarrow>
    \<exists>v. sq_versions s k = Some v \<and> dv_watchers v \<noteq> 0"
proof -
  assume a: "declared s S" "(sn, D) \<in> set S" "k \<in> fst ` set (ds_versions sn)"
  then have "0 < pins k S" by (intro pins_pos)
  with a(1) [unfolded declared_def pinned_def, THEN conjunct1, rule_format, of k]
  show ?thesis by (cases "sq_versions s k") auto
qed

lemma declared_bumped:
  assumes "declared s S" "bumped s w t"
  shows "declared t (published s w S)"
proof -
  have "tracked t sn D'" if "(sn, D') \<in> set (published s w S)" for sn D'
  proof -
    have "\<exists>D. (sn, D) \<in> set S \<and> D' = (if sw_readOnly (sq_store s w) then D else D \<union> set (wkeys s w))"
      using that by (cases "sw_readOnly (sq_store s w)") (auto simp: published_def)
    then obtain D where D: "(sn, D) \<in> set S" "D' = (if sw_readOnly (sq_store s w) then D else D \<union> set (wkeys s w))"
      by blast
    have "tracked s sn D" using assms(1) D(1) unfolding declared_def by blast
    moreover have "\<forall>k \<in> fst ` set (ds_versions sn). sq_versions s k \<noteq> None" using declared_known [OF assms(1) D(1)] by blast
    ultimately show ?thesis unfolding D(2) by (rule tracked_bumped [OF _ assms(2)])
  qed
  with pinned_bumped [OF _ assms(2)] assms(1) show ?thesis unfolding declared_def by blast
qed

lemma declared_snapshot:
  assumes "declared s S" "sorted_wrt (<) (keys_of deps)" "snapshot s deps = Some (sn, t)"
  shows "declared t ((sn, {}) # S)"
proof -
  let ?ks = "keys_of deps"
  have d: "distinct ?ks" using assms(2) strict_sorted_iff by blast
  obtain vs where w: "watch_keys ?ks s = Some (vs, t)" "sn = \<lparr>ds_versions = vs, ds_once = False\<rparr>"
    using assms(3) by (auto simp: snapshot_def split: bind_splits)
  note ok = watch_keys_ok [OF d w(1)]
  have fst: "fst ` set vs = set ?ks" unfolding ok(1) by force
  have pins: "pins k ((sn, {}) # S) = (if k \<in> set ?ks then 1 else 0) + pins k S" for k
    by (simp add: pins_def w(2) fst)
  have val: "dv_value (version_at t k) = dv_value (version_at s k)" for k
    by (auto simp: version_at_def ok(2))
  have "case sq_versions t k of None \<Rightarrow> pins k ((sn, {}) # S) = 0
    | Some v \<Rightarrow> unat (dv_watchers v) = pins k ((sn, {}) # S) \<and> 0 < pins k ((sn, {}) # S)" for k
  proof -
    have old: "case sq_versions s k of None \<Rightarrow> pins k S = 0 | Some v \<Rightarrow> unat (dv_watchers v) = pins k S \<and> 0 < pins k S"
      using assms(1) unfolding declared_def pinned_def by blast
    have "unat (dv_watchers (version_at s k) + 1) = unat (dv_watchers (version_at s k)) + 1" if "k \<in> set ?ks"
      using ok(3) [OF that] unatSuc [of "dv_watchers (version_at s k)"] by (simp add: add.commute)
    then show ?thesis using old ok(2) [of k] pins [of k] by (cases "sq_versions s k") (auto simp: version_at_def split: if_splits)
  qed
  moreover have "tracked t sn {}" using d by (auto simp: tracked_def w(2) ok(1) val o_def)
  moreover have "tracked t sn' D" if "(sn', D) \<in> set S" for sn' D
    using that assms(1) by (simp add: declared_def tracked_def val)
  ultimately show ?thesis unfolding declared_def pinned_def by auto
qed

lemma declared_forget:
  assumes "declared s S" "(sn, D) \<in> set S"
  obtains t where "snapshot_release s sn = Some (sn\<lparr>ds_once := True\<rparr>, t)" "declared t (remove1 (sn, D) S)"
proof -
  let ?ks = "map fst (ds_versions sn)"
  have tr: "tracked s sn D" using assms unfolding declared_def by blast
  have d: "distinct ?ks" "\<not> ds_once sn" using tr unfolding tracked_def by blast+
  have known: "\<exists>v. sq_versions s k = Some v \<and> dv_watchers v \<noteq> 0" if "k \<in> set ?ks" for k
    using declared_known [OF assms, of k] that by simp
  then have "\<forall>k \<in> set ?ks. dv_watchers (version_at s k) \<noteq> 0" by (fastforce simp: version_at_def)
  from unwatch_keys_ok [OF d(1) this] obtain t where t: "unwatch_keys ?ks s = Some t"
    "\<forall>k. sq_versions t k =
    (if k \<in> set ?ks then
       if dv_watchers (version_at s k) - 1 = 0 then None
       else Some ((version_at s k)\<lparr>dv_watchers := dv_watchers (version_at s k) - 1\<rparr>)
     else sq_versions s k)" by blast
  let ?S = "remove1 (sn, D) S"
  have pins: "pins k S = (if k \<in> set ?ks then 1 else 0) + pins k ?S" for k
    using assms(2) pins_pos [OF assms(2), of k] by (auto simp: pins_def filter_remove1 length_remove1 remove1_idem)
  have old: "case sq_versions s k of None \<Rightarrow> pins k S = 0 | Some v \<Rightarrow> unat (dv_watchers v) = pins k S \<and> 0 < pins k S" for k
    using assms(1) unfolding declared_def pinned_def by blast
  have cnt: "unat (dv_watchers v - 1) = pins k ?S" if "k \<in> set ?ks" "sq_versions s k = Some v" for k v
  proof -
    have "dv_watchers v \<noteq> 0" "unat (dv_watchers v) = pins k S" using known [OF that(1)] old [of k] that(2) by auto
    then show ?thesis using pins [of k] that(1) by (simp add: unat_minus_one)
  qed
  have "case sq_versions t k of None \<Rightarrow> pins k ?S = 0 | Some v \<Rightarrow> unat (dv_watchers v) = pins k ?S \<and> 0 < pins k ?S" for k
  proof (cases "k \<in> set ?ks")
    case True
    obtain v where v: "sq_versions s k = Some v" using known [OF True] by blast
    have "dv_watchers v - 1 = 0 \<longleftrightarrow> pins k ?S = 0" using cnt [OF True v] by (metis unat_eq_zero)
    then show ?thesis using t(2) [rule_format, of k] True v cnt [OF True v] by (simp add: version_at_def)
  next
    case False
    then show ?thesis using t(2) [rule_format, of k] old [of k] pins [of k] by (cases "sq_versions s k") auto
  qed
  then have p: "pinned t ?S" unfolding pinned_def by blast
  have "tracked t sn' D'" if in': "(sn', D') \<in> set ?S" for sn' D'
  proof -
    have "dv_value (version_at t k) = dv_value (version_at s k)" if "k \<in> fst ` set (ds_versions sn')" for k
    proof (cases "k \<in> set ?ks")
      case True
      obtain v where v: "sq_versions s k = Some v" using known [OF True] by blast
      have "0 < pins k ?S" using in' that by (rule pins_pos)
      then have "dv_watchers v - 1 \<noteq> 0" using cnt [OF True v] by auto
      then show ?thesis using t(2) [rule_format, of k] True v by (simp add: version_at_def)
    qed (use t(2) in \<open>simp add: version_at_def\<close>)
    moreover have "tracked s sn' D'" using in' assms(1) notin_set_remove1 unfolding declared_def by fastforce
    ultimately show ?thesis unfolding tracked_def by force
  qed
  with p have "declared t ?S" unfolding declared_def by blast
  moreover have "snapshot_release s sn = Some (sn\<lparr>ds_once := True\<rparr>, t)"
    using d(2) t(1) by (simp add: snapshot_release_def releaseSnapshotLocked_def)
  ultimately show ?thesis by (rule that [rotated])
qed

lemma reach_declared: "seq_reach s S \<Longrightarrow> declared s S"
proof (induction rule: seq_reach.induct)
  case reach_new
  then show ?case by (simp add: declared_def pinned_def newMutationSequencer_def pins_def)
next
  case (reach_enqueue s S deps r w t)
  then show ?case using declared_versions enqueue_versions by blast
next
  case (reach_reserve s S n t)
  then show ?case by (auto intro: declared_versions simp: reserveOrdinal_def nextOrdinalLocked_def Let_def split: if_splits)
next
  case (reach_release s S w t)
  then show ?case using declared_bumped release_bumped(1) reach_inv by blast
next
  case (reach_abandon s S w t)
  then show ?case using abandon_versions [OF reach_inv, of s S w t] declared_bumped declared_versions by (auto split: if_splits)
next
  case (reach_requeue s S w deps t)
  then show ?case using declared_bumped requeue_bumped(1) reach_inv by blast
next
  case (reach_expand s S w deps b t)
  show ?case
  proof (cases b)
    case True
    with reach_expand.hyps have "TryExpand s w deps = (True, t)" by simp
    then show ?thesis by (rule declared_versions [OF reach_expand.IH TryExpand_done(12)])
  next
    case False
    with reach_expand TryExpand_refused [of s w deps] show ?thesis by simp
  qed
next
  case (reach_read s S w)
  then show ?case by (auto intro: declared_versions simp: setReadOnly_def mod_waiter_def)
next
  case (reach_snapshot s S deps sn t)
  then show ?case using declared_snapshot by blast
next
  case (reach_forget s S sn D sn' t)
  show ?case
  proof (rule declared_forget [OF reach_forget.IH reach_forget.hyps(2)])
    fix t' assume "snapshot_release s sn = Some (sn\<lparr>ds_once := True\<rparr>, t')" "declared t' (remove1 (sn, D) S)"
    with reach_forget.hyps(3) show ?thesis by simp
  qed
qed

section \<open>Steps that may grant\<close>

definition seq_step :: "mutationSequencer \<Rightarrow> mutationSequencer \<Rightarrow> bool" where
  "seq_step s t \<longleftrightarrow> (\<exists>deps r w. enqueueFor s deps r = Some (w, t)) \<or> (\<exists>w. sequencer_release s w = Some t) \<or>
     (\<exists>w. settle s w = Some t) \<or> (\<exists>w. abandon s w = Some t) \<or> (\<exists>w deps. requeue s w deps = Some t) \<or>
     (\<exists>w deps b. TryExpand s w deps = (b, t))"

lemma requeue_fifo:
  assumes "seq_inv s" "requeue s u deps = Some t" "w = u \<or> sq_held s k \<noteq> Some w" "wgranted t w" "wqueued t v"
    "k \<in> set (wkeys t w)" "k \<in> set (wkeys t v)"
  shows "ordinal_of t w \<le> ordinal_of t v"
proof (rule grants_fifo [OF requeue_inv(2) [OF assms(1,2)] _ assms(4-7)])
  have "seq_core s" using assms(1) by (simp add: seq_inv_def)
  then show "\<not> (wgranted (mod_waiter u (\<lambda>r. r\<lparr>sw_granted := False\<rparr>) s) w \<and>
      k \<in> set (wkeys (mod_waiter u (\<lambda>r. r\<lparr>sw_granted := False\<rparr>) s) w))"
    using assms(3) seq_coreD(6) [of s k w] by (auto simp: mod_waiter_def)
qed

lemma expand_fifo:
  assumes "seq_inv s" "TryExpand s u deps = (b, t)" "sq_held s k \<noteq> Some w" "wgranted t w" "wqueued t v"
    "k \<in> set (wkeys t w)" "k \<in> set (wkeys t v)"
  shows "ordinal_of t w \<le> ordinal_of t v"
proof -
  have core: "seq_core s" using assms(1) by (simp add: seq_inv_def)
  have fresh: "\<not> (wgranted s w \<and> k \<in> set (wkeys s w))" using assms(3) seq_coreD(6) [OF core, of k w] by blast
  then have "b" using TryExpand_refused [of s u deps] assms(2,4,6) by auto
  with assms(2) have ok: "TryExpand s u deps = (True, t)" by simp
  note ex = TryExpand_done [OF ok]
  have u: "w = u" "wgranted s w" using fresh assms(4,6) ex(3) by (auto simp: ex(6) split: if_splits)
  moreover have "v \<noteq> u" using assms(5) seq_coreD(4) [OF core, of u] ex(3) by (auto simp: ex(6))
  ultimately show ?thesis
    using TryExpand_oldest [OF core ok, of k v] fresh assms(5-7) by (simp add: ex(6))
qed

text \<open>
  A step that gives a waiter a key it did not hold, or puts a granted waiter back and grants it
  again, respects the order of arrival on that key.
\<close>

lemma step_fifo:
  assumes inv: "seq_inv s" and step: "seq_step s t"
    and new: "sq_held s k \<noteq> Some w \<or> (\<exists>deps. requeue s w deps = Some t)"
    and w: "wgranted t w" "wqueued t v" "k \<in> set (wkeys t w)" "k \<in> set (wkeys t v)"
  shows "ordinal_of t w \<le> ordinal_of t v"
proof (cases "\<exists>deps. requeue s w deps = Some t")
  case True
  then show ?thesis using requeue_fifo [OF inv _ _ w] by blast
next
  case False
  with new have held: "sq_held s k \<noteq> Some w" by blast
  then have fresh: "\<not> (wgranted s w \<and> k \<in> set (wkeys s w))"
    using inv seq_coreD(6) [of s k w] by (auto simp: seq_inv_def)
  then have "t \<noteq> s" using w by blast
  consider u deps where "requeue s u deps = Some t" | u deps b where "TryExpand s u deps = (b, t)" | L where "grants s L t"
  proof -
    have "sequencer_release s u = Some t" if "settle s u = Some t" for u
      using that \<open>t \<noteq> s\<close> by (simp add: settle_def split: if_splits)
    then show ?thesis
      using that step \<open>t \<noteq> s\<close> enqueue_inv(2) [OF inv] release_inv(2) [OF inv] abandon_inv(2) [OF inv]
      unfolding seq_step_def by blast
  qed
  then show ?thesis
  proof cases
    case 1
    then show ?thesis using requeue_fifo [OF inv _ _ w] held by blast
  next
    case 2
    then show ?thesis using expand_fifo [OF inv _ held w] by blast
  next
    case 3
    then show ?thesis using grants_fifo [OF _ fresh w] by blast
  qed
qed

section \<open>Progress\<close>

text \<open>Settling a granted waiter only fails when a 64-bit counter would wrap.\<close>

lemma releaseEach_some:
  assumes "distinct ks" "\<forall>k \<in> set ks. sq_held s k = Some w" "\<forall>k \<in> set ks. \<forall>v. sq_versions s k = Some v \<longrightarrow> dv_value v + 1 \<noteq> 0"
  shows "\<exists>t. releaseEach w ks s = Some t"
  using assms
proof (induction ks arbitrary: s)
  case (Cons a ks)
  have d: "distinct ks" "a \<notin> set ks" "sq_held s a = Some w" using Cons.prems by simp_all
  let ?s = "s\<lparr>sq_held := (sq_held s)(a := None)\<rparr>"
  show ?case
  proof (cases "sw_readOnly (sq_store s w) \<or> sq_versions s a = None")
    case True
    then have "releaseEach w (a # ks) s = releaseEach w ks ?s" using d(3) by (auto simp: Let_def split: option.split)
    moreover have "\<exists>t. releaseEach w ks ?s = Some t"
      by (rule Cons.IH [OF d(1)]) (use Cons.prems d in auto)
    ultimately show ?thesis by simp
  next
    case False
    then obtain v where v: "sq_versions s a = Some v" by blast
    let ?t = "?s\<lparr>sq_versions := (sq_versions s)(a \<mapsto> v\<lparr>dv_value := dv_value v + 1\<rparr>)\<rparr>"
    have "releaseEach w (a # ks) s = releaseEach w ks ?t"
      using d(3) False v Cons.prems(3) by (simp add: Let_def)
    moreover have "\<exists>t. releaseEach w ks ?t = Some t"
      by (rule Cons.IH [OF d(1)]) (use Cons.prems d in auto)
    ultimately show ?thesis by simp
  qed
qed simp

lemma settle_some:
  assumes "seq_inv s" "wgranted s w" "sq_candidateGeneration s + 1 \<noteq> 0" "\<forall>k v. sq_versions s k = Some v \<longrightarrow> dv_value v + 1 \<noteq> 0"
  shows "\<exists>t. settle s w = Some t"
proof -
  let ?b = "(mod_waiter w (\<lambda>r. r\<lparr>sw_settled := True\<rparr>) s)\<lparr>sq_candidateGeneration := sq_candidateGeneration s + 1\<rparr>"
  have ns: "\<not> wsettled s w" and core: "seq_core s" using assms(1,2) by (auto simp: seq_inv_def)
  have "\<exists>t. releaseEach w (wkeys s w) ?b = Some t"
    using granted_distinct [OF assms(1,2)] core_heldD [OF core] assms(2,4)
    by (intro releaseEach_some) (auto simp: mod_waiter_def)
  then show ?thesis
    using ns assms(2,3)
    by (auto simp: settle_def sequencer_release_def releaseKeysLocked_def beginCandidatesLocked_def Let_def mod_waiter_def)
qed

lemma settle_release: "\<not> wsettled s w \<Longrightarrow> settle s w = sequencer_release s w"
  by (simp add: settle_def)

lemma release_generation: "sequencer_release s w = Some t \<Longrightarrow> sq_candidateGeneration t = sq_candidateGeneration s + 1"
proof -
  assume "sequencer_release s w = Some t"
  then obtain b c where op: "beginCandidatesLocked (mod_waiter w (\<lambda>r. r\<lparr>sw_settled := True\<rparr>) s) = Some b"
    "releaseKeysLocked w b = Some c" "t = wakeNext w c"
    by (auto simp: sequencer_release_def Let_def split: if_splits bind_splits)
  have add: "sq_candidateGeneration (addFront k s) = sq_candidateGeneration s" for k s
    by (simp add: addFront_def addCandidateLocked_def mod_waiter_def Let_def split: list.split)
  have fronts: "sq_candidateGeneration (fold addFront ks s) = sq_candidateGeneration s" for ks s
    by (induction ks arbitrary: s) (simp_all add: add)
  have "sq_candidateGeneration (fold grantIfEligible ws s) = sq_candidateGeneration s" for ws s
    by (induction ws arbitrary: s) (simp_all add: grantIfEligible_def grant_fields)
  then have "sq_candidateGeneration t = sq_candidateGeneration c"
    by (simp add: op(3) wakeNext_def grantCandidatesLocked_def addFrontCandidatesLocked_def fronts)
  also have "\<dots> = sq_candidateGeneration b"
    using op(2) by (auto simp: releaseKeysLocked_def mod_waiter_def releaseEach_state split: bind_splits)
  also have "\<dots> = sq_candidateGeneration s + 1"
    using op(1) by (auto simp: beginCandidatesLocked_def mod_waiter_def Let_def split: if_splits)
  finally show ?thesis .
qed

text \<open>Enough room in every counter for n settlements.\<close>

definition room :: "nat \<Rightarrow> mutationSequencer \<Rightarrow> bool" where
  "room n s \<longleftrightarrow> unat (sq_candidateGeneration s) + n < 2 ^ 64 \<and>
     (\<forall>k v. sq_versions s k = Some v \<longrightarrow> unat (dv_value v) + n < 2 ^ 64)"

lemma u64_succ:
  assumes "unat (x :: u64) + Suc n < 2 ^ 64"
  shows "x + 1 \<noteq> 0" "unat (x + 1) + n < 2 ^ 64"
proof -
  have "unat (x + 1) = unat x + 1" using assms by (simp add: unat_word_ariths(1))
  then show "x + 1 \<noteq> 0" "unat (x + 1) + n < 2 ^ 64" using assms by auto
qed

lemma settle_room:
  assumes "seq_inv s" "wgranted s w" "room (Suc n) s"
  shows "\<exists>t. settle s w = Some t \<and> seq_inv t \<and> live t = live s - {w} \<and> room n t"
proof -
  have gen: "unat (sq_candidateGeneration s) + Suc n < 2 ^ 64"
    and ver: "\<forall>k v. sq_versions s k = Some v \<longrightarrow> unat (dv_value v) + Suc n < 2 ^ 64"
    using assms(3) unfolding room_def by blast+
  have "\<forall>k v. sq_versions s k = Some v \<longrightarrow> dv_value v + 1 \<noteq> 0" using ver u64_succ(1) by blast
  from settle_some [OF assms(1,2) u64_succ(1) [OF gen] this] obtain t where t: "settle s w = Some t" by blast
  have "\<not> wsettled s w" using assms(1,2) by (auto simp: seq_inv_def)
  then have r: "sequencer_release s w = Some t" using t by (simp add: settle_release)
  have "unat (dv_value v) + n < 2 ^ 64" if v: "sq_versions t k = Some v" for k v
  proof -
    have "\<exists>x. sq_versions s k = Some x \<and> (dv_value v = dv_value x \<or> dv_value v = dv_value x + 1)"
      using release_bumped(1) [OF assms(1) r] v by (auto simp: bumped_def split: if_splits)
    then obtain x where x: "sq_versions s k = Some x" "dv_value v = dv_value x \<or> dv_value v = dv_value x + 1" by blast
    then show ?thesis using ver [rule_format, OF x(1)] u64_succ(2) [of "dv_value x" n] by auto
  qed
  then have "room n t" using u64_succ(2) [OF gen] release_generation [OF r] by (simp add: room_def)
  moreover have "live t = live s - {w}" using grants_live [OF release_inv(2) [OF assms(1) r]] .
  ultimately show ?thesis using t release_inv(1) [OF assms(1) r] by blast
qed

lemma live_finite: "seq_inv s \<Longrightarrow> finite (live s)"
proof -
  assume "seq_inv s"
  then have core: "seq_core s" by (simp add: seq_inv_def)
  have "w \<in> {..<sq_fresh s}" if "w \<in> live s" for w
    using that seq_coreD(7) [OF core, of w] by (simp add: live_def)
  then show ?thesis by (meson finite_lessThan finite_subset subsetI)
qed

text \<open>Somebody queued means somebody holds: the first waiter of the queue is only ever blocked by a holder.\<close>

lemma queue_head_eligible:
  assumes "seq_core s" "\<forall>v. \<not> wgranted s v" "sq_waiters s = w # r"
  shows "eligibleLocked s w"
proof -
  have "sq_held s k = None" for k using core_held_None [OF assms(1)] assms(2) by blast
  moreover have "wqueued s w" using seq_coreD(3) [OF assms(1), of w] assms(3) by simp
  ultimately show ?thesis unfolding eligible_iff [OF assms(1)] by (simp add: assms(3))
qed

lemma live_granted:
  assumes "seq_inv s" "live s \<noteq> {}"
  shows "\<exists>w. wgranted s w"
proof (rule ccontr)
  assume none: "\<not> ?thesis"
  have core: "seq_core s" using assms(1) by (simp add: seq_inv_def)
  from assms(2) none have "sq_waiters s \<noteq> []" using seq_coreD(3) [OF core] by (auto simp: live_def)
  then obtain w r where "sq_waiters s = w # r" by (cases "sq_waiters s") auto
  with queue_head_eligible [OF core] none idle_not_eligible [OF assms(1)] show False by blast
qed

text \<open>Settling, again and again, a granted waiter that some scheduler picks.\<close>

fun drain :: "nat \<Rightarrow> (mutationSequencer \<Rightarrow> nat) \<Rightarrow> mutationSequencer \<Rightarrow> mutationSequencer option" where
  "drain 0 pick s = Some s"
| "drain (Suc n) pick s = do { s \<leftarrow> settle s (pick s); drain n pick s }"

lemma drain_all:
  assumes "seq_inv s" "card (live s) = n" "room n s" "\<forall>s. seq_inv s \<longrightarrow> (\<exists>w. wgranted s w) \<longrightarrow> wgranted s (pick s)"
  shows "\<exists>t. drain n pick s = Some t \<and> live t = {}"
  using assms(1-3)
proof (induction n arbitrary: s)
  case 0
  then show ?case using live_finite [of s] by simp
next
  case (Suc n)
  then have "live s \<noteq> {}" by auto
  then have g: "wgranted s (pick s)" using live_granted [OF Suc.prems(1)] assms(4) Suc.prems(1) by blast
  from settle_room [OF Suc.prems(1) g Suc.prems(3)] obtain t where
    t: "settle s (pick s) = Some t" "seq_inv t" "live t = live s - {pick s}" "room n t" by blast
  have "pick s \<in> live s" using g by (simp add: live_def)
  then have "card (live t) = n" using Suc.prems(2) live_finite [OF Suc.prems(1)] by (simp add: t(3))
  with Suc.IH [OF t(2) _ t(4)] t(1) show ?case by simp
qed

end
