(* ===== verification/Mutation_Properties.thy ===== *)
theory Mutation_Properties
  imports Mutation_Reach
begin

text \<open>
  Properties of mutation footprints, the mutation sequencer and the storage sequencer, with witnesses
  on a small run: two conflicting mutations, a third behind them, and a declaration.
\<close>

section \<open>An example run\<close>

text \<open>Two mutations that share one inode, and a declaration that watches it.\<close>

definition exKey :: "byte8 \<Rightarrow> mkey" where
  "exKey b = inodeKey (replicate 16 b)"

lemma exKey_eq [simp]: "exKey a = exKey b \<longleftrightarrow> a = b"
  by (simp add: exKey_def inodeKey_def)

lemma exKey_canonical [simp]: "canonicalKey (exKey a)"
  by (simp add: exKey_def canonical_inodeKey)

lemma exKey_less [simp]: "a < b \<Longrightarrow> exKey a < exKey b"
proof -
  have "replicate 16 x = x # replicate 15 x" for x :: byte8 by (simp add: numeral_eq_Suc)
  then show "a < b \<Longrightarrow> exKey a < exKey b" by (simp add: exKey_def inodeKey_def)
qed

definition exDeps :: "mkey list \<Rightarrow> MutationDependencies" where
  "exDeps ks = \<lparr>keys_of = ks\<rparr>"

lemma exDeps_keys [simp]: "keys_of (exDeps ks) = ks"
  by (simp add: exDeps_def)

lemma exDeps_valid [simp]: "deps_valid (exDeps [exKey 1, exKey 2])" "deps_valid (exDeps [exKey 2, exKey 3])" "deps_valid (exDeps [exKey 2])"
  by (simp_all add: deps_valid_def exDeps_def not_le)

lemmas ex_eval = enqueue_def enqueueFor_def newMutationSequencer_def nextOrdinalLocked_def insertLocked_def insertGlobalLocked_def
  linkClaim_def mod_waiter_def noWaiter_def eligibleLocked_def grantLocked_def removeClaimsLocked_def unqueue_def
  snapshot_def version_at_def Let_def

definition exSnap :: dependencySnapshot where
  "exSnap = \<lparr>ds_versions = [(exKey 2, 0)], ds_once = False\<rparr>"

abbreviation exWaiter :: "mkey list \<Rightarrow> u64 \<Rightarrow> bool \<Rightarrow> waiter" where
  "exWaiter ks o' g \<equiv> \<lparr>sw_keys = ks, sw_ordinal = o', sw_ready = g, sw_queued = \<not> g, sw_candidateGeneration = 0,
     sw_granted = g, sw_readOnly = False, sw_settled = False\<rparr>"

definition exStart :: mutationSequencer where
  "exStart = newMutationSequencer\<lparr>sq_nextOrdinal := 1, sq_held := [exKey 1 \<mapsto> 0, exKey 2 \<mapsto> 0], sq_fresh := 1,
     sq_store := (\<lambda>_. noWaiter)(0 := exWaiter [exKey 1, exKey 2] 1 True)\<rparr>"

definition exWatched :: mutationSequencer where
  "exWatched = exStart\<lparr>sq_versions := [exKey 2 \<mapsto> \<lparr>dv_value = 0, dv_watchers = 1\<rparr>]\<rparr>"

definition exSeq :: mutationSequencer where
  "exSeq = exWatched\<lparr>sq_nextOrdinal := 2, sq_waiters := [1], sq_fresh := 2,
     sq_claims := (\<lambda>_. [])(exKey 2 := [1], exKey 3 := [1]),
     sq_store := (sq_store exWatched)(1 := exWaiter [exKey 2, exKey 3] 2 False)\<rparr>"

lemma exStart_eq: "enqueue newMutationSequencer (exDeps [exKey 1, exKey 2]) = Some (0, exStart)"
  by (simp add: ex_eval exStart_def fun_eq_iff)

lemma exWatched_eq: "snapshot exStart (exDeps [exKey 2]) = Some (exSnap, exWatched)"
  by (simp add: exStart_def exWatched_def exSnap_def snapshot_def version_at_def newMutationSequencer_def Let_def)

lemma exSeq_eq: "enqueue exWatched (exDeps [exKey 2, exKey 3]) = Some (1, exSeq)"
  by (simp add: ex_eval exSeq_def exStart_def exWatched_def fun_eq_iff)


definition exThree :: mutationSequencer where
  "exThree = exSeq\<lparr>sq_nextOrdinal := 3, sq_waiters := [1, 2], sq_fresh := 3,
     sq_claims := (\<lambda>_. [])(exKey 2 := [1], exKey 3 := [1, 2]),
     sq_store := (sq_store exSeq)(2 := exWaiter [exKey 3] 3 False)\<rparr>"

definition exAfter :: mutationSequencer where
  "exAfter = exThree\<lparr>sq_held := [exKey 2 \<mapsto> 1, exKey 3 \<mapsto> 1], sq_waiters := [2],
     sq_claims := (\<lambda>_. [])(exKey 3 := [2]), sq_candidateGeneration := 1,
     sq_versions := [exKey 2 \<mapsto> \<lparr>dv_value = 1, dv_watchers = 1\<rparr>],
     sq_store := (sq_store exThree)
       (0 := (exWaiter [exKey 1, exKey 2] 1 True)\<lparr>sw_granted := False, sw_settled := True\<rparr>,
        1 := (exWaiter [exKey 2, exKey 3] 2 True)\<lparr>sw_candidateGeneration := 1\<rparr>)\<rparr>"

lemma exDeps_valid3 [simp]: "deps_valid (exDeps [exKey 3])"
  by (simp add: deps_valid_def exDeps_def)

lemma exThree_eq: "enqueue exSeq (exDeps [exKey 3]) = Some (2, exThree)"
  by (simp add: ex_eval exSeq_def exThree_def exStart_def exWatched_def fun_eq_iff)

lemma exAfter_eq: "sequencer_release exThree 0 = Some exAfter"
  by (simp add: sequencer_release_def beginCandidatesLocked_def releaseKeysLocked_def wakeNext_def addFrontCandidatesLocked_def addFront_def
      addCandidateLocked_def grantCandidatesLocked_def grantIfEligible_def
      ex_eval exAfter_def exSeq_def exThree_def exStart_def exWatched_def fun_eq_iff)

lemma ex_reach:
  "seq_reach exStart []" "seq_reach exWatched [(exSnap, {})]" "seq_reach exSeq [(exSnap, {})]" "seq_reach exThree [(exSnap, {})]"
  "seq_reach exAfter [(exSnap, {exKey 1, exKey 2})]"
proof -
  show 1: "seq_reach exStart []" by (rule reach_enqueue [OF reach_new exStart_eq [unfolded enqueue_def]])
  show 2: "seq_reach exWatched [(exSnap, {})]" by (rule reach_snapshot [OF 1 _ exWatched_eq]) simp
  show 3: "seq_reach exSeq [(exSnap, {})]" by (rule reach_enqueue [OF 2 exSeq_eq [unfolded enqueue_def]])
  show 4: "seq_reach exThree [(exSnap, {})]" by (rule reach_enqueue [OF 3 exThree_eq [unfolded enqueue_def]])
  have "published exThree 0 [(exSnap, {})] = [(exSnap, {exKey 1, exKey 2})]"
    by (simp add: published_def exThree_def exSeq_def exWatched_def exStart_def)
  with reach_release [OF 4 exAfter_eq] show "seq_reach exAfter [(exSnap, {exKey 1, exKey 2})]" by simp
qed

lemma exSeq_facts:
  "wgranted exSeq 0" "wqueued exSeq 1" "\<not> wgranted exSeq 1" "wkeys exSeq 0 = [exKey 1, exKey 2]" "wkeys exSeq 1 = [exKey 2, exKey 3]"
  "\<not> wgranted exThree 1" "wgranted exAfter 1" "wqueued exAfter 2" "wkeys exAfter 1 = [exKey 2, exKey 3]" "wkeys exAfter 2 = [exKey 3]"
  "ordinal_of exAfter 1 = 2" "ordinal_of exAfter 2 = 3"
  by (simp_all add: exAfter_def exThree_def exSeq_def exWatched_def exStart_def)

section \<open>Footprints\<close>

text \<open> C28. The canonical dependency set only depends on which keys the parts name: order and
  repetition do not matter, so two mutations with the same footprint always ask for the same list of keys.\<close>

theorem dependencies_canonical:
  assumes "set ks = set ks'"
  shows "newMutationDependencies ks = newMutationDependencies ks'"
proof -
  let ?a = "keys_of (newMutationDependencies ks)" and ?b = "keys_of (newMutationDependencies ks')"
  have "sorted ?a" "distinct ?a" "sorted ?b" "distinct ?b"
    using newDependencies_keys(1) strict_sorted_iff by blast+
  moreover have "set ?a = set ?b" using assms by (simp add: newDependencies_keys(2))
  ultimately have "?a = ?b" by (intro sorted_distinct_set_unique)
  then show ?thesis by simp
qed

theorem dependencies_canonical_witness:
  "set [exKey 2, exKey 1, exKey 2] = set [exKey 1, exKey 2] \<and>
   newMutationDependencies [exKey 2, exKey 1, exKey 2] = newMutationDependencies [exKey 1, exKey 2]"
  by (intro conjI dependencies_canonical) auto

text \<open> C26. Accepting a footprint is exactly well-formedness plus containment: with a canonical set the
  binary searches find every key of every target, the parent and the related objects of a
  namespace target included, if and only if the set has them.\<close>

theorem validation_exact:
  assumes "deps_valid d"
  shows "ValidateTargets d ts = None \<longleftrightarrow>
    validateMutationTargets ts = None \<and> (\<forall>t \<in> set ts. set (target_keys t) \<subseteq> set (keys_of d))"
proof -
  have "sorted_wrt (<) (keys_of d)" using assms by (simp add: deps_valid_def ascending_sorted)
  from deps_covers_iff [OF this] show ?thesis using assms by (auto simp: ValidateTargets_def)
qed

definition exTarget :: MutationTarget where
  "exTarget = \<lparr>mt_Scope = MutationData, mt_Identity = replicate 16 2, mt_ParentIdentity = zeroIdentity, mt_Name = [], mt_Size = 5,
     mt_PostIdentity = zeroIdentity, mt_KernelIno = 7, mt_ParentKernelIno = 0, mt_Device = 1, mt_RelatedIdentities = [],
     mt_ExactPostState = None\<rparr>"

lemma exTarget_facts: "validateMutationTargets [exTarget] = None" "target_keys exTarget = [exKey 2]" "target_sized exTarget"
  by (simp_all add: validateMutationTargets_def exTarget_def validInodeTarget_def validPostState_def zeroIdentity_def target_keys_def
      target_key_def exKey_def target_sized_def)

theorem validation_exact_witness:
  "deps_valid (exDeps [exKey 2]) \<and> ValidateTargets (exDeps [exKey 2]) [exTarget] = None"
  using validation_exact [of "exDeps [exKey 2]" "[exTarget]"] exTarget_facts by simp

text \<open> C27. The set derived from well-formed targets validates those targets: deriving a footprint and checking
  it against what it was derived from always succeeds.\<close>

theorem derived_dependencies_validate:
  assumes "validateMutationTargets ts = None" "\<forall>t \<in> set ts. target_sized t"
  shows "ValidateTargets (mutationDependenciesForTargets ts) ts = None"
proof -
  let ?ks = "concat (map target_keys ts)"
  have named: "mt_Scope t = MutationNamespace \<longrightarrow> mt_Name t \<noteq> []" if "t \<in> set ts" for t
    using assms(1) that by (force simp: validateMutationTargets_def list_all_iff validNamespaceTarget_def legalMutationName_def split: if_splits)
  have "canonicalKey k" if "k \<in> set ?ks" for k
    using that assms(2) named target_keys_canonical by fastforce
  moreover have "?ks \<noteq> []" using assms(1) by (cases ts) (auto simp: validateMutationTargets_def target_keys_def)
  ultimately have v: "deps_valid (newMutationDependencies ?ks)" "set (keys_of (newMutationDependencies ?ks)) = set ?ks"
    using newDependencies_valid [of ?ks] by blast+
  from deps_covers_iff [of "newMutationDependencies ?ks"] newDependencies_keys(1) [of ?ks] v(2)
  have "deps_covers (newMutationDependencies ?ks) ts" by auto
  with v(1) assms(1) show ?thesis by (simp add: ValidateTargets_def forTargets_keys)
qed

theorem derived_dependencies_validate_witness:
  "validateMutationTargets [exTarget] = None \<and> ValidateTargets (mutationDependenciesForTargets [exTarget]) [exTarget] = None"
  using derived_dependencies_validate [of "[exTarget]"] exTarget_facts by simp

section \<open>The sequencer\<close>

text \<open> C19. In every reachable state a key is held by exactly the granted waiter whose set contains it, two granted
  waiters have disjoint sets, and a queued waiter holds nothing: a set is owned whole or not at all.\<close>

theorem sequencer_exclusion:
  assumes "seq_reach s S"
  shows "(\<forall>k w. sq_held s k = Some w \<longleftrightarrow> wgranted s w \<and> k \<in> set (wkeys s w)) \<and>
    (\<forall>v w. wgranted s v \<longrightarrow> wgranted s w \<longrightarrow> v \<noteq> w \<longrightarrow> set (wkeys s v) \<inter> set (wkeys s w) = {}) \<and>
    (\<forall>w. wqueued s w \<longrightarrow> (\<forall>k. sq_held s k \<noteq> Some w))"
proof -
  have core: "seq_core s" using reach_inv [OF assms] by (simp add: seq_inv_def)
  note held = core_heldD [OF core]
  have "k \<notin> set (wkeys s w)" if "wgranted s v" "wgranted s w" "v \<noteq> w" "k \<in> set (wkeys s v)" for v w k
    using held [of k v] held [of k w] that by auto
  then show ?thesis using held seq_coreD(4) [OF core] by blast
qed

theorem sequencer_exclusion_witness:
  "seq_reach exSeq [(exSnap, {})] \<and> sq_held exSeq (exKey 2) = Some 0 \<and> sq_held exSeq (exKey 3) \<noteq> Some 1"
  using sequencer_exclusion [OF ex_reach(3)] ex_reach(3) exSeq_facts by auto

text \<open> C21. Grants follow arrival order on every key: when an operation gives a waiter a key it did not hold, by granting it, by
  expanding its turn, or by requeueing it under new keys, or when it grants the waiter that it requeues again under a key it
  had before, then no waiter that stays queued for that key has an older ordinal.\<close>

theorem sequencer_fifo:
  assumes "seq_reach s S" "seq_step s t" "sq_held s k \<noteq> Some w \<or> (\<exists>deps. requeue s w deps = Some t)"
    "wgranted t w" "wqueued t v" "k \<in> set (wkeys t w)" "k \<in> set (wkeys t v)"
  shows "ordinal_of t w \<le> ordinal_of t v"
  using step_fifo [OF reach_inv [OF assms(1)] assms(2-7)] .

text \<open>Requeueing the turn of waiter 0 for key 2 alone grants it again, before the younger waiter 1.\<close>

definition exBack :: mutationSequencer where
  "exBack = exSeq\<lparr>sq_held := [exKey 2 \<mapsto> 0], sq_candidateGeneration := 1,
     sq_versions := [exKey 2 \<mapsto> \<lparr>dv_value = 1, dv_watchers = 1\<rparr>],
     sq_store := (sq_store exSeq)
       (0 := (exWaiter [exKey 2] 1 True)\<lparr>sw_candidateGeneration := 1\<rparr>,
        1 := (exWaiter [exKey 2, exKey 3] 2 False)\<lparr>sw_candidateGeneration := 1\<rparr>)\<rparr>"

lemma exBack_eq: "requeue exSeq 0 (exDeps [exKey 2]) = Some exBack"
  by (simp add: requeue_def beginCandidatesLocked_def releaseKeysLocked_def addFrontCandidatesLocked_def addFront_def
      addCandidateLocked_def grantCandidatesLocked_def grantIfEligible_def
      ex_eval exBack_def exSeq_def exStart_def exWatched_def fun_eq_iff)

lemma exBack_facts:
  "wgranted exBack 0" "wqueued exBack 1" "wkeys exBack 0 = [exKey 2]" "wkeys exBack 1 = [exKey 2, exKey 3]"
  by (simp_all add: exBack_def)

theorem sequencer_fifo_witness:
  "seq_reach exThree [(exSnap, {})] \<and> sequencer_release exThree 0 = Some exAfter \<and> wgranted exAfter 1 \<and> wqueued exAfter 2 \<and>
   ordinal_of exAfter 1 \<le> ordinal_of exAfter 2 \<and>
   requeue exSeq 0 (exDeps [exKey 2]) = Some exBack \<and> wgranted exBack 0 \<and> wqueued exBack 1 \<and> ordinal_of exBack 0 \<le> ordinal_of exBack 1"
proof -
  have "seq_step exThree exAfter" "seq_step exSeq exBack"
    using exAfter_eq exBack_eq unfolding seq_step_def by blast+
  moreover have "sq_held exThree (exKey 3) \<noteq> Some 1"
    by (simp add: exThree_def exSeq_def exWatched_def exStart_def)
  ultimately show ?thesis
    using sequencer_fifo [OF ex_reach(4), of exAfter "exKey 3" 1 2] sequencer_fifo [OF ex_reach(3), of exBack "exKey 2" 0 1]
      ex_reach(4) exAfter_eq exBack_eq exSeq_facts exBack_facts by auto
qed

text \<open> C20. Nobody waits for ever: whatever granted waiter is settled next, settling as many waiters as there are live
  ones grants and finishes all of them, as long as no 64-bit counter runs out on the way.\<close>

theorem sequencer_drains:
  assumes "seq_reach s S" "room (card (live s)) s" "\<forall>s. seq_inv s \<longrightarrow> (\<exists>w. wgranted s w) \<longrightarrow> wgranted s (pick s)"
  shows "\<exists>t. drain (card (live s)) pick s = Some t \<and> live t = {}"
  using drain_all [OF reach_inv [OF assms(1)] refl assms(2,3)] .

text \<open>The waiter that was created first among the granted ones.\<close>

definition exPick :: "mutationSequencer \<Rightarrow> nat" where
  "exPick s = hd (filter (\<lambda>w. wgranted s w) [0..<sq_fresh s])"

lemma exPick_granted: "seq_inv s \<Longrightarrow> \<exists>w. wgranted s w \<Longrightarrow> wgranted s (exPick s)"
proof -
  assume "seq_inv s" and "\<exists>w. wgranted s w"
  then obtain w where w: "wgranted s w" by blast
  with \<open>seq_inv s\<close> have "w < sq_fresh s" using seq_coreD(7) [of s w] by (simp add: seq_inv_def)
  with w have "w \<in> set (filter (\<lambda>w. wgranted s w) [0..<sq_fresh s])" by simp
  then have "exPick s \<in> set (filter (\<lambda>w. wgranted s w) [0..<sq_fresh s])"
    unfolding exPick_def by (metis hd_in_set list.distinct(1) list.set_cases)
  then show ?thesis by simp
qed

lemma exLive: "live exThree = {0, 1, 2}"
  by (auto simp: live_def exThree_def exSeq_def exWatched_def exStart_def noWaiter_def newMutationSequencer_def)

theorem sequencer_drains_witness:
  "seq_reach exThree [(exSnap, {})] \<and> live exThree = {0, 1, 2} \<and>
   (\<exists>t. drain 3 exPick exThree = Some t \<and> live t = {})"
proof -
  have "room 3 exThree"
    by (simp add: room_def exThree_def exSeq_def exWatched_def exStart_def newMutationSequencer_def)
  moreover have c: "card (live exThree) = 3" by (simp add: exLive)
  ultimately have "\<exists>t. drain 3 exPick exThree = Some t \<and> live t = {}"
    using sequencer_drains [OF ex_reach(4), of exPick, unfolded c] exPick_granted by blast
  then show ?thesis using ex_reach(4) exLive by blast
qed

text \<open> C22. A declaration answers exactly whether a binding it watches was published: consuming a live declaration
  never fails, and reports an unchanged footprint if and only if no turn other than a read gave up one of
  its keys since it was taken.\<close>

theorem declaration_exact:
  assumes "seq_reach s S" "(sn, D) \<in> set S"
  shows "\<exists>t. sn_unchanged s sn = Some (D \<inter> fst ` set (ds_versions sn) = {}, sn\<lparr>ds_once := True\<rparr>, t)"
proof -
  have dec: "declared s S" by (rule reach_declared [OF assms(1)])
  obtain t where t: "snapshot_release s sn = Some (sn\<lparr>ds_once := True\<rparr>, t)"
    by (rule declared_forget [OF dec assms(2)]) (rule that)
  have "tracked s sn D" using dec assms(2) unfolding declared_def by blast
  then have "dv_value (version_at s k) = v \<longleftrightarrow> k \<notin> D" if "(k, v) \<in> set (ds_versions sn)" for k v
    using that unfolding tracked_def by blast
  then have "list_all (\<lambda>(key, v). dv_value (version_at s key) = v) (ds_versions sn) \<longleftrightarrow> D \<inter> fst ` set (ds_versions sn) = {}"
    unfolding list_all_iff by force
  with t show ?thesis by (simp add: sn_unchanged_def)
qed

theorem declaration_exact_witness:
  "(\<exists>t. sn_unchanged exThree exSnap = Some (True, exSnap\<lparr>ds_once := True\<rparr>, t)) \<and>
   (\<exists>t. sn_unchanged exAfter exSnap = Some (False, exSnap\<lparr>ds_once := True\<rparr>, t))"
  using declaration_exact [OF ex_reach(4), of exSnap "{}"] declaration_exact [OF ex_reach(5), of exSnap "{exKey 1, exKey 2}"]
  by (simp add: exSnap_def)

text \<open> C24. Expanding a held set without waiting is all or nothing and overtakes nobody: on success the turn holds
  exactly the wanted keys, which include its old ones, none of which another turn held and for the new ones of which
  no older waiter is queued; on refusal nothing changes.\<close>

theorem expansion_exact:
  assumes "seq_reach s S" "TryExpand s w deps = (b, t)"
  shows "if b then
      (\<forall>k. sq_held t k = (if k \<in> set (keys_of deps) then Some w else sq_held s k)) \<and>
      set (wkeys s w) \<subseteq> set (keys_of deps) \<and> (\<forall>k \<in> set (keys_of deps). sq_held s k = None \<or> sq_held s k = Some w) \<and>
      (\<forall>k v. k \<in> set (keys_of deps) - set (wkeys s w) \<longrightarrow> wqueued s v \<longrightarrow> k \<in> set (wkeys s v) \<longrightarrow> ordinal_of s w \<le> ordinal_of s v)
    else t = s"
proof (cases b)
  case True
  then have ok: "TryExpand s w deps = (True, t)" using assms(2) by simp
  note ex = TryExpand_done [OF ok] and scan = expand_scan_ok [OF TryExpand_done(4) [OF ok]]
  have core: "seq_core s" using reach_inv [OF assms(1)] by (simp add: seq_inv_def)
  have "ordinal_of s w \<le> ordinal_of s v"
    if "k \<in> set (keys_of deps) - set (wkeys s w)" "wqueued s v" "k \<in> set (wkeys s v)" for k v
    using TryExpand_oldest [OF core ok] that by blast
  then show ?thesis using True scan by (simp add: ex(5))
next
  case False
  with TryExpand_refused [of s w deps] assms(2) show ?thesis by simp
qed

theorem expansion_exact_witness:
  "seq_reach exStart [] \<and> (\<exists>t. TryExpand exStart 0 (exDeps [exKey 1, exKey 2, exKey 3]) = (True, t) \<and> sq_held t (exKey 3) = Some 0) \<and>
   TryExpand exThree 1 (exDeps [exKey 2, exKey 3]) = (False, exThree)"
proof -
  have v: "deps_valid (exDeps [exKey 1, exKey 2, exKey 3])" by (simp add: deps_valid_def exDeps_def not_le)
  have n: "\<not> exKey 1 < exKey 1" "\<not> exKey 2 < exKey 2" by simp_all
  obtain t where t: "TryExpand exStart 0 (exDeps [exKey 1, exKey 2, exKey 3]) = (True, t)"
    by (simp add: TryExpand_def v exStart_def newMutationSequencer_def)
  have f: "TryExpand exThree 1 (exDeps [exKey 2, exKey 3]) = (False, snd (TryExpand exThree 1 (exDeps [exKey 2, exKey 3])))"
    by (simp add: TryExpand_def exThree_def exSeq_def)
  show ?thesis
    using expansion_exact [OF ex_reach(1) t] expansion_exact [OF ex_reach(4) f] t f ex_reach(1) by simp
qed

text \<open> C25. Cancelling a wait is safe in every race with the grant: the waiter is withdrawn, holds no key whether or not the
  grant had won, and everybody else stays as live as before.\<close>

theorem cancel_withdraws:
  assumes "seq_reach s S" "acquire_wake s w ContextDone = Some (r, t)"
  shows "r = None \<and> live t = live s - {w} \<and> (\<forall>k. sq_held t k \<noteq> Some w)"
proof -
  have inv: "seq_inv s" by (rule reach_inv [OF assms(1)])
  have a: "r = None" "abandon s w = Some t" using assms(2) by (auto simp: acquire_wake_def split: bind_splits)
  note ab = abandon_inv [OF inv a(2)]
  have "live t = live s - {w}"
  proof (cases "wsettled s w \<and> t = s")
    case True
    then have "w \<notin> live s" using inv seq_coreD(4) [of s w] by (auto simp: seq_inv_def live_def)
    with True show ?thesis by simp
  next
    case False
    with ab(2) have "grants s (live s - {w}) t" by blast
    then show ?thesis by (rule grants_live)
  qed
  then have "\<not> wgranted t w" by (auto simp: live_def)
  moreover have "seq_core t" using ab(1) by (simp add: seq_inv_def)
  ultimately show ?thesis using core_heldD \<open>live t = live s - {w}\<close> a(1) by blast
qed

theorem cancel_withdraws_witness:
  "\<exists>t. acquire_wake exThree 0 ContextDone = Some (None, t) \<and> live t = {1, 2} \<and> sq_held t (exKey 2) \<noteq> Some 0"
proof -
  have "abandon exThree 0 = sequencer_release exThree 0"
    using exSeq_facts by (simp add: abandon_def sequencer_release_def Let_def beginCandidatesLocked_def mod_waiter_def exThree_def exSeq_def exWatched_def exStart_def)
  then have a: "acquire_wake exThree 0 ContextDone = Some (None, exAfter)" by (simp add: acquire_wake_def exAfter_eq)
  from cancel_withdraws [OF ex_reach(4) a] show ?thesis using a exLive by auto
qed

section \<open>Isolation of accepted mutations\<close>

text \<open> C23. Two mutations that hold their turns at the same time never publish the same coordinate: when each validated
  its prepared targets against the set it holds and each completion was accepted against those prepared targets, no completed
  target of the one names the inode or the directory entry of a completed target of the other.\<close>

theorem mutation_isolation:
  assumes "seq_reach s S" "wgranted s v" "wgranted s w" "v \<noteq> w"
    "ValidateTargets \<lparr>keys_of = wkeys s v\<rparr> pv = None" "ValidateTargets \<lparr>keys_of = wkeys s w\<rparr> pw = None"
    "ValidateMutationCompletion cv pv = None" "ValidateMutationCompletion cw pw = None"
    "t \<in> set cv" "u \<in> set cw"
  shows "\<not> (mt_Scope t \<noteq> MutationNamespace \<and> mt_Scope u \<noteq> MutationNamespace \<and> mt_Identity t = mt_Identity u) \<and>
    \<not> (mt_Scope t = MutationNamespace \<and> mt_Scope u = MutationNamespace \<and>
       mt_ParentIdentity t = mt_ParentIdentity u \<and> mt_Name t = mt_Name u)"
proof -
  have core: "seq_core s" using reach_inv [OF assms(1)] by (simp add: seq_inv_def)
  have inside: "target_key x \<in> set ks"
    if "ValidateTargets \<lparr>keys_of = ks\<rparr> p = None" "ValidateMutationCompletion c p = None" "x \<in> set c" for x ks p c
  proof -
    have sorted: "sorted_wrt (<) (keys_of \<lparr>keys_of = ks\<rparr>)"
      using that(1) by (auto simp: ValidateTargets_def deps_valid_def ascending_sorted split: if_splits)
    have "deps_covers \<lparr>keys_of = ks\<rparr> p" using that(1) by (auto simp: ValidateTargets_def split: if_splits)
    then have "\<forall>q \<in> set p. set (target_keys q) \<subseteq> set ks" using deps_covers_iff [OF sorted] by simp
    then have "\<forall>q \<in> set p. target_key q \<in> set ks" by (auto simp: target_keys_def)
    moreover have "mutationTargetsCovered c p"
      using that(2) by (auto simp: ValidateMutationCompletion_def Let_def split: if_splits)
    then have "target_key x \<in> target_key ` set p"
      using that(3) by (simp add: mutationTargetsCovered_def mutationTargetKeySet_def list_all_iff)
    ultimately show ?thesis by auto
  qed
  have "target_key t \<in> set (wkeys s v)" "target_key u \<in> set (wkeys s w)"
    using inside assms(5-10) by blast+
  moreover have "set (wkeys s v) \<inter> set (wkeys s w) = {}"
    using core_heldD [OF core] assms(2-4) by (metis disjoint_iff option.inject)
  ultimately have "target_key t \<noteq> target_key u" by auto
  then show ?thesis by (auto simp: target_key_def)
qed

definition exPair :: mutationSequencer where
  "exPair = exStart\<lparr>sq_nextOrdinal := 2, sq_fresh := 2, sq_held := [exKey 1 \<mapsto> 0, exKey 2 \<mapsto> 0, exKey 3 \<mapsto> 1],
     sq_store := (sq_store exStart)(1 := exWaiter [exKey 3] 2 True)\<rparr>"

lemma exPair_reach: "seq_reach exPair []"
proof -
  have "enqueue exStart (exDeps [exKey 3]) = Some (1, exPair)"
    by (simp add: ex_eval exPair_def exStart_def fun_eq_iff)
  then show ?thesis unfolding enqueue_def by (rule reach_enqueue [OF ex_reach(1)])
qed

definition exAttr :: MutationAttr where
  "exAttr = \<lparr>ma_Kind = 1, ma_Inode = 7, ma_Size = 5, ma_Blocks = 1, ma_Mode = 420, ma_UID = 0, ma_GID = 0, ma_Nlink = 1, ma_ATimeNS = 0,
     ma_MTimeNS = 0, ma_CTimeNS = 0, ma_BirthTimeNS = 0, ma_Rdev = 0, ma_Blksize = 0, ma_Flags = 0\<rparr>"

definition exDone :: "byte8 \<Rightarrow> MutationTarget" where
  "exDone b = exTarget\<lparr>mt_Identity := replicate 16 b, mt_ExactPostState :=
     Some \<lparr>mp_StableIdentity = replicate 16 b, mp_ObjectVersion = 9, mp_Attr = exAttr, mp_Roles = 1\<rparr>\<rparr>"

lemma exDone_facts:
  assumes "b \<noteq> 0"
  shows "ValidateMutationCompletion [exDone b] [exDone b] = None" "validateMutationTargets [exDone b] = None" "target_keys (exDone b) = [exKey b]"
  using assms
  by (simp_all add: ValidateMutationCompletion_def validateMutationTargets_def exDone_def exTarget_def exAttr_def validInodeTarget_def
      validPostState_def zeroIdentity_def target_keys_def target_key_def exKey_def mutationTargetsCovered_def mutationTargetKeySet_def Let_def)

theorem mutation_isolation_witness:
  "ValidateMutationCompletion [exDone 2] [exDone 2] = None \<and> ValidateMutationCompletion [exDone 3] [exDone 3] = None \<and>
   mt_Identity (exDone 2) \<noteq> mt_Identity (exDone 3)"
proof -
  have v: "ValidateTargets \<lparr>keys_of = [exKey 1, exKey 2]\<rparr> [exDone 2] = None" "ValidateTargets \<lparr>keys_of = [exKey 3]\<rparr> [exDone 3] = None"
    using exDone_facts [of 2] exDone_facts [of 3] deps_covers_iff [of "\<lparr>keys_of = [exKey 1, exKey 2]\<rparr>" "[exDone 2]"]
      deps_covers_iff [of "\<lparr>keys_of = [exKey 3]\<rparr>" "[exDone 3]"]
    by (simp_all add: ValidateTargets_def deps_valid_def not_le)
  have g: "wgranted exPair 0" "wgranted exPair 1" "wkeys exPair 0 = [exKey 1, exKey 2]" "wkeys exPair 1 = [exKey 3]"
    by (simp_all add: exPair_def exStart_def)
  from mutation_isolation [OF exPair_reach g(1,2), of "[exDone 2]" "[exDone 3]" "[exDone 2]" "[exDone 3]" "exDone 2" "exDone 3"]
  show ?thesis using v g exDone_facts [of 2] exDone_facts [of 3] by (simp add: exDone_def exTarget_def)
qed

end
