(* ===== verification/Local_Routes.thy ===== *)
theory Local_Routes
  imports Prelude "HOL-Library.List_Lexorder" "HOL-Library.Char_ord" "HOL-Library.Sublist"
begin

text \<open>
  The directory-pattern language of machine-local routes, \<^verbatim>\<open>src/vcs/internal/localroutes/localroutes.go\<close>: parsing
  and compilation of rules, the canonical form, matching of paths and the key that summarises what a
  rule set can still do below a path.

  A Go string is a list of bytes, here a \<^typ>\<open>string\<close>; its order is bytewise. The first section has the functions
  of the standard library that the package uses. A nil pointer or slice is \<^term>\<open>None\<close>. A loop over the
  positions of a path is recursion over its components, with the components read so far. The
  digest of the canonical form is a parameter.
\<close>

section \<open>Strings\<close>

fun split_on :: "char \<Rightarrow> string \<Rightarrow> string list" where
  "split_on c [] = [[]]"
| "split_on c (x # xs) =
     (if x = c then [] # split_on c xs
      else (case split_on c xs of y # ys \<Rightarrow> (x # y) # ys | [] \<Rightarrow> [[x]]))"

fun join :: "string \<Rightarrow> string list \<Rightarrow> string" where
  "join s [] = []"
| "join s [x] = x"
| "join s (x # y # ys) = x @ s @ join s (y # ys)"

definition trimSuffix :: "string \<Rightarrow> string \<Rightarrow> string" where
  "trimSuffix s suf = (if suffix suf s then take (length s - length suf) s else s)"

definition containsAny :: "string \<Rightarrow> string \<Rightarrow> bool" where
  "containsAny s chars = list_ex (\<lambda>c. c \<in> set chars) s"

text \<open>The encodings of the characters \<open>unicode.IsSpace\<close> accepts.\<close>

definition space_codes :: "string list" where
  "space_codes =
     [[CHR 0x09], [CHR 0x0A], [CHR 0x0B], [CHR 0x0C], [CHR 0x0D], [CHR 0x20], [CHR 0xC2, CHR 0x85], [CHR 0xC2, CHR 0xA0],
      [CHR 0xE1, CHR 0x9A, CHR 0x80]] @
     map (\<lambda>c. [CHR 0xE2, CHR 0x80, c])
       [CHR 0x80, CHR 0x81, CHR 0x82, CHR 0x83, CHR 0x84, CHR 0x85, CHR 0x86, CHR 0x87, CHR 0x88, CHR 0x89, CHR 0x8A,
        CHR 0xA8, CHR 0xA9, CHR 0xAF] @
     [[CHR 0xE2, CHR 0x81, CHR 0x9F], [CHR 0xE3, CHR 0x80, CHR 0x80]]"

function trimCodes :: "string list \<Rightarrow> string \<Rightarrow> string" where
  "trimCodes es s =
     (case find (\<lambda>e. e \<noteq> [] \<and> prefix e s) es of None \<Rightarrow> s | Some e \<Rightarrow> trimCodes es (drop (length e) s))"
  by auto
termination
  by (relation "measure (\<lambda>(es, s). length s)") (auto simp: find_Some_iff prefix_def)

declare trimCodes.simps [simp del]

definition trimSpace :: "string \<Rightarrow> string" where
  "trimSpace s = rev (trimCodes (map rev space_codes) (rev (trimCodes space_codes s)))"

definition continuation :: "nat \<Rightarrow> bool" where
  "continuation b \<longleftrightarrow> 0x80 \<le> b \<and> b \<le> 0xBF"

fun validUTF8 :: "nat list \<Rightarrow> bool" where
  "validUTF8 [] = True"
| "validUTF8 (a # s) =
     (if a < 0x80 then validUTF8 s
      else if 0xC2 \<le> a \<and> a \<le> 0xDF then
        (case s of b # s \<Rightarrow> continuation b \<and> validUTF8 s | _ \<Rightarrow> False)
      else if 0xE0 \<le> a \<and> a \<le> 0xEF then
        (case s of b # c # s \<Rightarrow>
           (if a = 0xE0 then 0xA0 \<le> b \<and> b \<le> 0xBF else if a = 0xED then 0x80 \<le> b \<and> b \<le> 0x9F else continuation b) \<and>
           continuation c \<and> validUTF8 s
         | _ \<Rightarrow> False)
      else if 0xF0 \<le> a \<and> a \<le> 0xF4 then
        (case s of b # c # d # s \<Rightarrow>
           (if a = 0xF0 then 0x90 \<le> b \<and> b \<le> 0xBF else if a = 0xF4 then 0x80 \<le> b \<and> b \<le> 0x8F else continuation b) \<and>
           continuation c \<and> continuation d \<and> validUTF8 s
         | _ \<Rightarrow> False)
      else False)"

section \<open>Matching\<close>

text \<open>
  Both matchers run the same greedy scan with one backtrack point: over the bytes of a name and
  over the components of a path. The remaining pattern and input stand for the two indices; the backtrack
  point is the pattern behind the last star with the input it was last tried at.
\<close>

function greedy :: "('p \<Rightarrow> bool) \<Rightarrow> ('p \<Rightarrow> 'c \<Rightarrow> bool) \<Rightarrow> 'p list \<Rightarrow> 'c list \<Rightarrow> ('p list \<times> 'c list) option \<Rightarrow> bool" where
  "greedy isStar fits p c back =
     (case c of
        [] \<Rightarrow> dropWhile isStar p = []
      | x # c' \<Rightarrow>
          if p \<noteq> [] \<and> isStar (hd p) then greedy isStar fits (tl p) c (Some (tl p, c))
          else if p \<noteq> [] \<and> fits (hd p) x then greedy isStar fits (tl p) c' back
          else
            (case back of
               None \<Rightarrow> False
             | Some (bp, bc) \<Rightarrow>
                 (case bc of
                    [] \<Rightarrow> dropWhile isStar bp = []
                  | _ # bc' \<Rightarrow> greedy isStar fits bp bc' (Some (bp, bc')))))"
  by pat_completeness auto
termination
proof (relation "measures [\<lambda>(isStar, fits, p, c, back). case back of None \<Rightarrow> length p | Some (bp, bc) \<Rightarrow> max (length p) (length bp),
    \<lambda>(isStar, fits, p, c, back). case back of None \<Rightarrow> 0 | Some (bp, bc) \<Rightarrow> length bc,
    \<lambda>(isStar, fits, p, c, back). length c]")
qed (auto split: option.splits if_splits simp: max_def neq_Nil_conv)

declare greedy.simps [simp del]

definition globMatch :: "string \<Rightarrow> string \<Rightarrow> bool" where
  "globMatch pat name = greedy (\<lambda>p. p = CHR ''*'') (\<lambda>p n. p = CHR ''?'' \<or> p = n) pat name None"

record component =
  cp_globstar :: bool
  cp_lit :: string
  cp_pat :: string

definition component_match :: "component \<Rightarrow> string \<Rightarrow> bool" where
  "component_match c name = (if cp_pat c = [] then cp_lit c = name else globMatch (cp_pat c) name)"

definition matchComps :: "component list \<Rightarrow> string list \<Rightarrow> bool" where
  "matchComps pat comps = greedy cp_globstar component_match pat comps None"

section \<open>Rules\<close>

definition Protected :: "string \<Rightarrow> bool" where
  "Protected name \<longleftrightarrow> name = ''.git'' \<or> name = ''.portablefs''"

datatype reason =
    NotUTF8 | HasNUL | Negation | CharacterClass | Backslash | RoutesRoot
  | EmptyComponent | DotComponent | ProtectedName string | PartialGlobstar

record Error =
  er_Line :: nat
  er_Text :: string
  er_Reason :: reason

record rule =
  rl_text :: string
  rl_comps :: "component list"
  rl_floating :: bool
  rl_literal :: "string list option"

abbreviation globstarC :: component where
  "globstarC \<equiv> \<lparr>cp_globstar = True, cp_lit = [], cp_pat = []\<rparr>"

abbreviation litC :: "string \<Rightarrow> component" where
  "litC t \<equiv> \<lparr>cp_globstar = False, cp_lit = t, cp_pat = []\<rparr>"

abbreviation patC :: "string \<Rightarrow> component" where
  "patC t \<equiv> \<lparr>cp_globstar = False, cp_lit = [], cp_pat = t\<rparr>"

fun literalComps :: "component list \<Rightarrow> string list option" where
  "literalComps [] = Some []"
| "literalComps (c # cs) =
     (if cp_globstar c \<or> cp_pat c \<noteq> [] then None else map_option ((#) (cp_lit c)) (literalComps cs))"

definition allGlobstar :: "component list \<Rightarrow> bool" where
  "allGlobstar comps = list_all cp_globstar comps"

fun compileParts :: "component list \<Rightarrow> string list \<Rightarrow> reason + component list" where
  "compileParts comps [] = Inr comps"
| "compileParts comps (part # parts) =
     (if part = [] then Inl EmptyComponent
      else if part = ''.'' \<or> part = ''..'' then Inl DotComponent
      else if Protected part then Inl (ProtectedName part)
      else if part = ''**'' then
        compileParts (if comps \<noteq> [] \<and> cp_globstar (last comps) then comps else comps @ [globstarC]) parts
      else if sublist ''**'' part then Inl PartialGlobstar
      else if containsAny part ''*?'' then compileParts (comps @ [patC part]) parts
      else compileParts (comps @ [litC part]) parts)"

definition component_text :: "component \<Rightarrow> string" where
  "component_text c = (if cp_globstar c then ''**'' else if cp_pat c \<noteq> [] then cp_pat c else cp_lit c)"

definition makeRule :: "bool \<Rightarrow> component list \<Rightarrow> rule" where
  "makeRule floating comps =
     \<lparr>rl_text = (if floating then ''**/'' else ''/'') @ join ''/'' (map component_text comps) @ ''/'',
      rl_comps = (if floating then globstarC # comps else comps),
      rl_floating = floating, rl_literal = literalComps comps\<rparr>"

definition compileBody :: "bool \<Rightarrow> string \<Rightarrow> reason + rule" where
  "compileBody anchored body =
     (case compileParts [] (split_on (CHR ''/'') body) of
        Inl e \<Rightarrow> Inl e
      | Inr comps \<Rightarrow>
          (let leading = cp_globstar (hd comps);
               anchored = (anchored \<and> \<not> leading);
               comps = (if leading then tl comps else comps) in
           if comps = [] \<or> allGlobstar comps then Inl RoutesRoot
           else Inr (makeRule (\<not> anchored) comps)))"

definition compileRule :: "string \<Rightarrow> reason + rule" where
  "compileRule line =
     (if \<not> validUTF8 (map of_char line) then Inl NotUTF8
      else if CHR 0x00 \<in> set line then Inl HasNUL
      else if prefix ''!'' line then Inl Negation
      else if containsAny line ''[]'' then Inl CharacterClass
      else if CHR 0x5C \<in> set line then Inl Backslash
      else
        (let anchored = prefix ''/'' line;
             body = trimSuffix (if anchored then tl line else line) ''/'' in
         if body = [] then Inl RoutesRoot
         else compileBody (anchored \<or> CHR ''/'' \<in> set body \<and> \<not> prefix ''**/'' body) body))"

section \<open>Rule sets\<close>

record core =
  co_rules :: "rule list"
  co_floatLit :: "string \<Rightarrow> nat option"
  co_anchoredLit :: "string \<Rightarrow> nat option"
  co_general :: "nat list"
  co_canonical :: string

type_synonym RuleSet = "core option"

definition matchesAncestorOf :: "rule \<Rightarrow> rule \<Rightarrow> bool" where
  "matchesAncestorOf other r =
     (if rl_floating r \<and> \<not> rl_floating other then False
      else (case rl_literal r of None \<Rightarrow> False
        | Some literal \<Rightarrow> list_ex (\<lambda>i. matchComps (rl_comps other) (take i literal)) [1..<length literal + 1]))"

text \<open>The keys of the map are the texts in \<open>order\<close>.\<close>

definition subsumed :: "rule \<Rightarrow> (string \<Rightarrow> rule option) \<Rightarrow> string list \<Rightarrow> bool" where
  "subsumed r byText order =
     (if rl_literal r = None then False
      else list_ex (\<lambda>text. text \<noteq> rl_text r \<and> (case byText text of None \<Rightarrow> False | Some other \<Rightarrow> matchesAncestorOf other r)) order)"

definition addRule :: "nat \<times> rule \<Rightarrow> core \<Rightarrow> core" where
  "addRule = (\<lambda>(i, r) c.
     let c = c\<lparr>co_canonical := co_canonical c @ rl_text r @ [CHR 0x0A]\<rparr> in
     case rl_literal r of
       Some literal \<Rightarrow>
         if rl_floating r \<and> length literal = 1 then c\<lparr>co_floatLit := (co_floatLit c)(hd literal \<mapsto> i)\<rparr>
         else if \<not> rl_floating r then c\<lparr>co_anchoredLit := (co_anchoredLit c)(join ''/'' literal \<mapsto> i)\<rparr>
         else c\<lparr>co_general := co_general c @ [i]\<rparr>
     | None \<Rightarrow> c\<lparr>co_general := co_general c @ [i]\<rparr>)"

definition newCore :: "rule list \<Rightarrow> core" where
  "newCore rules =
     fold addRule (zip [0..<length rules] rules)
       \<lparr>co_rules = rules, co_floatLit = (\<lambda>_. None), co_anchoredLit = (\<lambda>_. None), co_general = [], co_canonical = []\<rparr>"

definition cleanLine :: "string \<Rightarrow> string" where
  "cleanLine raw = trimSpace (takeWhile (\<lambda>c. c \<noteq> CHR ''#'') (trimSuffix raw [CHR 0x0D]))"

fun parseLines :: "nat \<Rightarrow> string list \<Rightarrow> (string \<Rightarrow> rule option) \<Rightarrow> string list \<Rightarrow> Error + (string \<Rightarrow> rule option) \<times> string list" where
  "parseLines i [] byText order = Inr (byText, order)"
| "parseLines i (raw # lines) byText order =
     (let line = cleanLine raw in
      if line = [] then parseLines (i + 1) lines byText order
      else (case compileRule line of
          Inl e \<Rightarrow> Inl \<lparr>er_Line = i + 1, er_Text = line, er_Reason = e\<rparr>
        | Inr r \<Rightarrow>
            if byText (rl_text r) = None
            then parseLines (i + 1) lines (byText(rl_text r \<mapsto> r)) (order @ [rl_text r])
            else parseLines (i + 1) lines byText order))"

definition Parse :: "string \<Rightarrow> Error + RuleSet" where
  "Parse data =
     (case parseLines 0 (split_on (CHR 0x0A) data) (\<lambda>_. None) [] of
        Inl e \<Rightarrow> Inl e
      | Inr (byText, order) \<Rightarrow>
          if order = [] then Inr None
          else
            (let order = sort order;
                 rules = map (\<lambda>text. the (byText text)) order in
             Inr (Some (newCore (filter (\<lambda>r. \<not> subsumed r byText order) rules)))))"

definition Empty :: "RuleSet \<Rightarrow> bool" where
  "Empty rs = (case rs of None \<Rightarrow> True | Some c \<Rightarrow> co_rules c = [])"

definition Patterns :: "RuleSet \<Rightarrow> string list" where
  "Patterns rs = (case rs of None \<Rightarrow> [] | Some c \<Rightarrow> map rl_text (co_rules c))"

definition Canonical :: "RuleSet \<Rightarrow> string" where
  "Canonical rs = (case rs of None \<Rightarrow> [] | Some c \<Rightarrow> co_canonical c)"

definition Revision :: "(string \<Rightarrow> 'd) \<Rightarrow> RuleSet \<Rightarrow> 'd" where
  "Revision sha256 rs = sha256 (Canonical rs)"

section \<open>Literal patterns\<close>

datatype literalError = LocalDirEmpty | OuterWhitespace | PatternCharacter | NotRepresentable | BadRule reason

definition trimChar :: "char \<Rightarrow> string \<Rightarrow> string" where
  "trimChar c s = rev (dropWhile (\<lambda>x. x = c) (rev (dropWhile (\<lambda>x. x = c) s)))"

definition LiteralPattern :: "string \<Rightarrow> literalError + string" where
  "LiteralPattern p =
     (let trimmed = trimSpace p in
      if trimmed = [] then Inl LocalDirEmpty
      else if trimmed \<noteq> p then Inl OuterWhitespace
      else if containsAny trimmed (''*?[]'' @ [CHR 0x5C]) then Inl PatternCharacter
      else if containsAny trimmed [CHR ''#'', CHR 0x0A, CHR 0x00] then Inl NotRepresentable
      else (case compileRule (''/'' @ trimChar (CHR ''/'') trimmed @ ''/'') of
          Inl e \<Rightarrow> Inl (BadRule e)
        | Inr r \<Rightarrow> Inr (rl_text r)))"

section \<open>Routing\<close>

definition unroutable :: "string \<Rightarrow> bool" where
  "unroutable name \<longleftrightarrow> name = [] \<or> name = ''.'' \<or> name = ''..'' \<or> Protected name"

fun scanGeneral :: "core \<Rightarrow> string list \<Rightarrow> nat list \<Rightarrow> nat option \<Rightarrow> nat option" where
  "scanGeneral c comps [] best = best"
| "scanGeneral c comps (idx # idxs) best =
     (if (case best of None \<Rightarrow> False | Some b \<Rightarrow> idx > b) then best
      else if matchComps (rl_comps (co_rules c ! idx)) comps then Some idx
      else scanGeneral c comps idxs best)"

definition bestRule :: "core \<Rightarrow> string list \<Rightarrow> string \<Rightarrow> nat option" where
  "bestRule c comps name =
     (let best = co_floatLit c name;
          best = (case co_anchoredLit c (join ''/'' comps) of
              Some idx \<Rightarrow> if (case best of None \<Rightarrow> True | Some b \<Rightarrow> idx < b) then Some idx else best
            | None \<Rightarrow> best) in
      scanGeneral c comps (co_general c) best)"

fun matchScan :: "core \<Rightarrow> string list \<Rightarrow> string list \<Rightarrow> (string \<times> string) option" where
  "matchScan c comps [] = None"
| "matchScan c comps (name # rest) =
     (if unroutable name then None
      else
        (let comps = comps @ [name] in
         case bestRule c comps name of
           Some best \<Rightarrow> Some (join ''/'' comps, rl_text (co_rules c ! best))
         | None \<Rightarrow> matchScan c comps rest))"

definition MatchRule :: "RuleSet \<Rightarrow> string \<Rightarrow> (string \<times> string) option" where
  "MatchRule rs p =
     (case rs of
        None \<Rightarrow> None
      | Some c \<Rightarrow> if co_rules c = [] \<or> p = [] then None else matchScan c [] (split_on (CHR ''/'') p))"

definition Match :: "RuleSet \<Rightarrow> string \<Rightarrow> string option" where
  "Match rs p = map_option fst (MatchRule rs p)"

section \<open>Subtree keys\<close>

text \<open>A position is the pair of a rule and an index into its components.\<close>

definition splitPath :: "string \<Rightarrow> string list" where
  "splitPath p = (if p = [] then [] else split_on (CHR ''/'') p)"

function closureAdd :: "rule list \<Rightarrow> nat \<times> nat \<Rightarrow> (nat \<times> nat) list \<Rightarrow> (nat \<times> nat) list" where
  "closureAdd rules (ri, idx) out =
     (if (ri, idx) \<in> set out then out
      else
        (let out = out @ [(ri, idx)];
             comps = rl_comps (rules ! ri) in
         if idx < length comps \<and> cp_globstar (comps ! idx) then closureAdd rules (ri, idx + 1) out else out))"
  by pat_completeness auto
termination by (relation "measure (\<lambda>(rules, (ri, idx), out). length (rl_comps (rules ! ri)) - idx)") auto

declare closureAdd.simps [simp del]

definition closure :: "rule list \<Rightarrow> (nat \<times> nat) list \<Rightarrow> (nat \<times> nat) list" where
  "closure rules state = fold (closureAdd rules) state []"

definition stepPos :: "rule list \<Rightarrow> string \<Rightarrow> nat \<times> nat \<Rightarrow> (nat \<times> nat) list \<Rightarrow> (nat \<times> nat) list" where
  "stepPos rules name = (\<lambda>(ri, idx) out.
     let comps = rl_comps (rules ! ri);
         push = (\<lambda>s. if s \<in> set out then out else out @ [s]) in
     if idx \<ge> length comps then out
     else if cp_globstar (comps ! idx) then push (ri, idx)
     else if component_match (comps ! idx) name then push (ri, idx + 1)
     else out)"

definition step :: "rule list \<Rightarrow> (nat \<times> nat) list \<Rightarrow> string \<Rightarrow> (nat \<times> nat) list" where
  "step rules state name = fold (stepPos rules name) state []"

fun subtreeLoop :: "rule list \<Rightarrow> (nat \<times> nat) list \<Rightarrow> string list \<Rightarrow> (nat \<times> nat) list option" where
  "subtreeLoop rules state [] = Some state"
| "subtreeLoop rules state (name # names) =
     (if unroutable name then None
      else
        (let state = closure rules (step rules state name) in
         if state = [] then Some state else subtreeLoop rules state names))"

fun decimal :: "nat \<Rightarrow> string" where
  "decimal n = (if n < 10 then [char_of (48 + n)] else decimal (n div 10) @ [char_of (48 + n mod 10)])"

declare decimal.simps [simp del]

definition position_text :: "nat \<times> nat \<Rightarrow> string" where
  "position_text = (\<lambda>(ri, idx). decimal ri @ ''.'' @ decimal idx)"

definition SubtreeKey :: "RuleSet \<Rightarrow> string \<Rightarrow> string" where
  "SubtreeKey rs p =
     (case rs of
        None \<Rightarrow> []
      | Some c \<Rightarrow>
          if co_rules c = [] then []
          else
            (case subtreeLoop (co_rules c) (closure (co_rules c) (map (\<lambda>i. (i, 0)) [0..<length (co_rules c)])) (splitPath p) of
               None \<Rightarrow> ''!''
             | Some state \<Rightarrow> join '','' (sort (map position_text state))))"

end
