(* ===== verification/Route_Rules.thy ===== *)
theory Route_Rules
  imports Local_Routes
begin

text \<open>
  Meaning of patterns and shape of compiled rules. The greedy scans of names and of component lists decide
  the declarative meaning of a pattern; splitting and joining are inverse; a compiled rule has
  only well-formed components.
\<close>

section \<open>What a pattern means\<close>

text \<open>A star stands for any run, every other element for one element it fits.\<close>

fun pattern_match :: "('p \<Rightarrow> bool) \<Rightarrow> ('p \<Rightarrow> 'c \<Rightarrow> bool) \<Rightarrow> 'p list \<Rightarrow> 'c list \<Rightarrow> bool" where
  "pattern_match isStar fits [] c \<longleftrightarrow> c = []"
| "pattern_match isStar fits (q # p) c =
     (if isStar q then (\<exists>k \<le> length c. pattern_match isStar fits p (drop k c))
      else (case c of [] \<Rightarrow> False | x # c' \<Rightarrow> fits q x \<and> pattern_match isStar fits p c'))"

lemma pattern_Nil: "pattern_match isStar fits p [] \<longleftrightarrow> dropWhile isStar p = []"
  by (induction p) auto

lemma pattern_star_drop:
  "isStar q \<Longrightarrow> pattern_match isStar fits (q # p) (drop k c) \<Longrightarrow> pattern_match isStar fits (q # p) c"
proof -
  assume q: "isStar q" and m: "pattern_match isStar fits (q # p) (drop k c)"
  then obtain j where j: "j \<le> length (drop k c)" "pattern_match isStar fits p (drop (j + k) c)" by auto
  show ?thesis
  proof (cases "k \<le> length c")
    case True
    with q j show ?thesis by (auto intro!: exI [of _ "j + k"])
  next
    case False
    then have "drop (j + k) c = drop (length c) c" by simp
    with q j(2) show ?thesis by (auto intro!: exI [of _ "length c"])
  qed
qed

lemma pattern_prefix:
  "\<forall>q \<in> set u. \<not> isStar q \<Longrightarrow> pattern_match isStar fits (u @ p) d \<Longrightarrow>
     length u \<le> length d \<and> pattern_match isStar fits p (drop (length u) d)"
  by (induction u arbitrary: d) (auto split: list.splits)

text \<open>The pattern and the input read since the backtrack point have the same length, with no star in between.\<close>

definition aligned :: "('p \<Rightarrow> bool) \<Rightarrow> 'p list \<Rightarrow> 'c list \<Rightarrow> ('p list \<times> 'c list) option \<Rightarrow> bool" where
  "aligned isStar p c bk = (case bk of None \<Rightarrow> True
     | Some (bp, bc) \<Rightarrow> \<exists>u v. bp = u @ p \<and> bc = v @ c \<and> length u = length v \<and> (\<forall>q \<in> set u. \<not> isStar q))"

definition later_match :: "('p \<Rightarrow> bool) \<Rightarrow> ('p \<Rightarrow> 'c \<Rightarrow> bool) \<Rightarrow> ('p list \<times> 'c list) option \<Rightarrow> bool" where
  "later_match isStar fits bk = (case bk of None \<Rightarrow> False
     | Some (bp, bc) \<Rightarrow> \<exists>k. 1 \<le> k \<and> k \<le> length bc \<and> pattern_match isStar fits bp (drop k bc))"

lemma match_or_later:
  "pattern_match isStar fits p c \<or> later_match isStar fits (Some (p, c)) \<longleftrightarrow>
     (\<exists>k \<le> length c. pattern_match isStar fits p (drop k c))"
proof
  assume "pattern_match isStar fits p c \<or> later_match isStar fits (Some (p, c))"
  then show "\<exists>k \<le> length c. pattern_match isStar fits p (drop k c)"
    by (auto simp: later_match_def intro: exI [of _ 0])
next
  assume "\<exists>k \<le> length c. pattern_match isStar fits p (drop k c)"
  then obtain k where "k \<le> length c" "pattern_match isStar fits p (drop k c)" by blast
  then show "pattern_match isStar fits p c \<or> later_match isStar fits (Some (p, c))"
    by (cases k) (auto simp: later_match_def intro: exI [of _ "Suc _"])
qed

lemma later_shift:
  assumes "aligned isStar p c bk" "later_match isStar fits bk"
  shows "\<exists>k. 1 \<le> k \<and> k \<le> length c \<and> pattern_match isStar fits p (drop k c)"
proof -
  obtain bp bc k where b: "bk = Some (bp, bc)" "1 \<le> k" "k \<le> length bc" "pattern_match isStar fits bp (drop k bc)"
    using assms(2) by (auto simp: later_match_def split: option.splits)
  obtain u v where uv: "bp = u @ p" "bc = v @ c" "length u = length v" "\<forall>q \<in> set u. \<not> isStar q"
    using assms(1) b(1) by (auto simp: aligned_def)
  have "length u \<le> length (drop k bc)" "pattern_match isStar fits p (drop (length u) (drop k bc))"
    using pattern_prefix [OF uv(4)] b(4) uv(1) by blast+
  moreover have "drop (length u) (drop k bc) = drop k c"
    unfolding drop_drop uv(2,3) by (simp add: add.commute)
  ultimately have "k \<le> length c" "pattern_match isStar fits p (drop k c)"
    using uv(2,3) b(3) by auto
  with b(2) show ?thesis by blast
qed

lemma greedy_correct:
  assumes "aligned isStar p c bk"
  shows "greedy isStar fits p c bk \<longleftrightarrow> pattern_match isStar fits p c \<or> later_match isStar fits bk"
  using assms
proof (induction isStar fits p c bk rule: greedy.induct)
  case (1 isStar fits p c bk)
  show ?case
  proof (cases c)
    case Nil
    have "\<not> later_match isStar fits bk" using later_shift [OF 1(4)] Nil by auto
    then show ?thesis using Nil by (subst greedy.simps) (simp add: pattern_Nil)
  next
    case c: (Cons x c')
    consider (star) "p \<noteq> []" "isStar (hd p)" | (fit) "p \<noteq> []" "\<not> isStar (hd p)" "fits (hd p) x"
      | (stuck) "\<not> (p \<noteq> [] \<and> isStar (hd p))" "\<not> (p \<noteq> [] \<and> fits (hd p) x)" by blast
    then show ?thesis
    proof cases
      case star
      then obtain q p' where p: "p = q # p'" "isStar q" by (cases p) auto
      have al: "aligned isStar (tl p) c (Some (tl p, c))" by (auto simp: aligned_def)
      have "greedy isStar fits p c bk = greedy isStar fits (tl p) c (Some (tl p, c))"
        using c star by (subst greedy.simps) simp
      also have "\<dots> \<longleftrightarrow> pattern_match isStar fits (tl p) c \<or> later_match isStar fits (Some (tl p, c))"
        using 1(1) [OF c] star al by blast
      also have "\<dots> \<longleftrightarrow> pattern_match isStar fits p c"
        using p by (simp add: match_or_later)
      also have "\<dots> \<longleftrightarrow> pattern_match isStar fits p c \<or> later_match isStar fits bk"
        using later_shift [OF 1(4)] pattern_star_drop [of isStar q fits p'] p by blast
      finally show ?thesis .
    next
      case fit
      then obtain q p' where p: "p = q # p'" "\<not> isStar q" "fits q x" by (cases p) auto
      have al: "aligned isStar (tl p) c' bk"
      proof (cases bk)
        case (Some b)
        then obtain u v where uv: "fst b = u @ p" "snd b = v @ c" "length u = length v" "\<forall>q \<in> set u. \<not> isStar q"
          using 1(4) by (auto simp: aligned_def)
        then have "fst b = (u @ [q]) @ p'" "snd b = (v @ [x]) @ c'" using p c by simp_all
        with Some uv(3,4) p show ?thesis unfolding aligned_def by (cases b) (fastforce intro: exI [of _ "u @ [q]"] exI [of _ "v @ [x]"])
      qed (simp add: aligned_def)
      have "greedy isStar fits p c bk = greedy isStar fits (tl p) c' bk"
        using c fit by (subst greedy.simps) simp
      also have "\<dots> \<longleftrightarrow> pattern_match isStar fits (tl p) c' \<or> later_match isStar fits bk"
        using 1(2) [OF c] fit al by blast
      also have "\<dots> \<longleftrightarrow> pattern_match isStar fits p c \<or> later_match isStar fits bk" using p c by simp
      finally show ?thesis .
    next
      case stuck
      have no: "\<not> pattern_match isStar fits p c" using stuck c by (cases p) auto
      show ?thesis
      proof (cases bk)
        case None
        then show ?thesis using c stuck no by (subst greedy.simps) (auto simp: later_match_def)
      next
        case (Some b)
        obtain bp bc where b: "b = (bp, bc)" by (cases b)
        obtain y bc' where bc: "bc = y # bc'"
          using 1(4) Some b c by (cases bc) (auto simp: aligned_def)
        have al: "aligned isStar bp bc' (Some (bp, bc'))" by (auto simp: aligned_def)
        have "greedy isStar fits p c bk = greedy isStar fits bp bc' (Some (bp, bc'))"
          using c stuck Some b bc by (subst greedy.simps) auto
        also have "\<dots> \<longleftrightarrow> pattern_match isStar fits bp bc' \<or> later_match isStar fits (Some (bp, bc'))"
          using 1(3) [OF c stuck Some b [symmetric] bc] al by blast
        also have "\<dots> \<longleftrightarrow> later_match isStar fits (Some (bp, bc))"
        proof -
          have "(\<exists>k \<le> length bc'. pattern_match isStar fits bp (drop k bc')) \<longleftrightarrow>
              (\<exists>k. 1 \<le> k \<and> k \<le> length bc \<and> pattern_match isStar fits bp (drop k bc))"
          proof
            assume "\<exists>k \<le> length bc'. pattern_match isStar fits bp (drop k bc')"
            then obtain k where "k \<le> length bc'" "pattern_match isStar fits bp (drop k bc')" by blast
            then show "\<exists>k. 1 \<le> k \<and> k \<le> length bc \<and> pattern_match isStar fits bp (drop k bc)"
              by (intro exI [of _ "Suc k"]) (simp add: bc)
          next
            assume "\<exists>k. 1 \<le> k \<and> k \<le> length bc \<and> pattern_match isStar fits bp (drop k bc)"
            then obtain k where "1 \<le> k" "k \<le> length bc" "pattern_match isStar fits bp (drop k bc)" by blast
            then show "\<exists>k \<le> length bc'. pattern_match isStar fits bp (drop k bc')"
              by (intro exI [of _ "k - 1"]) (cases k, auto simp: bc)
          qed
          then show ?thesis unfolding match_or_later by (simp add: later_match_def)
        qed
        finally show ?thesis using no Some b by simp
      qed
    qed
  qed
qed

lemma globMatch_iff: "globMatch pat name = pattern_match (\<lambda>p. p = CHR ''*'') (\<lambda>p n. p = CHR ''?'' \<or> p = n) pat name"
  by (simp add: globMatch_def greedy_correct aligned_def later_match_def)

lemma matchComps_iff: "matchComps pat comps = pattern_match cp_globstar component_match pat comps"
  by (simp add: matchComps_def greedy_correct aligned_def later_match_def)

section \<open>Strings\<close>

lemma split_not_Nil [simp]: "split_on c s \<noteq> []"
  by (induction s) (auto split: list.splits)

lemma split_free: "x \<in> set (split_on c s) \<Longrightarrow> c \<notin> set x"
proof (induction s arbitrary: x)
  case (Cons a s)
  show ?case
  proof (cases "a = c")
    case True
    with Cons show ?thesis by auto
  next
    case False
    obtain y ys where y: "split_on c s = y # ys" by (cases "split_on c s") auto
    with Cons False show ?thesis by (auto split: if_splits)
  qed
qed simp

lemma split_append:
  assumes "c \<notin> set a"
  shows "split_on c (a @ c # b) = a # split_on c b"
  using assms by (induction a) auto

lemma split_none: "c \<notin> set a \<Longrightarrow> split_on c a = [a]"
  by (induction a) auto

lemma split_join: "xs \<noteq> [] \<Longrightarrow> \<forall>x \<in> set xs. c \<notin> set x \<Longrightarrow> split_on c (join [c] xs) = xs"
  by (induction "[c]" xs rule: join.induct) (auto simp: split_none split_append)

lemma join_split: "join [c] (split_on c s) = s"
proof (induction s)
  case (Cons a s)
  obtain y ys where y: "split_on c s = y # ys" by (cases "split_on c s") auto
  with Cons show ?case by (cases ys) auto
qed simp

text \<open>Joined paths of slash-free components are equal only when the components are.\<close>

lemma join_inject:
  assumes "xs \<noteq> []" "ys \<noteq> []" "\<forall>x \<in> set xs. c \<notin> set x" "\<forall>y \<in> set ys. c \<notin> set y" "join [c] xs = join [c] ys"
  shows "xs = ys"
proof -
  have "xs = split_on c (join [c] xs)" using split_join [OF assms(1,3)] by (rule sym)
  also have "\<dots> = ys" unfolding assms(5) by (rule split_join [OF assms(2,4)])
  finally show ?thesis .
qed

section \<open>Compiled rules\<close>

definition part_ok :: "string \<Rightarrow> bool" where
  "part_ok t \<longleftrightarrow> \<not> unroutable t \<and> CHR ''/'' \<notin> set t"

definition comp_ok :: "component \<Rightarrow> bool" where
  "comp_ok c \<longleftrightarrow> c = globstarC \<or> (\<exists>t. c = litC t \<and> part_ok t \<and> \<not> containsAny t ''*?'') \<or>
     (\<exists>t. c = patC t \<and> part_ok t \<and> containsAny t ''*?'' \<and> \<not> sublist ''**'' t)"

definition comps_ok :: "component list \<Rightarrow> bool" where
  "comps_ok cs \<longleftrightarrow> cs \<noteq> [] \<and> (\<forall>c \<in> set cs. comp_ok c) \<and> \<not> cp_globstar (hd cs) \<and>
     (\<forall>i. Suc i < length cs \<longrightarrow> \<not> (cp_globstar (cs ! i) \<and> cp_globstar (cs ! Suc i)))"

definition rule_ok :: "rule \<Rightarrow> bool" where
  "rule_ok r \<longleftrightarrow> (\<exists>cs. r = makeRule (rl_floating r) cs \<and> comps_ok cs)"

lemma last_nth: "xs \<noteq> [] \<Longrightarrow> last xs = xs ! (length xs - 1)"
  by (rule last_conv_nth)

definition spaced :: "component list \<Rightarrow> bool" where
  "spaced cs \<longleftrightarrow> (\<forall>i. Suc i < length cs \<longrightarrow> \<not> (cp_globstar (cs ! i) \<and> cp_globstar (cs ! Suc i)))"

lemma spaced_snoc: "spaced cs \<Longrightarrow> cs = [] \<or> \<not> cp_globstar (last cs) \<or> \<not> cp_globstar c \<Longrightarrow> spaced (cs @ [c])"
  unfolding spaced_def
proof (intro allI impI)
  fix i
  assume s: "\<forall>i. Suc i < length cs \<longrightarrow> \<not> (cp_globstar (cs ! i) \<and> cp_globstar (cs ! Suc i))"
    "cs = [] \<or> \<not> cp_globstar (last cs) \<or> \<not> cp_globstar c" "Suc i < length (cs @ [c])"
  show "\<not> (cp_globstar ((cs @ [c]) ! i) \<and> cp_globstar ((cs @ [c]) ! Suc i))"
  proof (cases "Suc i < length cs")
    case True
    with s(1) show ?thesis by (simp add: nth_append)
  next
    case False
    with s(3) have "Suc i = length cs" "cs \<noteq> []" by auto
    moreover from this have "last cs = cs ! i" by (metis diff_Suc_1 last_conv_nth)
    ultimately show ?thesis using s(2) by (auto simp: nth_append)
  qed
qed

lemma compileParts_ok:
  assumes "compileParts cs parts = Inr cs'" "\<forall>p \<in> set parts. CHR ''/'' \<notin> set p" "\<forall>c \<in> set cs. comp_ok c" "spaced cs"
  shows "(\<forall>c \<in> set cs'. comp_ok c) \<and> spaced cs' \<and> (cs \<noteq> [] \<or> parts \<noteq> [] \<longrightarrow> cs' \<noteq> [])"
  using assms
proof (induction cs parts rule: compileParts.induct)
  case (2 cs part parts)
  have no: "part \<noteq> []" "part \<noteq> ''.''" "part \<noteq> ''..''" "\<not> Protected part"
    using 2(4) by (auto split: if_splits)
  then have n2: "\<not> (part = ''.'' \<or> part = ''..'')" by blast
  from no have pk: "part_ok part" using 2(5) by (simp add: part_ok_def unroutable_def)
  have rest: "\<forall>p \<in> set parts. CHR ''/'' \<notin> set p" using 2(5) by simp
  consider (glob) "part = ''**''" | (pat) "part \<noteq> ''**''" "\<not> sublist ''**'' part" "containsAny part ''*?''"
    | (lit) "part \<noteq> ''**''" "\<not> sublist ''**'' part" "\<not> containsAny part ''*?''"
    using 2(4) no by (auto split: if_splits)
  then show ?case
  proof cases
    case glob
    let ?c = "if cs \<noteq> [] \<and> cp_globstar (last cs) then cs else cs @ [globstarC]"
    have n: "''**'' \<noteq> []" "\<not> (''**'' = ''.'' \<or> ''**'' = ''..'')" "\<not> Protected ''**''" by (simp_all add: Protected_def)
    have eq: "compileParts ?c parts = Inr cs'" using 2(4) glob n by simp
    have k: "\<forall>c \<in> set ?c. comp_ok c" using 2(6) by (auto simp: comp_ok_def)
    have "spaced ?c" using 2(7) spaced_snoc [of cs globstarC] by auto
    from 2(1) [OF no(1) n2 no(4) glob eq rest k this] show ?thesis by simp
  next
    case pat
    have eq: "compileParts (cs @ [patC part]) parts = Inr cs'" using 2(4) pat no by simp
    have k: "\<forall>c \<in> set (cs @ [patC part]). comp_ok c" using 2(6) pk pat by (auto simp: comp_ok_def)
    have "spaced (cs @ [patC part])" using 2(7) by (intro spaced_snoc) auto
    from 2(2) [OF no(1) n2 no(4) pat eq rest k this] show ?thesis by simp
  next
    case lit
    have eq: "compileParts (cs @ [litC part]) parts = Inr cs'" using 2(4) lit no by simp
    have k: "\<forall>c \<in> set (cs @ [litC part]). comp_ok c" using 2(6) pk lit by (auto simp: comp_ok_def)
    have "spaced (cs @ [litC part])" using 2(7) by (intro spaced_snoc) auto
    from 2(3) [OF no(1) n2 no(4) lit eq rest k this] show ?thesis by simp
  qed
qed simp

lemma compileRule_ok:
  assumes "compileRule line = Inr r"
  shows "rule_ok r"
proof -
  obtain body anchored where b: "compileBody anchored body = Inr r"
    using assms unfolding compileRule_def Let_def by (meson sum.distinct(1))
  obtain cs where c: "compileParts [] (split_on (CHR ''/'') body) = Inr cs"
    using b by (cases "compileParts [] (split_on (CHR ''/'') body)") (simp_all add: compileBody_def)
  have ok: "\<forall>c \<in> set cs. comp_ok c" "spaced cs" "cs \<noteq> []"
    using compileParts_ok [OF c] split_free by (auto simp: spaced_def)
  define cs' where "cs' = (if cp_globstar (hd cs) then tl cs else cs)"
  have r: "r = makeRule (rl_floating r) cs'"
    using b c by (auto simp: compileBody_def cs'_def makeRule_def Let_def split: if_splits)
  have "cs' \<noteq> []" using b c by (auto simp: compileBody_def cs'_def Let_def split: if_splits)
  moreover have "\<forall>c \<in> set cs'. comp_ok c" using ok(1,3) by (auto simp: cs'_def dest: list.set_sel(2))
  moreover have "spaced cs' \<and> \<not> cp_globstar (hd cs')"
  proof (cases "cp_globstar (hd cs)")
    case True
    then obtain a b d where "cs = a # b # d" using \<open>cs' \<noteq> []\<close> ok(3) by (cases cs; cases "tl cs") (auto simp: cs'_def)
    moreover have "spaced (b # d)" using ok(2) calculation unfolding spaced_def by (metis Suc_less_eq length_Cons nth_Cons_Suc)
    moreover have "\<not> cp_globstar b" using ok(2) True calculation unfolding spaced_def by fastforce
    ultimately show ?thesis using True by (simp add: cs'_def)
  qed (use ok in \<open>simp add: cs'_def\<close>)
  ultimately show ?thesis unfolding rule_ok_def comps_ok_def using r by (auto simp: spaced_def)
qed

end
