(* ===== verification/Route_Index.thy ===== *)
theory Route_Index
  imports Route_Rules
begin

text \<open>
  The precompiled tables of a rule set. The two lookup tables and the list of general rules together find the first rule, in
  canonical order, that matches a path; the scan of a path finds its shortest routed prefix; and every
  rule set that parsing returns consists of well-formed rules with distinct texts.
\<close>

section \<open>Literal rules\<close>

lemma comp_ok_literal: "comp_ok c \<Longrightarrow> \<not> cp_globstar c \<Longrightarrow> cp_pat c = [] \<Longrightarrow> c = litC (cp_lit c) \<and> part_ok (cp_lit c)"
  by (auto simp: comp_ok_def containsAny_def part_ok_def unroutable_def)

lemma literalComps_Some:
  "literalComps cs = Some ls \<Longrightarrow> \<forall>c \<in> set cs. comp_ok c \<Longrightarrow> cs = map litC ls \<and> (\<forall>t \<in> set ls. part_ok t)"
proof (induction cs arbitrary: ls)
  case (Cons c cs)
  then obtain ls' where ls: "literalComps cs = Some ls'" "ls = cp_lit c # ls'" "\<not> cp_globstar c" "cp_pat c = []"
    by (auto split: if_splits)
  have "c = litC (cp_lit c)" "part_ok (cp_lit c)" using comp_ok_literal [of c] ls Cons.prems(2) by simp_all
  with Cons.IH [OF ls(1)] Cons.prems(2) ls(2) show ?case by simp
qed simp

lemma rule_literal:
  assumes "rule_ok r" "rl_literal r = Some ls"
  shows "ls \<noteq> []" "\<forall>t \<in> set ls. part_ok t" "rl_comps r = (if rl_floating r then globstarC # map litC ls else map litC ls)"
    "rl_text r = (if rl_floating r then ''**/'' else ''/'') @ join ''/'' ls @ ''/''"
proof -
  obtain cs where cs: "r = makeRule (rl_floating r) cs" "comps_ok cs" using assms(1) unfolding rule_ok_def by blast
  have sel: "rl_literal r = literalComps cs" "rl_comps r = (if rl_floating r then globstarC # cs else cs)"
    "rl_text r = (if rl_floating r then ''**/'' else ''/'') @ join ''/'' (map component_text cs) @ ''/''"
    using arg_cong [OF cs(1), of rl_literal] arg_cong [OF cs(1), of rl_comps] arg_cong [OF cs(1), of rl_text]
    by (simp_all add: makeRule_def)
  have "literalComps cs = Some ls" using assms(2) sel(1) by simp
  from literalComps_Some [OF this] cs(2) have l: "cs = map litC ls" "\<forall>t \<in> set ls. part_ok t" by (auto simp: comps_ok_def)
  show "ls \<noteq> []" using l(1) cs(2) by (auto simp: comps_ok_def)
  show "\<forall>t \<in> set ls. part_ok t" by (rule l(2))
  show "rl_comps r = (if rl_floating r then globstarC # map litC ls else map litC ls)"
    using sel(2) l(1) by simp
  have "map component_text cs = ls" unfolding l(1) by (simp add: component_text_def o_def)
  then show "rl_text r = (if rl_floating r then ''**/'' else ''/'') @ join ''/'' ls @ ''/''"
    using sel(3) by simp
qed

lemma match_literal: "pattern_match cp_globstar component_match (map litC ls) names \<longleftrightarrow> names = ls"
  by (induction ls arbitrary: names) (auto simp: component_match_def split: list.splits)

text \<open>A floating rule with one literal component routes by the last name, an anchored literal rule by the whole path.\<close>

definition isFloat1 :: "rule \<Rightarrow> string \<Rightarrow> bool" where
  "isFloat1 r s \<longleftrightarrow> rl_floating r \<and> rl_literal r = Some [s]"

definition isAnchored :: "rule \<Rightarrow> string \<Rightarrow> bool" where
  "isAnchored r key \<longleftrightarrow> \<not> rl_floating r \<and> (\<exists>ls. rl_literal r = Some ls \<and> join ''/'' ls = key)"

definition isGeneral :: "rule \<Rightarrow> bool" where
  "isGeneral r \<longleftrightarrow> (case rl_literal r of None \<Rightarrow> True | Some ls \<Rightarrow> rl_floating r \<and> length ls \<noteq> 1)"

lemma match_float1:
  assumes "rule_ok r" "rl_floating r" "rl_literal r = Some [s]"
  shows "matchComps (rl_comps r) (pre @ [name]) \<longleftrightarrow> name = s"
proof -
  have "matchComps (rl_comps r) (pre @ [name]) \<longleftrightarrow> (\<exists>k \<le> length (pre @ [name]). drop k (pre @ [name]) = [s])"
    using rule_literal(3) [OF assms(1,3)] assms(2) match_literal [of "[s]"] by (simp add: matchComps_iff)
  also have "\<dots> \<longleftrightarrow> name = s"
  proof
    assume "\<exists>k \<le> length (pre @ [name]). drop k (pre @ [name]) = [s]"
    then obtain k where "drop k (pre @ [name]) = [s]" by blast
    moreover from this have "last (drop k (pre @ [name])) = last (pre @ [name])"
      by (intro last_drop) (metis drop_all list.distinct(1) not_le)
    ultimately show "name = s" by simp
  qed (auto intro!: exI [of _ "length pre"])
  finally show ?thesis .
qed

lemma match_anchored:
  assumes "rule_ok r" "\<not> rl_floating r" "rl_literal r = Some ls" "comps \<noteq> []" "\<forall>n \<in> set comps. CHR ''/'' \<notin> set n"
  shows "matchComps (rl_comps r) comps \<longleftrightarrow> join ''/'' ls = join ''/'' comps"
proof -
  have "matchComps (rl_comps r) comps \<longleftrightarrow> comps = ls"
    using rule_literal(3) [OF assms(1,3)] assms(2) by (simp add: matchComps_iff match_literal)
  moreover have "comps = ls" if "join ''/'' ls = join ''/'' comps"
    using join_inject [OF assms(4) rule_literal(1) [OF assms(1,3)] assms(5)] rule_literal(2) [OF assms(1,3)] that
    by (auto simp: part_ok_def)
  ultimately show ?thesis by blast
qed

section \<open>The index of a rule set\<close>

abbreviation indexed :: "rule list \<Rightarrow> core \<Rightarrow> core" where
  "indexed rs c \<equiv> fold addRule (zip [0..<length rs] rs) c"

lemma addRule_fields:
  "co_rules (addRule (i, r) c) = co_rules c"
  "co_canonical (addRule (i, r) c) = co_canonical c @ rl_text r @ [CHR 0x0A]"
  "co_general (addRule (i, r) c) = co_general c @ (if isGeneral r then [i] else [])"
  "co_floatLit (addRule (i, r) c) s = (if isFloat1 r s then Some i else co_floatLit c s)"
  "co_anchoredLit (addRule (i, r) c) key = (if isAnchored r key then Some i else co_anchoredLit c key)"
  by (auto simp: addRule_def isGeneral_def isFloat1_def isAnchored_def Let_def length_Suc_conv split: option.splits)

lemma indexed_snoc: "indexed (rs @ [r]) c = addRule (length rs, r) (indexed rs c)"
  by simp

lemma indexed_fields:
  "co_rules (indexed rs c) = co_rules c"
  "co_general (indexed rs c) = co_general c @ filter (\<lambda>i. isGeneral (rs ! i)) [0..<length rs]"
  "co_canonical (indexed rs c) = co_canonical c @ concat (map (\<lambda>r. rl_text r @ [CHR 0x0A]) rs)"
proof (induction rs rule: rev_induct)
  case (snoc r rs)
  have "filter (\<lambda>i. isGeneral ((rs @ [r]) ! i)) [0..<length rs] = filter (\<lambda>i. isGeneral (rs ! i)) [0..<length rs]"
    by (rule filter_cong) (auto simp: nth_append)
  then show "co_general (indexed (rs @ [r]) c) = co_general c @ filter (\<lambda>i. isGeneral ((rs @ [r]) ! i)) [0..<length (rs @ [r])]"
    unfolding indexed_snoc addRule_fields snoc by simp
  show "co_rules (indexed (rs @ [r]) c) = co_rules c" unfolding indexed_snoc addRule_fields snoc ..
  show "co_canonical (indexed (rs @ [r]) c) = co_canonical c @ concat (map (\<lambda>r. rl_text r @ [CHR 0x0A]) (rs @ [r]))"
    unfolding indexed_snoc addRule_fields snoc by simp
qed simp_all

lemma indexed_lookup:
  assumes "co_floatLit c = (\<lambda>_. None)" "co_anchoredLit c = (\<lambda>_. None)"
  shows "case co_floatLit (indexed rs c) s of None \<Rightarrow> \<forall>i < length rs. \<not> isFloat1 (rs ! i) s
      | Some i \<Rightarrow> i < length rs \<and> isFloat1 (rs ! i) s"
    "case co_anchoredLit (indexed rs c) s of None \<Rightarrow> \<forall>i < length rs. \<not> isAnchored (rs ! i) s
      | Some i \<Rightarrow> i < length rs \<and> isAnchored (rs ! i) s"
proof (induction rs rule: rev_induct)
  case (snoc r rs)
  show "case co_floatLit (indexed (rs @ [r]) c) s of None \<Rightarrow> \<forall>i < length (rs @ [r]). \<not> isFloat1 ((rs @ [r]) ! i) s
      | Some i \<Rightarrow> i < length (rs @ [r]) \<and> isFloat1 ((rs @ [r]) ! i) s"
    unfolding indexed_snoc addRule_fields
    using snoc(1) by (auto simp: nth_append less_Suc_eq split: option.splits)
  show "case co_anchoredLit (indexed (rs @ [r]) c) s of None \<Rightarrow> \<forall>i < length (rs @ [r]). \<not> isAnchored ((rs @ [r]) ! i) s
      | Some i \<Rightarrow> i < length (rs @ [r]) \<and> isAnchored ((rs @ [r]) ! i) s"
    unfolding indexed_snoc addRule_fields
    using snoc(2) by (auto simp: nth_append less_Suc_eq split: option.splits)
qed (simp_all add: assms)

lemma newCore_fields:
  "co_rules (newCore rs) = rs" "co_general (newCore rs) = filter (\<lambda>i. isGeneral (rs ! i)) [0..<length rs]"
  "co_canonical (newCore rs) = concat (map (\<lambda>r. rl_text r @ [CHR 0x0A]) rs)"
  by (simp_all add: newCore_def indexed_fields)

text \<open>The least index with a property, if there is one.\<close>

definition least_index :: "(nat \<Rightarrow> bool) \<Rightarrow> nat \<Rightarrow> nat option \<Rightarrow> bool" where
  "least_index P n r = (case r of None \<Rightarrow> \<forall>i < n. \<not> P i | Some i \<Rightarrow> i < n \<and> P i \<and> (\<forall>j < i. \<not> P j))"

definition omin :: "nat option \<Rightarrow> nat option \<Rightarrow> nat option" where
  "omin a b = (case a of None \<Rightarrow> b | Some x \<Rightarrow> (case b of None \<Rightarrow> a | Some y \<Rightarrow> if y < x then b else a))"

lemma least_index_omin:
  assumes "least_index P n a" "least_index Q n b"
  shows "least_index (\<lambda>i. P i \<or> Q i) n (omin a b)"
  using assms by (auto simp: least_index_def omin_def split: option.splits)

lemma least_index_unique: "least_index P n a \<Longrightarrow> least_index P n b \<Longrightarrow> a = b"
  unfolding least_index_def by (auto split: option.splits) (meson linorder_neqE_nat)

lemma least_index_find: "least_index P n (find P [0..<n])"
  by (auto simp: least_index_def find_None_iff find_Some_iff split: option.split)

lemma least_index_cong:
  assumes "\<forall>i < n. P i = Q i" "least_index P n r"
  shows "least_index Q n r"
proof (cases r)
  case (Some i)
  then have i: "i < n" "P i" "\<forall>j < i. \<not> P j" using assms(2) by (simp_all add: least_index_def)
  then have "\<forall>j < i. \<not> Q j" using assms(1) by (meson less_trans)
  with i assms(1) Some show ?thesis by (simp add: least_index_def)
qed (use assms in \<open>simp add: least_index_def\<close>)

lemma least_index_only:
  assumes "case r of None \<Rightarrow> \<forall>i < n. \<not> P i | Some i \<Rightarrow> i < n \<and> P i" "\<forall>i j. i < n \<longrightarrow> j < n \<longrightarrow> P i \<longrightarrow> P j \<longrightarrow> i = j"
  shows "least_index (\<lambda>i. i < n \<and> P i) n r"
proof (cases r)
  case (Some i)
  then have "i < n" "P i" using assms(1) by simp_all
  moreover have "\<not> (j < n \<and> P j)" if "j < i" for j using assms(2) \<open>i < n\<close> \<open>P i\<close> that by blast
  ultimately show ?thesis using Some by (simp add: least_index_def)
qed (use assms in \<open>simp add: least_index_def\<close>)

lemma newCore_lookup:
  "case co_floatLit (newCore rs) s of None \<Rightarrow> \<forall>i < length rs. \<not> isFloat1 (rs ! i) s
     | Some i \<Rightarrow> i < length rs \<and> isFloat1 (rs ! i) s"
  "case co_anchoredLit (newCore rs) s of None \<Rightarrow> \<forall>i < length rs. \<not> isAnchored (rs ! i) s
     | Some i \<Rightarrow> i < length rs \<and> isAnchored (rs ! i) s"
  unfolding newCore_def by (rule indexed_lookup; simp)+

lemma scanGeneral_omin:
  assumes "sorted_wrt (<) idxs"
  shows "scanGeneral c comps idxs best = omin best (find (\<lambda>i. matchComps (rl_comps (co_rules c ! i)) comps) idxs)"
  using assms
proof (induction idxs)
  case (Cons i js)
  show ?case
  proof (cases "case best of None \<Rightarrow> False | Some b \<Rightarrow> i > b")
    case True
    then obtain b where b: "best = Some b" "b < i" by (auto split: option.splits)
    have "\<not> j < b" if "find P js = Some j" for j P
    proof -
      have "j \<in> set js" using that by (metis find_Some_iff nth_mem)
      with Cons.prems b(2) show ?thesis by auto
    qed
    with b show ?thesis by (auto simp: omin_def split: option.splits)
  next
    case False
    with Cons show ?thesis by (auto simp: omin_def split: option.splits)
  qed
qed (simp add: omin_def split: option.split)

lemma bestRule_find:
  assumes "\<forall>r \<in> set rs. rule_ok r" "distinct (map rl_text rs)" "\<forall>n \<in> set (pre @ [name]). CHR ''/'' \<notin> set n"
  shows "bestRule (newCore rs) (pre @ [name]) name = find (\<lambda>i. matchComps (rl_comps (rs ! i)) (pre @ [name])) [0..<length rs]"
proof -
  let ?c = "newCore rs" and ?n = "length rs" and ?p = "pre @ [name]"
  let ?key = "join ''/'' ?p"
  have same: "i = j" if "i < ?n" "j < ?n" "rl_text (rs ! i) = rl_text (rs ! j)" for i j
    using that assms(2) by (auto simp: distinct_conv_nth)
  have ok: "rule_ok (rs ! i)" if "i < ?n" for i using that assms(1) by simp
  have "i = j" if "i < ?n" "j < ?n" "isFloat1 (rs ! i) name" "isFloat1 (rs ! j) name" for i j
    using that(3,4) rule_literal(4) [OF ok [OF that(1)]] rule_literal(4) [OF ok [OF that(2)]]
    by (intro same that) (simp add: isFloat1_def)
  then have f: "least_index (\<lambda>i. i < ?n \<and> isFloat1 (rs ! i) name) ?n (co_floatLit ?c name)"
    by (intro least_index_only [OF newCore_lookup(1)]) blast
  have "i = j" if "i < ?n" "j < ?n" "isAnchored (rs ! i) ?key" "isAnchored (rs ! j) ?key" for i j
    using that(3,4) rule_literal(4) [OF ok [OF that(1)]] rule_literal(4) [OF ok [OF that(2)]]
    by (intro same that) (auto simp: isAnchored_def)
  then have a: "least_index (\<lambda>i. i < ?n \<and> isAnchored (rs ! i) ?key) ?n (co_anchoredLit ?c ?key)"
    by (intro least_index_only [OF newCore_lookup(2)]) blast
  let ?m = "\<lambda>i. matchComps (rl_comps (rs ! i)) ?p"
  have "find ?m (filter (\<lambda>i. isGeneral (rs ! i)) xs) = find (\<lambda>i. isGeneral (rs ! i) \<and> ?m i) xs" for xs
    by (induction xs) auto
  then have g: "least_index (\<lambda>i. isGeneral (rs ! i) \<and> ?m i) ?n (find ?m (co_general ?c))"
    using least_index_find [of "\<lambda>i. isGeneral (rs ! i) \<and> ?m i" ?n] by (simp add: newCore_fields)
  have "bestRule ?c ?p name = omin (omin (co_floatLit ?c name) (co_anchoredLit ?c ?key)) (find ?m (co_general ?c))"
  proof -
    have "sorted_wrt (<) (co_general ?c)" unfolding newCore_fields by (intro sorted_wrt_filter) simp
    from scanGeneral_omin [OF this, of ?c ?p] show ?thesis
      by (simp add: bestRule_def newCore_fields Let_def omin_def split: option.split)
  qed
  then have L: "least_index (\<lambda>i. (i < ?n \<and> isFloat1 (rs ! i) name \<or> i < ?n \<and> isAnchored (rs ! i) ?key) \<or> isGeneral (rs ! i) \<and> ?m i) ?n
      (bestRule ?c ?p name)"
    using least_index_omin [OF least_index_omin [OF f a] g] by simp
  have eqv: "(i < ?n \<and> isFloat1 (rs ! i) name \<or> i < ?n \<and> isAnchored (rs ! i) ?key) \<or> isGeneral (rs ! i) \<and> ?m i \<longleftrightarrow> ?m i" if i: "i < ?n" for i
  proof (cases "rl_literal (rs ! i)")
    case None
    then show ?thesis using i by (simp add: isFloat1_def isAnchored_def isGeneral_def)
  next
    case (Some ls)
    note fl = match_float1 [OF ok [OF i]] and an = match_anchored [OF ok [OF i] _ Some _ assms(3)]
    show ?thesis
    proof (cases "rl_floating (rs ! i)")
      case True
      show ?thesis
      proof (cases "length ls = 1")
        case one: True
        then obtain s where "ls = [s]" by (auto simp: length_Suc_conv)
        with fl [OF True, of s pre name] Some True i show ?thesis by (auto simp: isFloat1_def isAnchored_def isGeneral_def)
      next
        case False
        with Some True i show ?thesis by (auto simp: isFloat1_def isAnchored_def isGeneral_def)
      qed
    next
      case False
      with an Some i show ?thesis by (auto simp: isFloat1_def isAnchored_def isGeneral_def)
    qed
  qed
  have "least_index ?m ?n (bestRule ?c ?p name)"
    by (rule least_index_cong [OF _ L]) (intro allI impI eqv)
  then show ?thesis using least_index_unique least_index_find by blast
qed


section \<open>Routing\<close>

definition first_rule :: "rule list \<Rightarrow> string list \<Rightarrow> nat option" where
  "first_rule rs comps = find (\<lambda>i. matchComps (rl_comps (rs ! i)) comps) [0..<length rs]"

definition routes :: "rule list \<Rightarrow> string list \<Rightarrow> bool" where
  "routes rs comps \<longleftrightarrow> (\<exists>r \<in> set rs. matchComps (rl_comps r) comps)"

lemma first_rule_None: "first_rule rs comps = None \<longleftrightarrow> \<not> routes rs comps"
proof -
  have "first_rule rs comps = None \<longleftrightarrow> (\<forall>i < length rs. \<not> matchComps (rl_comps (rs ! i)) comps)"
    by (simp add: first_rule_def find_None_iff)
  also have "\<dots> \<longleftrightarrow> \<not> routes rs comps" unfolding routes_def by (metis in_set_conv_nth)
  finally show ?thesis .
qed

text \<open>
  The reference meaning of routing: the shortest prefix of routable names that some rule matches, decided by the
  first such rule.
\<close>

definition topmost :: "rule list \<Rightarrow> string list \<Rightarrow> string list \<Rightarrow> nat \<Rightarrow> bool" where
  "topmost rs pre names i \<longleftrightarrow> 1 \<le> i \<and> i \<le> length names \<and> (\<forall>n \<in> set (take i names). \<not> unroutable n) \<and>
     routes rs (pre @ take i names) \<and> (\<forall>j. 1 \<le> j \<longrightarrow> j < i \<longrightarrow> \<not> routes rs (pre @ take j names))"

lemma all_less_split: "0 < k \<Longrightarrow> (\<forall>j < k. Q j) \<longleftrightarrow> Q 0 \<and> (\<forall>j. 1 \<le> j \<longrightarrow> j < k \<longrightarrow> Q j)" for k :: nat
  by (metis One_nat_def Suc_leI gr0I)

lemma all_less_shift: "(\<forall>j. 1 \<le> j \<longrightarrow> j < Suc k \<longrightarrow> Q j) \<longleftrightarrow> (\<forall>j < k. Q (Suc j))"
  by (metis One_nat_def Suc_le_D Suc_le_eq Suc_less_eq zero_less_Suc)

lemma topmost_Cons:
  "topmost rs pre (n # names) i \<longleftrightarrow> \<not> unroutable n \<and>
     (if routes rs (pre @ [n]) then i = 1 else 1 \<le> i - 1 \<and> topmost rs (pre @ [n]) names (i - 1))"
proof (cases i)
  case (Suc k)
  have top: "topmost rs pre (n # names) i \<longleftrightarrow> k \<le> length names \<and> \<not> unroutable n \<and> (\<forall>m \<in> set (take k names). \<not> unroutable m) \<and>
      routes rs ((pre @ [n]) @ take k names) \<and> (\<forall>j < k. \<not> routes rs ((pre @ [n]) @ take j names))"
    unfolding topmost_def Suc all_less_shift by simp
  show ?thesis
  proof (cases k)
    case 0
    then show ?thesis unfolding top by (simp add: Suc)
  next
    case k: (Suc k')
    then have "0 < k" by simp
    note split = all_less_split [OF this, of "\<lambda>j. \<not> routes rs ((pre @ [n]) @ take j names)"]
    have "topmost rs pre (n # names) i \<longleftrightarrow> \<not> unroutable n \<and> \<not> routes rs (pre @ [n]) \<and> topmost rs (pre @ [n]) names k"
      unfolding top split by (auto simp: topmost_def k)
    then show ?thesis using k by (simp add: Suc)
  qed
qed (simp add: topmost_def)

lemma matchScan_topmost:
  assumes "\<forall>r \<in> set rs. rule_ok r" "distinct (map rl_text rs)" "\<forall>n \<in> set (pre @ names). CHR ''/'' \<notin> set n"
  shows "matchScan (newCore rs) pre names = Some (root, text) \<longleftrightarrow>
    (\<exists>i k. topmost rs pre names i \<and> root = join ''/'' (pre @ take i names) \<and>
       first_rule rs (pre @ take i names) = Some k \<and> text = rl_text (rs ! k))"
  using assms(3)
proof (induction names arbitrary: pre)
  case Nil
  then show ?case by (simp add: topmost_def)
next
  case (Cons n names)
  have best: "bestRule (newCore rs) (pre @ [n]) n = first_rule rs (pre @ [n])"
    unfolding first_rule_def by (rule bestRule_find [OF assms(1,2)]) (use Cons.prems in auto)
  show ?case
  proof (cases "unroutable n")
    case True
    then show ?thesis by (simp add: topmost_Cons)
  next
    case ok: False
    show ?thesis
    proof (cases "first_rule rs (pre @ [n])")
      case None
      then have nr: "\<not> routes rs (pre @ [n])" by (simp add: first_rule_None)
      have "matchScan (newCore rs) pre (n # names) = matchScan (newCore rs) (pre @ [n]) names"
        using ok None best by simp
      also have "\<dots> = Some (root, text) \<longleftrightarrow> (\<exists>i k. topmost rs (pre @ [n]) names i \<and> root = join ''/'' ((pre @ [n]) @ take i names) \<and>
          first_rule rs ((pre @ [n]) @ take i names) = Some k \<and> text = rl_text (rs ! k))"
        by (rule Cons.IH) (use Cons.prems in simp)
      also have "\<dots> \<longleftrightarrow> (\<exists>i k. topmost rs pre (n # names) i \<and> root = join ''/'' (pre @ take i (n # names)) \<and>
          first_rule rs (pre @ take i (n # names)) = Some k \<and> text = rl_text (rs ! k))"
      proof
        assume "\<exists>i k. topmost rs (pre @ [n]) names i \<and> root = join ''/'' ((pre @ [n]) @ take i names) \<and>
          first_rule rs ((pre @ [n]) @ take i names) = Some k \<and> text = rl_text (rs ! k)"
        then obtain i k where i: "topmost rs (pre @ [n]) names i" "root = join ''/'' ((pre @ [n]) @ take i names)"
          "first_rule rs ((pre @ [n]) @ take i names) = Some k" "text = rl_text (rs ! k)" by blast
        have "1 \<le> i" using i(1) by (simp add: topmost_def)
        with i nr ok show "\<exists>i k. topmost rs pre (n # names) i \<and> root = join ''/'' (pre @ take i (n # names)) \<and>
          first_rule rs (pre @ take i (n # names)) = Some k \<and> text = rl_text (rs ! k)"
          by (intro exI [of _ "Suc i"] exI [of _ k]) (simp add: topmost_Cons)
      next
        assume "\<exists>i k. topmost rs pre (n # names) i \<and> root = join ''/'' (pre @ take i (n # names)) \<and>
          first_rule rs (pre @ take i (n # names)) = Some k \<and> text = rl_text (rs ! k)"
        then obtain i k where i: "topmost rs pre (n # names) i" "root = join ''/'' (pre @ take i (n # names))"
          "first_rule rs (pre @ take i (n # names)) = Some k" "text = rl_text (rs ! k)" by blast
        have t: "1 \<le> i - 1" "topmost rs (pre @ [n]) names (i - 1)" using i(1) nr by (simp_all add: topmost_Cons)
        then obtain j where "i = Suc j" by (cases i) auto
        with i t show "\<exists>i k. topmost rs (pre @ [n]) names i \<and> root = join ''/'' ((pre @ [n]) @ take i names) \<and>
          first_rule rs ((pre @ [n]) @ take i names) = Some k \<and> text = rl_text (rs ! k)"
          by (intro exI [of _ j] exI [of _ k]) simp
      qed
      finally show ?thesis .
    next
      case (Some k)
      then have r: "routes rs (pre @ [n])" by (metis first_rule_None option.distinct(1))
      then have t: "topmost rs pre (n # names) i \<longleftrightarrow> i = 1" for i using ok by (simp add: topmost_Cons)
      show ?thesis unfolding t by (auto simp: ok best Some newCore_fields(1))
    qed
  qed
qed

section \<open>Parsed rule sets\<close>

definition table_ok :: "(string \<Rightarrow> rule option) \<Rightarrow> string list \<Rightarrow> bool" where
  "table_ok byText order \<longleftrightarrow> distinct order \<and> set order = dom byText \<and>
     (\<forall>t r. byText t = Some r \<longrightarrow> rl_text r = t \<and> rule_ok r)"

lemma parseLines_ok:
  "parseLines i lines byText order = Inr (bt, ord) \<Longrightarrow> table_ok byText order \<Longrightarrow> table_ok bt ord"
proof (induction i lines byText order rule: parseLines.induct)
  case (2 i raw lines byText order)
  show ?case
  proof (cases "cleanLine raw = []")
    case True
    with 2 show ?thesis by simp
  next
    case False
    then obtain r where r: "compileRule (cleanLine raw) = Inr r"
      using 2(4) by (cases "compileRule (cleanLine raw)") (auto simp: Let_def)
    show ?thesis
    proof (cases "byText (rl_text r) = None")
      case True
      have "table_ok (byText(rl_text r \<mapsto> r)) (order @ [rl_text r])"
        using 2(5) True compileRule_ok [OF r] by (auto simp: table_ok_def)
      moreover have "parseLines (i + 1) lines (byText(rl_text r \<mapsto> r)) (order @ [rl_text r]) = Inr (bt, ord)"
        using 2(4) False r True by (simp add: Let_def)
      ultimately show ?thesis using 2(2) [OF refl False r True] by blast
    next
      case known: False
      then have "parseLines (i + 1) lines byText order = Inr (bt, ord)" using 2(4) False r known by (auto simp: Let_def)
      then show ?thesis using 2(3) [OF refl False r known] 2(5) by blast
    qed
  qed
qed simp

lemma Parse_rules:
  assumes "Parse data = Inr (Some c)"
  obtains rs where "c = newCore rs" "rs \<noteq> [] \<longrightarrow> co_rules c \<noteq> []" "\<forall>r \<in> set rs. rule_ok r" "distinct (map rl_text rs)"
proof -
  obtain bt ord where p: "parseLines 0 (split_on (CHR 0x0A) data) (\<lambda>_. None) [] = Inr (bt, ord)"
    using assms by (auto simp: Parse_def split: sum.splits)
  have ok: "table_ok bt ord" by (rule parseLines_ok [OF p]) (simp add: table_ok_def)
  let ?all = "map (\<lambda>text. the (bt text)) (sort ord)"
  let ?rs = "filter (\<lambda>r. \<not> subsumed r bt (sort ord)) ?all"
  have c: "c = newCore ?rs" using assms p by (auto simp: Parse_def Let_def split: if_splits)
  have at: "bt t = Some (the (bt t))" "rl_text (the (bt t)) = t" "rule_ok (the (bt t))" if "t \<in> set ord" for t
    using ok that by (auto simp: table_ok_def)
  have "map rl_text ?all = sort ord" unfolding map_map by (rule map_idI) (simp add: at(2))
  then have d: "distinct (map rl_text ?all)" using ok by (simp add: table_ok_def)
  have "\<forall>r \<in> set ?rs. rule_ok r" using at(3) by auto
  moreover have "distinct (map rl_text ?rs)" using d by (rule distinct_map_filter)
  ultimately show ?thesis using that [OF c] by (simp add: c newCore_fields)
qed


lemma split_app: "split_on c (p @ c # q) = split_on c p @ split_on c q"
proof (induction p)
  case (Cons a p)
  obtain y ys where "split_on c p = y # ys" by (cases "split_on c p") auto
  with Cons show ?case by auto
qed simp

lemma match_rule_parts:
  assumes "Parse data = Inr (Some c)" "p \<noteq> []"
  shows "MatchRule (Some c) p = Some (root, text) \<longleftrightarrow>
    (\<exists>i k. topmost (co_rules c) [] (split_on (CHR ''/'') p) i \<and> root = join ''/'' (take i (split_on (CHR ''/'') p)) \<and>
       first_rule (co_rules c) (take i (split_on (CHR ''/'') p)) = Some k \<and> text = rl_text (co_rules c ! k))"
proof -
  obtain rs where rs: "c = newCore rs" "\<forall>r \<in> set rs. rule_ok r" "distinct (map rl_text rs)"
    by (rule Parse_rules [OF assms(1)]) (rule that)
  have rules: "co_rules c = rs" by (simp add: rs(1) newCore_fields)
  have slash: "\<forall>n \<in> set ([] @ split_on (CHR ''/'') p). CHR ''/'' \<notin> set n" using split_free by simp
  show ?thesis
  proof (cases "rs = []")
    case True
    have "\<not> topmost [] [] names i" for names i by (simp add: topmost_def routes_def)
    then show ?thesis using True by (simp add: MatchRule_def rules)
  next
    case False
    then have "MatchRule (Some c) p = matchScan (newCore rs) [] (split_on (CHR ''/'') p)"
      using assms(2) by (simp add: MatchRule_def rules flip: rs(1))
    then show ?thesis using matchScan_topmost [OF rs(2,3) slash, of root "text"] by (simp add: rules)
  qed
qed

end
