(* ===== verification/Route_Subsumption.thy ===== *)
theory Route_Subsumption
  imports Route_Index
begin

text \<open>
  What parsing leaves of a declaration: the rules in the order of their texts with tables that point into them, and
  without the literal rules that another rule makes redundant, whose loss changes no route.
\<close>

section \<open>The rules of a declaration\<close>

abbreviation declared :: "(string \<Rightarrow> rule option) \<Rightarrow> string list \<Rightarrow> rule list" where
  "declared byText order \<equiv> map (\<lambda>text. the (byText text)) order"

lemma Parse_declared:
  assumes "Parse data = Inr (Some c)" "parseLines 0 (split_on (CHR 0x0A) data) (\<lambda>_. None) [] = Inr (bt, ord)"
  shows "c = newCore (filter (\<lambda>r. \<not> subsumed r bt (sort ord)) (declared bt (sort ord)))" and "table_ok bt ord"
proof -
  show "c = newCore (filter (\<lambda>r. \<not> subsumed r bt (sort ord)) (declared bt (sort ord)))"
    using assms by (auto simp: Parse_def Let_def split: if_splits)
  show "table_ok bt ord"
    by (rule parseLines_ok [OF assms(2)]) (simp add: table_ok_def)
qed

lemma table_texts: "table_ok bt ord \<Longrightarrow> map rl_text (declared bt (sort ord)) = sort ord"
  unfolding map_map by (rule map_idI) (auto simp: table_ok_def)

lemma Parse_order:
  assumes "Parse data = Inr (Some c)"
  shows "sorted (map rl_text (co_rules c))" and "distinct (map rl_text (co_rules c))" and "\<forall>r \<in> set (co_rules c). rule_ok r"
proof -
  obtain bt ord where p: "parseLines 0 (split_on (CHR 0x0A) data) (\<lambda>_. None) [] = Inr (bt, ord)"
    using assms by (auto simp: Parse_def split: sum.splits)
  note facts = Parse_declared [OF assms p]
  have "sorted (map rl_text (declared bt (sort ord)))"
    unfolding table_texts [OF facts(2)] by simp
  then show "sorted (map rl_text (co_rules c))"
    unfolding facts(1) newCore_fields by (rule sorted_filter)
  obtain rs where "c = newCore rs" "\<forall>r \<in> set rs. rule_ok r" "distinct (map rl_text rs)"
    by (rule Parse_rules [OF assms]) (rule that)
  then show "distinct (map rl_text (co_rules c))" "\<forall>r \<in> set (co_rules c). rule_ok r"
    by (simp_all add: newCore_fields)
qed

section \<open>Subsumption\<close>

lemma rule_comps:
  assumes "rule_ok r"
  obtains cs where "rl_comps r = (if rl_floating r then globstarC # cs else cs)" "cs \<noteq> []" "\<not> cp_globstar (hd cs)"
proof -
  obtain cs where cs: "r = makeRule (rl_floating r) cs" "comps_ok cs"
    using assms unfolding rule_ok_def by blast
  have "rl_comps r = (if rl_floating r then globstarC # cs else cs)"
    using arg_cong [OF cs(1), of rl_comps] by (simp add: makeRule_def)
  then show thesis
    using that cs(2) by (simp add: comps_ok_def)
qed

lemma match_floating: "matchComps (globstarC # cs) (drop k names) \<Longrightarrow> matchComps (globstarC # cs) names"
  unfolding matchComps_iff by (rule pattern_star_drop) simp_all

lemma match_floating_literal: "matchComps (globstarC # map litC ls) names \<longleftrightarrow> (\<exists>k \<le> length names. drop k names = ls)"
  by (simp add: matchComps_iff match_literal)

lemma match_not_root:
  assumes "rule_ok r"
  shows "\<not> matchComps (rl_comps r) []"
proof -
  obtain cs where "rl_comps r = (if rl_floating r then globstarC # cs else cs)" "cs \<noteq> []" "\<not> cp_globstar (hd cs)"
    by (rule rule_comps [OF assms])
  then show ?thesis
    by (cases cs) (auto simp: matchComps_iff pattern_Nil)
qed

lemma ancestorE:
  assumes "matchesAncestorOf other r"
  obtains ls i where "rl_literal r = Some ls" "i \<le> length ls" "matchComps (rl_comps other) (take i ls)"
    "rl_floating r \<longrightarrow> rl_floating other"
proof -
  obtain ls where ls: "rl_literal r = Some ls" "rl_floating r \<longrightarrow> rl_floating other"
    using assms by (auto simp: matchesAncestorOf_def split: if_splits option.splits)
  then have "list_ex (\<lambda>i. matchComps (rl_comps other) (take i ls)) [1..<length ls + 1]"
    using assms by (simp add: matchesAncestorOf_def split: if_splits)
  then obtain i where "i \<in> set [1..<length ls + 1]" "matchComps (rl_comps other) (take i ls)"
    unfolding list_ex_iff by blast
  then show thesis
    using that [OF ls(1) _ _ ls(2), of i] by (simp add: less_Suc_eq_le del: upt_Suc)
qed

text \<open>The rule that makes another redundant routes a prefix of whatever that one routes.\<close>

lemma subsumer_matches:
  assumes ok: "rule_ok r" "rule_ok other" and anc: "matchesAncestorOf other r" and m: "matchComps (rl_comps r) names"
  shows "\<exists>k \<le> length names. matchComps (rl_comps other) (take k names)"
proof -
  obtain ls i where ls: "rl_literal r = Some ls" and i: "i \<le> length ls" "matchComps (rl_comps other) (take i ls)"
    and float: "rl_floating r \<longrightarrow> rl_floating other"
    by (rule ancestorE [OF anc])
  show ?thesis
  proof (cases "rl_floating r")
    case False
    then have "names = ls"
      using m rule_literal(3) [OF ok(1) ls] by (simp add: matchComps_iff match_literal)
    then show ?thesis
      using i by blast
  next
    case True
    then obtain k where k: "k \<le> length names" "drop k names = ls"
      using m rule_literal(3) [OF ok(1) ls] by (auto simp: match_floating_literal)
    obtain cs where cs: "rl_comps other = (if rl_floating other then globstarC # cs else cs)"
      by (rule rule_comps [OF ok(2)])
    have "rl_floating other"
      using float True by simp
    then have "matchComps (rl_comps other) (take (k + i) names)"
      using i(2) match_floating [of cs k "take (k + i) names"] by (simp add: cs drop_take k(2))
    moreover have "k + i \<le> length names"
      using i(1) k by auto
    ultimately show ?thesis
      by blast
  qed
qed

definition rule_rank :: "rule \<Rightarrow> nat" where
  "rule_rank r = 2 * length (the (rl_literal r)) + (if rl_floating r then 0 else 1)"

lemma subsumer_rank:
  assumes ok: "rule_ok r" "rule_ok other" and anc: "matchesAncestorOf other r" and differ: "rl_text other \<noteq> rl_text r"
    and lit: "rl_literal other = Some lo"
  shows "rule_rank other < rule_rank r"
proof -
  obtain ls i where ls: "rl_literal r = Some ls" and i: "i \<le> length ls" "matchComps (rl_comps other) (take i ls)"
    and float: "rl_floating r \<longrightarrow> rl_floating other"
    by (rule ancestorE [OF anc])
  obtain k where lo: "lo = drop k (take i ls)" "\<not> rl_floating other \<longrightarrow> k = 0"
  proof (cases "rl_floating other")
    case True
    then show ?thesis
      using i(2) rule_literal(3) [OF ok(2) lit] that by (auto simp: match_floating_literal)
  next
    case False
    then show ?thesis
      using i(2) rule_literal(3) [OF ok(2) lit] that [of 0] by (auto simp: matchComps_iff match_literal)
  qed
  show ?thesis
  proof (cases "lo = ls")
    case True
    then have "rl_floating other \<noteq> rl_floating r"
      using differ rule_literal(4) [OF ok(2) lit] rule_literal(4) [OF ok(1) ls] by (auto split: if_splits)
    then show ?thesis
      using True float lit ls by (auto simp: rule_rank_def)
  next
    case False
    have "length lo < length ls"
    proof (rule ccontr)
      assume "\<not> length lo < length ls"
      then have "length ls \<le> i - k"
        using lo(1) i(1) by simp
      moreover have "0 < length ls"
        using rule_literal(1) [OF ok(1) ls] by simp
      ultimately have "k = 0" "i = length ls"
        using i(1) by linarith+
      then show False
        using False lo(1) by auto
    qed
    then show ?thesis
      using lit ls by (simp add: rule_rank_def)
  qed
qed

lemma declared_ok: "table_ok bt ord \<Longrightarrow> r \<in> set (declared bt ord) \<Longrightarrow> rule_ok r"
  unfolding table_ok_def by force

lemma kept_rule:
  assumes ok: "table_ok bt ord" and r: "r \<in> set (declared bt ord)" and m: "matchComps (rl_comps r) names"
  shows "\<exists>r' \<in> set (declared bt ord). \<exists>k \<le> length names. \<not> subsumed r' bt ord \<and> matchComps (rl_comps r') (take k names)"
  using r m
proof (induction r arbitrary: names rule: measure_induct_rule [of rule_rank])
  case (less r)
  show ?case
  proof (cases "subsumed r bt ord")
    case False
    then show ?thesis
      using less.prems by (intro bexI [of _ r] exI [of _ "length names"]) simp_all
  next
    case True
    then obtain t other where other: "t \<in> set ord" "t \<noteq> rl_text r" "bt t = Some other" "matchesAncestorOf other r"
      by (auto simp: subsumed_def list_ex_iff split: if_splits option.splits)
    have oks: "rule_ok other" "rl_text other = t" "rule_ok r"
      using ok other(3) declared_ok [OF ok less.prems(1)] unfolding table_ok_def by blast+
    have mem: "other \<in> set (declared bt ord)"
      using other(1,3) by (auto intro!: image_eqI [of _ _ t])
    obtain k where k: "k \<le> length names" "matchComps (rl_comps other) (take k names)"
      using subsumer_matches [OF oks(3,1) other(4) less.prems(2)] by blast
    show ?thesis
    proof (cases "rl_literal other")
      case None
      then show ?thesis
        using k mem by (intro bexI [of _ other] exI [of _ k]) (simp_all add: subsumed_def)
    next
      case (Some lo)
      have "rule_rank other < rule_rank r"
        using subsumer_rank [OF oks(3,1) other(4) _ Some] other(2) oks(2) by simp
      from less.IH [OF this mem k(2)] obtain r' j where "r' \<in> set (declared bt ord)" "j \<le> length (take k names)"
        "\<not> subsumed r' bt ord" "matchComps (rl_comps r') (take j (take k names))"
        by blast
      then show ?thesis
        using k(1) by (intro bexI [of _ r'] exI [of _ j]) (simp_all add: min_absorb1)
    qed
  qed
qed

text \<open>The shortest routed prefix depends only on which prefixes have a routed prefix.\<close>

lemma least_from_one:
  "1 \<le> i \<Longrightarrow> R i \<and> (\<forall>j. 1 \<le> j \<longrightarrow> j < i \<longrightarrow> \<not> R j) \<longleftrightarrow>
     (\<exists>k \<le> i. 1 \<le> k \<and> R k) \<and> \<not> (\<exists>k \<le> i - 1. 1 \<le> k \<and> R k)" for i :: nat
  by (cases i) (auto simp: less_Suc_eq_le le_Suc_eq)

lemma topmost_cong:
  assumes "\<And>n. n \<le> length names \<Longrightarrow> (\<exists>k \<le> n. 1 \<le> k \<and> routes rs (take k names)) \<longleftrightarrow> (\<exists>k \<le> n. 1 \<le> k \<and> routes ss (take k names))"
  shows "topmost rs [] names i \<longleftrightarrow> topmost ss [] names i"
proof (cases "1 \<le> i \<and> i \<le> length names")
  case True
  then have "(\<exists>k \<le> i. 1 \<le> k \<and> routes rs (take k names)) \<longleftrightarrow> (\<exists>k \<le> i. 1 \<le> k \<and> routes ss (take k names))"
    "(\<exists>k \<le> i - 1. 1 \<le> k \<and> routes rs (take k names)) \<longleftrightarrow> (\<exists>k \<le> i - 1. 1 \<le> k \<and> routes ss (take k names))"
    by (intro assms; linarith)+
  then have "routes rs (take i names) \<and> (\<forall>j. 1 \<le> j \<longrightarrow> j < i \<longrightarrow> \<not> routes rs (take j names)) \<longleftrightarrow>
      routes ss (take i names) \<and> (\<forall>j. 1 \<le> j \<longrightarrow> j < i \<longrightarrow> \<not> routes ss (take j names))"
    using least_from_one [of i "\<lambda>k. routes rs (take k names)"] least_from_one [of i "\<lambda>k. routes ss (take k names)"] True by blast
  then show ?thesis
    unfolding topmost_def append_Nil by blast
next
  case False
  then show ?thesis
    unfolding topmost_def by blast
qed

text \<open>Dropping the redundant rules keeps every prefix routed that has a routed prefix.\<close>

lemma kept_routes:
  assumes ok: "table_ok bt ord" and n: "n \<le> length names"
  shows "(\<exists>k \<le> n. 1 \<le> k \<and> routes (filter (\<lambda>r. \<not> subsumed r bt ord) (declared bt ord)) (take k names)) \<longleftrightarrow>
    (\<exists>k \<le> n. 1 \<le> k \<and> routes (declared bt ord) (take k names))"
proof
  assume "\<exists>k \<le> n. 1 \<le> k \<and> routes (declared bt ord) (take k names)"
  then obtain k r where k: "k \<le> n" "1 \<le> k" "r \<in> set (declared bt ord)" "matchComps (rl_comps r) (take k names)"
    unfolding routes_def by blast
  obtain r' j where j: "r' \<in> set (declared bt ord)" "j \<le> length (take k names)" "\<not> subsumed r' bt ord"
    "matchComps (rl_comps r') (take j (take k names))"
    using kept_rule [OF ok k(3,4)] by blast
  have "j \<noteq> 0"
    using match_not_root [OF declared_ok [OF ok j(1)]] j(4) by (metis take_0)
  moreover have "j \<le> k" "take j (take k names) = take j names"
    using j(2) k(1) n by (simp_all add: min_absorb1)
  ultimately have "j \<le> n \<and> 1 \<le> j \<and> routes (filter (\<lambda>r. \<not> subsumed r bt ord) (declared bt ord)) (take j names)"
    using j(1,3,4) k(1) unfolding routes_def set_filter by fastforce
  then show "\<exists>k \<le> n. 1 \<le> k \<and> routes (filter (\<lambda>r. \<not> subsumed r bt ord) (declared bt ord)) (take k names)"
    by blast
next
  assume "\<exists>k \<le> n. 1 \<le> k \<and> routes (filter (\<lambda>r. \<not> subsumed r bt ord) (declared bt ord)) (take k names)"
  then show "\<exists>k \<le> n. 1 \<le> k \<and> routes (declared bt ord) (take k names)"
    unfolding routes_def set_filter by blast
qed

lemma topmost_set: "set rs = set ss \<Longrightarrow> topmost rs pre names i \<longleftrightarrow> topmost ss pre names i"
  by (simp add: topmost_def routes_def)

lemma parse_topmost:
  assumes "Parse data = Inr (Some c)" "parseLines 0 (split_on (CHR 0x0A) data) (\<lambda>_. None) [] = Inr (bt, ord)"
  shows "topmost (co_rules c) [] names i \<longleftrightarrow> topmost (declared bt ord) [] names i"
proof -
  note facts = Parse_declared [OF assms]
  have sorted: "table_ok bt (sort ord)"
    using facts(2) by (simp add: table_ok_def)
  have "topmost (co_rules c) [] names i \<longleftrightarrow> topmost (declared bt (sort ord)) [] names i"
    unfolding facts(1) newCore_fields by (rule topmost_cong) (rule kept_routes [OF sorted])
  also have "\<dots> \<longleftrightarrow> topmost (declared bt ord) [] names i"
    by (rule topmost_set) simp
  finally show ?thesis .
qed

end
