(* ===== verification/Route_Properties.thy ===== *)
theory Route_Properties
  imports Route_Subsumption
begin

text \<open>
  Properties of machine-local routes.
\<close>

text \<open>A declaration with one floating rule.\<close>

definition exRules :: string where
  "exRules = ''out/''"

definition exCore :: core where
  "exCore = newCore [makeRule True [litC ''out'']]"

lemma exRule: "compileRule ''out/'' = Inr (makeRule True [litC ''out''])"
  by (simp add: compileRule_def compileBody_def containsAny_def trimSuffix_def Protected_def allGlobstar_def Let_def suffix_def sublist_Cons_right)

lemma trim_none: "find (\<lambda>e. e \<noteq> [] \<and> prefix e s) es = None \<Longrightarrow> trimCodes es s = s"
  by (subst trimCodes.simps) simp

lemma exCore_parse: "Parse exRules = Inr (Some exCore)"
proof -
  have "cleanLine ''out/'' = ''out/''"
    by (simp add: cleanLine_def trimSpace_def trim_none space_codes_def trimSuffix_def suffix_to_prefix)
  then show ?thesis
    by (simp add: Parse_def exRules_def exRule exCore_def subsumed_def Let_def)
qed

lemma exCore_match: "MatchRule (Some exCore) ''src/out/x'' = Some (''src/out'', ''**/out/'')"
  by (simp add: exCore_def newCore_def addRule_def makeRule_def MatchRule_def unroutable_def Protected_def bestRule_def component_text_def Let_def)

text \<open> C29. Routing through the precompiled tables is routing by the rules: for every accepted declaration, a path is routed
  exactly when some prefix of routable names is matched by a rule, the root is the shortest such prefix, and the
  reported rule is the first in canonical order that matches it.\<close>

theorem match_rule_exact:
  assumes "Parse data = Inr (Some c)" "p \<noteq> []"
  shows "MatchRule (Some c) p = Some (root, text) \<longleftrightarrow>
    (\<exists>i k. topmost (co_rules c) [] (split_on (CHR ''/'') p) i \<and> root = join ''/'' (take i (split_on (CHR ''/'') p)) \<and>
       first_rule (co_rules c) (take i (split_on (CHR ''/'') p)) = Some k \<and> text = rl_text (co_rules c ! k))"
  by (rule match_rule_parts [OF assms])

theorem match_rule_exact_witness:
  "Parse exRules = Inr (Some exCore) \<and>
   (\<exists>i k. topmost (co_rules exCore) [] (split_on (CHR ''/'') ''src/out/x'') i \<and>
      first_rule (co_rules exCore) (take i (split_on (CHR ''/'') ''src/out/x'')) = Some k)"
  using match_rule_exact [OF exCore_parse, of "''src/out/x''" "''src/out''" "''**/out/''"] exCore_match exCore_parse
  by auto

text \<open> C30. A route root is never protected, malformed or the volume root, and everything below it is routed with it:
  a longer path with the same leading components has the same root and the same deciding rule.\<close>

theorem routing_prefix_closed:
  assumes "Parse data = Inr (Some c)" "MatchRule (Some c) p = Some (root, text)"
  shows "root \<noteq> [] \<and> (\<forall>n \<in> set (split_on (CHR ''/'') root). \<not> unroutable n) \<and>
    MatchRule (Some c) (p @ CHR ''/'' # below) = Some (root, text)"
proof -
  let ?s = "split_on (CHR ''/'')"
  have p: "p \<noteq> []" using assms(2) by (auto simp: MatchRule_def split: if_splits)
  obtain i k where i: "topmost (co_rules c) [] (?s p) i" "root = join ''/'' (take i (?s p))"
    "first_rule (co_rules c) (take i (?s p)) = Some k" "text = rl_text (co_rules c ! k)"
    using assms(2) match_rule_parts [OF assms(1) p] by blast
  have tk: "take i (?s p) \<noteq> []" "\<forall>n \<in> set (take i (?s p)). \<not> unroutable n" "i \<le> length (?s p)"
    using i(1) by (auto simp: topmost_def)
  have "\<forall>n \<in> set (take i (?s p)). CHR ''/'' \<notin> set n" using split_free by (metis in_set_takeD)
  then have sr: "?s root = take i (?s p)" unfolding i(2) by (intro split_join tk(1))
  have "root \<noteq> []"
  proof
    assume "root = []"
    then have "take i (?s p) = [[]]" using sr by simp
    with tk(2) show False by (simp add: unroutable_def)
  qed
  moreover have pre: "?s (p @ CHR ''/'' # below) = ?s p @ ?s below" by (rule split_app)
  have "take j (?s (p @ CHR ''/'' # below)) = take j (?s p)" if "j \<le> i" for j using that tk(3) by (simp add: pre)
  then have "topmost (co_rules c) [] (?s (p @ CHR ''/'' # below)) i"
    using i(1) tk(3) by (simp add: topmost_def pre)
  then have "MatchRule (Some c) (p @ CHR ''/'' # below) = Some (root, text)"
    using match_rule_parts [OF assms(1), of "p @ CHR ''/'' # below" root "text"] i(2-4) tk(3) p by (auto simp: pre)
  ultimately show ?thesis using tk(2) sr by simp
qed

theorem routing_prefix_closed_witness:
  "MatchRule (Some exCore) ''src/out/x/.git/config'' = Some (''src/out'', ''**/out/'')"
  using routing_prefix_closed [OF exCore_parse exCore_match, of "''.git/config''"] by simp

text \<open> C32. The greedy scan of one name with a single backtrack point decides what a pattern means: a star stands for
  any run of bytes, a question mark for one byte, every other byte for itself.\<close>

theorem glob_match_exact:
  "globMatch pat name \<longleftrightarrow> pattern_match (\<lambda>p. p = CHR ''*'') (\<lambda>p n. p = CHR ''?'' \<or> p = n) pat name"
  by (rule globMatch_iff)

text \<open> C31. The greedy scan of a path decides what a rule means: a double star stands for any run of complete components, every
  other component for one component it matches.\<close>

theorem component_match_exact:
  "matchComps pat comps \<longleftrightarrow> pattern_match cp_globstar component_match pat comps"
  by (rule matchComps_iff)

text \<open> C33. Dropping the literal rules that another rule makes redundant changes no route: the shortest routed prefix of
  every path under the parsed rules is the one under all rules of the declaration.\<close>

theorem redundant_rules_dropped:
  assumes "Parse data = Inr (Some c)" "parseLines 0 (split_on (CHR 0x0A) data) (\<lambda>_. None) [] = Inr (byText, order)"
  shows "topmost (co_rules c) [] names i \<longleftrightarrow> topmost (map (\<lambda>text. the (byText text)) order) [] names i"
  by (rule parse_topmost [OF assms])

theorem redundant_rules_dropped_witness:
  "\<exists>byText order. parseLines 0 (split_on (CHR 0x0A) exRules) (\<lambda>_. None) [] = Inr (byText, order) \<and>
     (topmost (co_rules exCore) [] [''src'', ''out''] 2 \<longleftrightarrow> topmost (map (\<lambda>text. the (byText text)) order) [] [''src'', ''out''] 2)"
proof -
  obtain byText order where "parseLines 0 (split_on (CHR 0x0A) exRules) (\<lambda>_. None) [] = Inr (byText, order)"
    using exCore_parse by (auto simp: Parse_def split: sum.splits)
  from this redundant_rules_dropped [OF exCore_parse this] show ?thesis
    by blast
qed

text \<open> C34. A parsed declaration is well formed: its rules stand in strictly increasing order of their texts, each is the
  rule its components make, these being literals, patterns and separated double stars of routable names that do not begin
  with a double star, every index of the lookup tables points at a rule, and the canonical form lists the texts.\<close>

theorem parse_well_formed:
  assumes "Parse data = Inr (Some c)"
  shows "sorted (map rl_text (co_rules c)) \<and> distinct (map rl_text (co_rules c)) \<and>
    list_all (\<lambda>r. \<exists>cs. r = makeRule (rl_floating r) cs \<and> comps_ok cs) (co_rules c) \<and>
    list_all (\<lambda>i. i < length (co_rules c)) (co_general c) \<and>
    ran (co_floatLit c) \<subseteq> {..<length (co_rules c)} \<and> ran (co_anchoredLit c) \<subseteq> {..<length (co_rules c)} \<and>
    Canonical (Some c) = concat (map (\<lambda>text. text @ [CHR 0x0A]) (Patterns (Some c)))"
proof -
  obtain rs where c: "c = newCore rs"
    by (rule Parse_rules [OF assms]) (rule that)
  have "ran (co_floatLit c) \<subseteq> {..<length rs}" "ran (co_anchoredLit c) \<subseteq> {..<length rs}"
    using newCore_lookup [of rs] by (force simp: c ran_def split: option.splits)+
  then show ?thesis
    using Parse_order [OF assms]
    by (auto simp: c newCore_fields list_all_iff rule_ok_def Canonical_def Patterns_def o_def)
qed

theorem parse_well_formed_witness: "ran (co_floatLit exCore) \<subseteq> {..<1}"
  using parse_well_formed [OF exCore_parse] by (simp add: exCore_def newCore_fields)

end
