(* ===== verification/Writer_Registry.thy ===== *)
theory Writer_Registry
  imports Lock_Range "HOL-Library.AList" "HOL-Library.Signed_Division"
begin

text \<open>
  Exclusive writer admission of the volume authority: the topology gate, \<^verbatim>\<open>topology_gate.go\<close>, the exclusion that follows
  one session, \<^verbatim>\<open>writer_exclusion.go\<close>, the registry of the writer, \<^verbatim>\<open>writer_registry.go\<close>, and its restart grace,
  \<^verbatim>\<open>coherence_admission.go\<close>, all under \<^verbatim>\<open>src/vcs/internal/volumeserver\<close>.

  Exclusions are objects shared by a session and the registry, so they live in a store and are named by their address
  in it. Durations are integers in nanoseconds; the guards of the code keep them within 64 bits, and that is
  proved. A reading of the continuous clock is its value together with whether it failed; the readings the
  operations take come from one stream, in the order of the calls. The map of retained exclusions is an association list
  whose order is the order of iteration. Callbacks into the session (its fence, the commit of an activation) and
  the watcher that fences an activation when its session ends are further calls of the operations below.
\<close>

section \<open>The topology gate\<close>

text \<open>The channel of the waiters is open or absent.\<close>

record topologyGate =
  tg_readers :: u64
  tg_writer :: bool
  tg_changed :: bool

datatype admission = Admitted | Exhausted | Cancelled | Waits

definition gate_acquire :: "bool \<Rightarrow> bool \<Rightarrow> topologyGate \<Rightarrow> admission \<times> topologyGate" where
  "gate_acquire contextDone exclusive g =
     (if contextDone then (Cancelled, g)
      else if \<not> tg_writer g \<and> (\<not> exclusive \<or> tg_readers g = 0) then
        if exclusive then (Admitted, g\<lparr>tg_writer := True\<rparr>)
        else if tg_readers g = MaxUint64 then (Exhausted, g)
        else (Admitted, g\<lparr>tg_readers := tg_readers g + 1\<rparr>)
      else (Waits, g\<lparr>tg_changed := True\<rparr>))"

text \<open>The panics of a release that was never acquired are the result \<open>None\<close>.\<close>

definition gate_release :: "bool \<Rightarrow> topologyGate \<Rightarrow> topologyGate option" where
  "gate_release exclusive g =
     (let wake = (\<lambda>g. if \<not> tg_writer g \<and> tg_readers g = 0 \<and> tg_changed g then g\<lparr>tg_changed := False\<rparr> else g) in
      if exclusive then
        if \<not> tg_writer g then None else Some (wake (g\<lparr>tg_writer := False\<rparr>))
      else
        if tg_readers g = 0 then None else Some (wake (g\<lparr>tg_readers := tg_readers g - 1\<rparr>)))"

section \<open>The exclusion of one session\<close>

type_synonym duration = int

abbreviation MaxInt64 :: duration where
  "MaxInt64 \<equiv> 9223372036854775807"

definition Millisecond :: duration where
  "Millisecond = 1000000"

definition Second :: duration where
  "Second = 1000 * Millisecond"

definition MaxCacheProof :: duration where
  "MaxCacheProof = 60 * Second"

record reading =
  rd_value :: duration
  rd_failed :: bool

record WriterExclusion =
  we_deadline :: duration
  we_last :: duration
  we_clockFailed :: bool
  we_stopped :: bool
  we_drained :: bool
  we_absent :: bool

definition newExclusion :: WriterExclusion where
  "newExclusion = \<lparr>we_deadline = 0, we_last = 0, we_clockFailed = False, we_stopped = False, we_drained = False, we_absent = False\<rparr>"

datatype writerError =
    ErrWriterExcluded | ErrSessionFenced | ErrSessionExpired | ErrMountProfile | ErrExclusionClock
  | ErrLeaseClock | ErrTakeoverSampled | ErrTakeoverClock | ErrMutationPoisoned nat | ErrPrepare nat

definition grant :: "duration \<Rightarrow> reading \<Rightarrow> WriterExclusion \<Rightarrow> writerError option \<times> WriterExclusion" where
  "grant remaining now e =
     (if we_stopped e then (Some ErrSessionFenced, e)
      else if we_clockFailed e \<or> rd_failed now \<or> rd_value now < we_last e \<or> rd_value now < 0 \<or>
              rd_value now > MaxInt64 - MaxCacheProof \<or> remaining < 0 \<or> remaining > MaxInt64 - rd_value now
      then (Some ErrExclusionClock, e\<lparr>we_clockFailed := True\<rparr>)
      else (None, e\<lparr>we_last := rd_value now, we_deadline := max (we_deadline e) (rd_value now + remaining)\<rparr>))"

definition exclusion_stop :: "bool \<Rightarrow> WriterExclusion \<Rightarrow> WriterExclusion" where
  "exclusion_stop absent e = e\<lparr>we_stopped := True, we_absent := (we_absent e \<or> absent)\<rparr>"

definition exclusion_drain :: "WriterExclusion \<Rightarrow> WriterExclusion" where
  "exclusion_drain e = e\<lparr>we_drained := True\<rparr>"

text \<open>Only a stopped and drained exclusion that is not absent reads the clock.\<close>

definition outstanding :: "reading \<Rightarrow> WriterExclusion \<Rightarrow> bool \<times> WriterExclusion" where
  "outstanding now e =
     (if \<not> we_stopped e \<or> \<not> we_drained e then (True, e)
      else if we_absent e then (False, e)
      else
        (let e = (if rd_failed now \<or> rd_value now < we_last e then e\<lparr>we_clockFailed := True\<rparr> else e);
             e = e\<lparr>we_last := rd_value now\<rparr> in
         (we_clockFailed e \<or> rd_value now < we_deadline e, e)))"

definition samples_clock :: "WriterExclusion \<Rightarrow> bool" where
  "samples_clock e \<longleftrightarrow> we_stopped e \<and> we_drained e \<and> \<not> we_absent e"

text \<open>The difference of two times saturates in Go, which the bounds put on it hide.\<close>

definition leaseRemaining :: "duration \<Rightarrow> duration \<Rightarrow> duration \<Rightarrow> duration \<Rightarrow> reading \<Rightarrow> duration option" where
  "leaseRemaining leaseExpires authorizationDeadline sessionLease now elapsed =
     (if rd_failed elapsed then None
      else Some (max 0 (min (leaseExpires - rd_value elapsed) (min (authorizationDeadline - now) sessionLease))))"

section \<open>The registry\<close>

type_synonym exclusionRef = nat

record WriterRegistry =
  wr_startupReady :: bool
  wr_owner :: SessionID
  wr_exclusion :: "exclusionRef option"
  wr_exclusions :: "(SessionID \<times> exclusionRef) list"
  wr_poisoned :: "writerError option"
  wr_restartDeadline :: duration
  wr_restartLast :: duration
  wr_restartStarted :: bool
  wr_restartFailed :: bool
  wr_store :: "exclusionRef \<Rightarrow> WriterExclusion"
  wr_fresh :: exclusionRef
  wr_clock :: nat

abbreviation clock_at :: "(nat \<Rightarrow> reading) \<Rightarrow> WriterRegistry \<Rightarrow> reading" where
  "clock_at clk c \<equiv> clk (wr_clock c)"

definition NewWriterRegistry :: "bool \<Rightarrow> WriterRegistry" where
  "NewWriterRegistry priorFenced =
     \<lparr>wr_startupReady = priorFenced, wr_owner = 0, wr_exclusion = None, wr_exclusions = [], wr_poisoned = None,
      wr_restartDeadline = 0, wr_restartLast = 0, wr_restartStarted = False, wr_restartFailed = False,
      wr_store = (\<lambda>_. newExclusion), wr_fresh = 0, wr_clock = 0\<rparr>"

text \<open>A nil exclusion is never closed.\<close>

definition exclusion_closed :: "WriterRegistry \<Rightarrow> exclusionRef option \<Rightarrow> bool" where
  "exclusion_closed c ref =
     (case ref of None \<Rightarrow> False | Some r \<Rightarrow> we_stopped (wr_store c r) \<or> we_clockFailed (wr_store c r))"

definition WriterRestartGrace :: duration where
  "WriterRestartGrace = MaxCacheProof + Second + (MaxCacheProof + 999) div 1000"

definition StartWriterGrace :: "(nat \<Rightarrow> reading) \<Rightarrow> WriterRegistry \<Rightarrow> writerError option \<times> WriterRegistry" where
  "StartWriterGrace clk c =
     (if wr_restartStarted c then (Some ErrTakeoverSampled, c)
      else
        (let now = clock_at clk c;
             c = c\<lparr>wr_restartStarted := True, wr_clock := wr_clock c + 1\<rparr> in
         if rd_failed now \<or> rd_value now < 0 \<or> rd_value now > MaxInt64 - WriterRestartGrace
         then (Some ErrTakeoverClock, c\<lparr>wr_restartFailed := True\<rparr>)
         else (None, c\<lparr>wr_restartLast := rd_value now, wr_restartDeadline := rd_value now + WriterRestartGrace\<rparr>)))"

definition priorWriterBlockedLocked :: "(nat \<Rightarrow> reading) \<Rightarrow> WriterRegistry \<Rightarrow> bool \<times> WriterRegistry" where
  "priorWriterBlockedLocked clk c =
     (if wr_startupReady c then (False, c)
      else if \<not> wr_restartStarted c \<or> wr_restartFailed c then (True, c)
      else
        (let now = clock_at clk c;
             c = c\<lparr>wr_clock := wr_clock c + 1\<rparr> in
         if rd_failed now \<or> rd_value now < wr_restartLast c then (True, c\<lparr>wr_restartFailed := True\<rparr>)
         else (rd_value now < wr_restartDeadline c, c\<lparr>wr_restartLast := rd_value now\<rparr>)))"

text \<open>One entry of the map: asked whether it is outstanding, deleted when it is not.\<close>

definition excluded_step ::
  "(nat \<Rightarrow> reading) \<Rightarrow> SessionID \<Rightarrow> SessionID \<times> exclusionRef \<Rightarrow> bool \<times> WriterRegistry \<Rightarrow> bool \<times> WriterRegistry" where
  "excluded_step clk source = (\<lambda>(sid, ref) (blocked, c).
     (let (out, e) = outstanding (clock_at clk c) (wr_store c ref);
          c = c\<lparr>wr_clock := (if samples_clock (wr_store c ref) then wr_clock c + 1 else wr_clock c),
                wr_store := (wr_store c)(ref := e)\<rparr> in
      if \<not> out then (blocked, c\<lparr>wr_exclusions := AList.delete sid (wr_exclusions c)\<rparr>)
      else (blocked \<or> sid \<noteq> source, c)))"

definition excludedLocked :: "(nat \<Rightarrow> reading) \<Rightarrow> SessionID \<Rightarrow> WriterRegistry \<Rightarrow> bool \<times> WriterRegistry" where
  "excludedLocked clk source c = fold (excluded_step clk source) (wr_exclusions c) (False, c)"

definition checkLocked :: "(nat \<Rightarrow> reading) \<Rightarrow> SessionID \<Rightarrow> bool \<Rightarrow> WriterRegistry \<Rightarrow> writerError option \<times> WriterRegistry" where
  "checkLocked clk source requireOwner c =
     (case wr_poisoned c of
        Some e \<Rightarrow> (Some e, c)
      | None \<Rightarrow>
          (let (prior, c) = priorWriterBlockedLocked clk c in
           if prior then (Some ErrWriterExcluded, c)
           else
             (let (blocked, c) = excludedLocked clk source c in
              if blocked then (Some ErrWriterExcluded, c)
              else if requireOwner then
                if wr_owner c \<noteq> source \<or> wr_exclusion c = None \<or> exclusion_closed c (wr_exclusion c)
                then (Some ErrSessionFenced, c) else (None, c)
              else if wr_owner c \<noteq> 0 \<and> (wr_owner c \<noteq> source \<or> exclusion_closed c (wr_exclusion c))
              then (Some ErrWriterExcluded, c)
              else (None, c))))"

definition CheckWriter where
  "CheckWriter clk source c = checkLocked clk source False c"

definition CheckOwner where
  "CheckOwner clk source c = checkLocked clk source True c"

text \<open>
  Activation up to the commit. \<open>missing\<close> is whether one of the channel and the two callbacks is nil, \<open>terminal\<close> whether the
  session has ended, \<open>prepare\<close> the outcome of preparing the reply.
\<close>

definition Activate ::
  "(nat \<Rightarrow> reading) \<Rightarrow> SessionID \<Rightarrow> bool \<Rightarrow> bool \<Rightarrow> exclusionRef option \<Rightarrow> writerError option \<Rightarrow> WriterRegistry
     \<Rightarrow> writerError option \<times> WriterRegistry" where
  "Activate clk sid missing terminal exclusion prepare c =
     (if sid = 0 \<or> missing \<or> exclusion = None then (Some ErrMountProfile, c)
      else if \<not> wr_startupReady c then (Some ErrWriterExcluded, c)
      else
        (case checkLocked clk sid False c of
           (Some e, c) \<Rightarrow> (Some e, c)
         | (None, c) \<Rightarrow>
             if wr_owner c \<noteq> 0 then (Some ErrWriterExcluded, c)
             else if terminal then (Some ErrSessionFenced, c)
             else if exclusion_closed c exclusion then (Some ErrSessionFenced, c)
             else (case prepare of
                 Some e \<Rightarrow> (Some e, c)
               | None \<Rightarrow> (None, c\<lparr>wr_owner := sid, wr_exclusion := exclusion\<rparr>))))"

definition retireLocked :: "SessionID \<Rightarrow> bool \<Rightarrow> WriterRegistry \<Rightarrow> WriterRegistry" where
  "retireLocked sid absent c =
     (case wr_exclusion c of
        None \<Rightarrow> c
      | Some ref \<Rightarrow>
          if wr_owner c \<noteq> sid then c
          else c\<lparr>wr_store := (wr_store c)(ref := exclusion_stop absent (wr_store c ref)),
                 wr_exclusions := AList.update sid ref (wr_exclusions c), wr_owner := 0, wr_exclusion := None\<rparr>)"

definition registry_Fence :: "SessionID \<Rightarrow> WriterRegistry \<Rightarrow> WriterRegistry" where
  "registry_Fence sid c = retireLocked sid False c"

definition registry_Remove :: "SessionID \<Rightarrow> WriterRegistry \<Rightarrow> WriterRegistry" where
  "registry_Remove sid c =
     (let c = retireLocked sid True c in
      case map_of (wr_exclusions c) sid of
        None \<Rightarrow> c
      | Some ref \<Rightarrow> c\<lparr>wr_store := (wr_store c)(ref := exclusion_stop True (wr_store c ref))\<rparr>)"

definition SweepExclusions :: "(nat \<Rightarrow> reading) \<Rightarrow> WriterRegistry \<Rightarrow> WriterRegistry" where
  "SweepExclusions clk c = snd (excludedLocked clk 0 c)"

definition Poison :: "nat \<Rightarrow> WriterRegistry \<Rightarrow> writerError \<times> WriterRegistry" where
  "Poison cause c =
     (let c = (if wr_poisoned c = None then c\<lparr>wr_poisoned := Some (ErrMutationPoisoned cause)\<rparr> else c);
          owner = wr_owner c;
          c = (if owner \<noteq> 0 then retireLocked owner False c else c) in
      (case wr_poisoned c of Some e \<Rightarrow> e | None \<Rightarrow> ErrMutationPoisoned cause, c))"

section \<open>The exclusion of a live session\<close>

text \<open>The part of a session the exclusion follows; a session that ended has left the table of the authority.\<close>

record writerSession =
  ws_fenced :: bool
  ws_ending :: bool
  ws_exclusion :: "exclusionRef option"

type_synonym sessionTable = "SessionID \<rightharpoonup> writerSession"

definition Authority_WriterExclusion ::
  "SessionID \<Rightarrow> sessionTable \<times> WriterRegistry \<Rightarrow> (writerError + exclusionRef) \<times> sessionTable \<times> WriterRegistry" where
  "Authority_WriterExclusion sid = (\<lambda>(sessions, c).
     (case sessions sid of
        None \<Rightarrow> (Inl ErrSessionExpired, sessions, c)
      | Some s \<Rightarrow>
          if ws_fenced s \<or> ws_ending s then (Inl ErrSessionFenced, sessions, c)
          else (case ws_exclusion s of
              Some ref \<Rightarrow> (Inr ref, sessions, c)
            | None \<Rightarrow>
                (let ref = wr_fresh c in
                 (Inr ref, sessions(sid \<mapsto> s\<lparr>ws_exclusion := Some ref\<rparr>),
                  c\<lparr>wr_store := (wr_store c)(ref := newExclusion), wr_fresh := ref + 1\<rparr>)))))"

text \<open>Go divides toward zero, which is \<open>sdiv\<close>.\<close>

definition proofRemaining :: "duration \<Rightarrow> duration \<Rightarrow> duration" where
  "proofRemaining sessionLease remaining =
     min remaining (min (sessionLease sdiv Millisecond * Millisecond) MaxCacheProof) sdiv Millisecond * Millisecond"

text \<open>The proof of one renewal: \<open>live\<close> is that the session is active and neither fenced nor ending.\<close>

definition RenewalProof ::
  "(nat \<Rightarrow> reading) \<Rightarrow> bool \<Rightarrow> duration \<Rightarrow> duration \<Rightarrow> duration \<Rightarrow> duration \<Rightarrow> exclusionRef option \<Rightarrow> WriterRegistry
     \<Rightarrow> (writerError + duration) \<times> WriterRegistry" where
  "RenewalProof clk live leaseExpires authorizationDeadline sessionLease now exclusion c =
     (case exclusion of
        None \<Rightarrow> (Inl ErrSessionFenced, c)
      | Some ref \<Rightarrow>
          if \<not> live then (Inl ErrSessionFenced, c)
          else
            (let lease = leaseRemaining leaseExpires authorizationDeadline sessionLease now (clock_at clk c);
                 c = c\<lparr>wr_clock := wr_clock c + 1\<rparr> in
             case lease of
               None \<Rightarrow> (Inl ErrLeaseClock, c\<lparr>wr_store := (wr_store c)(ref := (wr_store c ref)\<lparr>we_clockFailed := True\<rparr>)\<rparr>)
             | Some remaining \<Rightarrow>
                 (let remaining = proofRemaining sessionLease remaining;
                      (err, e) = grant remaining (clock_at clk c) (wr_store c ref);
                      c = c\<lparr>wr_clock := (if we_stopped (wr_store c ref) then wr_clock c else wr_clock c + 1),
                            wr_store := (wr_store c)(ref := e)\<rparr> in
                  case err of
                    Some failure \<Rightarrow> (Inl failure, c)
                  | None \<Rightarrow> (if remaining \<le> 0 then Inl ErrSessionExpired else Inr remaining, c))))"

end
