(* ===== verification/Writer_Safety.thy ===== *)
theory Writer_Safety
  imports Writer_Registry
begin

text \<open>
  How the exclusions, the registry and the sessions evolve together: an exclusion object only moves toward
  its discharge, an activated session is the owner, retained or discharged, and every reachable state keeps the
  books that the admission of a foreign writer relies on.
\<close>

section \<open>Exclusions only move toward their discharge\<close>

definition exclusion_le :: "WriterExclusion \<Rightarrow> WriterExclusion \<Rightarrow> bool" where
  "exclusion_le e e' \<longleftrightarrow> (we_stopped e \<longrightarrow> we_stopped e' \<and> we_deadline e' = we_deadline e) \<and> (we_drained e \<longrightarrow> we_drained e') \<and>
     (we_absent e \<longrightarrow> we_absent e') \<and> (we_clockFailed e \<longrightarrow> we_clockFailed e') \<and> we_deadline e \<le> we_deadline e'"

lemma exclusion_le_refl [simp, intro]: "exclusion_le e e"
  by (simp add: exclusion_le_def)

lemma exclusion_le_trans: "exclusion_le e e' \<Longrightarrow> exclusion_le e' e'' \<Longrightarrow> exclusion_le e e''"
  by (auto simp: exclusion_le_def)

lemma grant_le: "exclusion_le e (snd (grant remaining now e))"
  by (simp add: grant_def exclusion_le_def)

lemma stop_le: "exclusion_le e (exclusion_stop absent e)"
  by (simp add: exclusion_stop_def exclusion_le_def)

lemma drain_le: "exclusion_le e (exclusion_drain e)"
  by (simp add: exclusion_drain_def exclusion_le_def)

lemma outstanding_le: "exclusion_le e (snd (outstanding now e))"
  by (simp add: outstanding_def exclusion_le_def Let_def)

lemma clockFailed_le: "exclusion_le e (e\<lparr>we_clockFailed := True\<rparr>)"
  by (simp add: exclusion_le_def)

lemmas exclusion_le_rules = grant_le stop_le drain_le outstanding_le clockFailed_le

definition registry_le :: "WriterRegistry \<Rightarrow> WriterRegistry \<Rightarrow> bool" where
  "registry_le c c' \<longleftrightarrow> wr_clock c \<le> wr_clock c' \<and> wr_fresh c \<le> wr_fresh c' \<and>
     (\<forall>ref < wr_fresh c. exclusion_le (wr_store c ref) (wr_store c' ref))"

lemma registry_le_refl [simp, intro]: "registry_le c c"
  by (simp add: registry_le_def)

lemma registry_le_trans: "registry_le c c' \<Longrightarrow> registry_le c' c'' \<Longrightarrow> registry_le c c''"
  unfolding registry_le_def by (meson exclusion_le_trans le_trans order_less_le_trans)

text \<open>The time an exclusion promised has passed at some reading that did not fail, or the mount is known to be absent.\<close>

definition discharged :: "(nat \<Rightarrow> reading) \<Rightarrow> WriterRegistry \<Rightarrow> exclusionRef \<Rightarrow> bool" where
  "discharged clk c ref \<longleftrightarrow> we_stopped (wr_store c ref) \<and> we_drained (wr_store c ref) \<and>
     (we_absent (wr_store c ref) \<or>
      (\<exists>n < wr_clock c. \<not> rd_failed (clk n) \<and> we_deadline (wr_store c ref) \<le> rd_value (clk n)))"

lemma discharged_le: "discharged clk c ref \<Longrightarrow> registry_le c c' \<Longrightarrow> ref < wr_fresh c \<Longrightarrow> discharged clk c' ref"
  unfolding discharged_def registry_le_def exclusion_le_def by (metis order_less_le_trans)

lemma outstanding_discharges:
  assumes "outstanding now e = (False, e')"
  shows "we_stopped e' \<and> we_drained e' \<and> (we_absent e' \<or> samples_clock e \<and> \<not> rd_failed now \<and> we_deadline e' \<le> rd_value now)"
  using assms by (auto simp: outstanding_def samples_clock_def Let_def split: if_splits)

section \<open>The sweep of the retained exclusions\<close>

definition same_owner :: "WriterRegistry \<Rightarrow> WriterRegistry \<Rightarrow> bool" where
  "same_owner c c' \<longleftrightarrow> wr_owner c' = wr_owner c \<and> wr_exclusion c' = wr_exclusion c \<and> wr_fresh c' = wr_fresh c \<and>
     wr_startupReady c' = wr_startupReady c \<and> wr_restartStarted c' = wr_restartStarted c \<and>
     wr_restartDeadline c' = wr_restartDeadline c \<and> wr_poisoned c' = wr_poisoned c"

text \<open>What a sweep may do: drop entries, each of them discharged.\<close>

definition swept :: "(nat \<Rightarrow> reading) \<Rightarrow> WriterRegistry \<Rightarrow> WriterRegistry \<Rightarrow> bool" where
  "swept clk c c' \<longleftrightarrow> registry_le c c' \<and> same_owner c c' \<and> wr_restartFailed c' = wr_restartFailed c \<and>
     wr_restartLast c' = wr_restartLast c \<and>
     set (wr_exclusions c') \<subseteq> set (wr_exclusions c) \<and> distinct (map fst (wr_exclusions c')) \<and>
     (\<forall>(sid, ref) \<in> set (wr_exclusions c) - set (wr_exclusions c'). discharged clk c' ref)"

lemma swept_refl: "distinct (map fst (wr_exclusions c)) \<Longrightarrow> swept clk c c"
  by (simp add: swept_def same_owner_def)

lemma swept_trans:
  assumes "swept clk c c'" "swept clk c' c''" "\<forall>(sid, ref) \<in> set (wr_exclusions c). ref < wr_fresh c"
  shows "swept clk c c''"
proof -
  have "discharged clk c'' ref" if "(sid, ref) \<in> set (wr_exclusions c)" "(sid, ref) \<notin> set (wr_exclusions c'')" for sid ref
  proof (cases "(sid, ref) \<in> set (wr_exclusions c')")
    case True
    then show ?thesis
      using assms(2) that by (auto simp: swept_def)
  next
    case False
    then have "discharged clk c' ref"
      using assms(1) that by (auto simp: swept_def)
    moreover have "ref < wr_fresh c'"
      using assms(1,3) that by (auto simp: swept_def same_owner_def)
    ultimately show ?thesis
      using discharged_le assms(2) unfolding swept_def by blast
  qed
  then have gone: "\<forall>(sid, ref) \<in> set (wr_exclusions c) - set (wr_exclusions c''). discharged clk c'' ref"
    by blast
  have le: "registry_le c c''"
    using assms(1,2) registry_le_trans unfolding swept_def by blast
  have sub: "set (wr_exclusions c'') \<subseteq> set (wr_exclusions c)"
    using assms(1,2) unfolding swept_def by blast
  have "same_owner c c'' \<and> wr_restartFailed c'' = wr_restartFailed c \<and> wr_restartLast c'' = wr_restartLast c"
    using assms(1,2) unfolding swept_def same_owner_def by metis
  then show ?thesis
    using gone le sub assms(2) unfolding swept_def by blast
qed

lemma excluded_step_swept:
  assumes "excluded_step clk source (sid, ref) (b, c) = (b', c')" "distinct (map fst (wr_exclusions c))"
    "(sid, ref) \<in> set (wr_exclusions c)"
  shows "swept clk c c'"
    and "set (wr_exclusions c) - {(sid, ref)} \<subseteq> set (wr_exclusions c')"
    and "b \<longrightarrow> b'" and "(sid, ref) \<in> set (wr_exclusions c') \<longrightarrow> sid \<noteq> source \<longrightarrow> b'"
proof -
  obtain out e where out: "outstanding (clock_at clk c) (wr_store c ref) = (out, e)"
    by fastforce
  define d where "d = c\<lparr>wr_clock := (if samples_clock (wr_store c ref) then wr_clock c + 1 else wr_clock c),
                wr_store := (wr_store c)(ref := e)\<rparr>"
  have step: "(b', c') = (if \<not> out then (b, d\<lparr>wr_exclusions := AList.delete sid (wr_exclusions c)\<rparr>) else (b \<or> sid \<noteq> source, d))"
    using assms(1) by (auto simp: excluded_step_def out d_def Let_def)
  have le: "registry_le c d" "registry_le c (d\<lparr>wr_exclusions := AList.delete sid (wr_exclusions c)\<rparr>)"
    using outstanding_le [of "wr_store c ref" "clock_at clk c"] by (auto simp: registry_le_def d_def out)
  have gone: "(x, r) \<in> set (wr_exclusions c) \<Longrightarrow> (x, r) \<notin> set (AList.delete sid (wr_exclusions c)) \<longleftrightarrow> x = sid" for x r
    by (auto simp: AList.delete_eq)
  have one: "(sid, r) \<in> set (wr_exclusions c) \<Longrightarrow> r = ref" for r
    using assms(2,3) by (metis map_of_is_SomeI option.inject)
  have sub: "set (AList.delete sid (wr_exclusions c)) \<subseteq> set (wr_exclusions c)"
    by (auto simp: AList.delete_eq)
  have dis: "discharged clk (d\<lparr>wr_exclusions := AList.delete sid (wr_exclusions c)\<rparr>) ref" if "\<not> out"
    using outstanding_discharges [of "clock_at clk c" "wr_store c ref" e] out that
    by (auto simp: discharged_def d_def)
  show "swept clk c c'"
    using step le sub gone one dis assms(2) unfolding swept_def same_owner_def
    by (auto simp: d_def distinct_delete split: if_splits)
  show "set (wr_exclusions c) - {(sid, ref)} \<subseteq> set (wr_exclusions c')"
    using step gone one by (auto simp: d_def split: if_splits)
  show "b \<longrightarrow> b'" "(sid, ref) \<in> set (wr_exclusions c') \<longrightarrow> sid \<noteq> source \<longrightarrow> b'"
    using step by (auto simp: AList.delete_eq split: if_splits)
qed

lemma excluded_fold:
  assumes "fold (excluded_step clk source) xs (b, c) = (b', c')" "distinct (map fst (wr_exclusions c))" "distinct xs"
    "set xs \<subseteq> set (wr_exclusions c)" "\<forall>(sid, ref) \<in> set (wr_exclusions c). ref < wr_fresh c"
  shows "swept clk c c' \<and> (b \<longrightarrow> b') \<and> (\<forall>(sid, ref) \<in> set xs. (sid, ref) \<in> set (wr_exclusions c') \<longrightarrow> sid \<noteq> source \<longrightarrow> b')"
  using assms
proof (induction xs arbitrary: b c)
  case Nil
  then show ?case
    by (simp add: swept_refl)
next
  case (Cons x xs)
  obtain sid ref where x: "x = (sid, ref)"
    by fastforce
  obtain b1 c1 where step: "excluded_step clk source (sid, ref) (b, c) = (b1, c1)"
    by fastforce
  have "(sid, ref) \<in> set (wr_exclusions c)"
    using Cons.prems(4) by (simp add: x)
  note facts = excluded_step_swept [OF step Cons.prems(2) this]
  have "set xs \<subseteq> set (wr_exclusions c1)"
    using Cons.prems(3,4) facts(2) by (auto simp: x)
  moreover have "\<forall>(sid, ref) \<in> set (wr_exclusions c1). ref < wr_fresh c1"
    using Cons.prems(5) facts(1) by (auto simp: swept_def same_owner_def)
  ultimately have rest: "swept clk c1 c' \<and> (b1 \<longrightarrow> b') \<and>
      (\<forall>(sid, ref) \<in> set xs. (sid, ref) \<in> set (wr_exclusions c') \<longrightarrow> sid \<noteq> source \<longrightarrow> b')"
    using Cons.IH [of b1 c1] Cons.prems(1,3) facts(1) by (simp add: x step swept_def)
  have "set (wr_exclusions c') \<subseteq> set (wr_exclusions c1)"
    using rest by (simp add: swept_def)
  then show ?case
    using rest facts swept_trans [OF facts(1) _ Cons.prems(5)] by (auto simp: x)
qed

lemma excludedLocked_swept:
  assumes "excludedLocked clk source c = (b, c')" "distinct (map fst (wr_exclusions c))"
    "\<forall>(sid, ref) \<in> set (wr_exclusions c). ref < wr_fresh c"
  shows "swept clk c c'" and "\<not> b \<Longrightarrow> (sid, ref) \<in> set (wr_exclusions c') \<Longrightarrow> sid = source"
proof -
  have "distinct (wr_exclusions c)"
    using assms(2) by (simp add: distinct_map)
  note all = excluded_fold [OF assms(1) [unfolded excludedLocked_def] assms(2) this order_refl assms(3)]
  then show "swept clk c c'"
    by blast
  show "sid = source" if "\<not> b" "(sid, ref) \<in> set (wr_exclusions c')"
    using all that unfolding swept_def by blast
qed

section \<open>The books of the registry\<close>

text \<open>
  \<open>bound\<close> is the exclusion each session was given, \<open>activated\<close> the sessions that were ever activated, with their exclusion.
\<close>

definition accounted :: "(nat \<Rightarrow> reading) \<Rightarrow> WriterRegistry \<Rightarrow> SessionID \<Rightarrow> exclusionRef \<Rightarrow> bool" where
  "accounted clk c sid ref \<longleftrightarrow> discharged clk c ref \<or> wr_owner c = sid \<and> wr_exclusion c = Some ref \<or>
     (sid, ref) \<in> set (wr_exclusions c)"

definition grace_sampled :: "(nat \<Rightarrow> reading) \<Rightarrow> WriterRegistry \<Rightarrow> bool" where
  "grace_sampled clk c \<longleftrightarrow> (\<exists>k < wr_clock c. \<not> rd_failed (clk k) \<and> 0 \<le> rd_value (clk k) \<and>
     wr_restartDeadline c = rd_value (clk k) + WriterRestartGrace \<and> wr_restartDeadline c \<le> MaxInt64)"

definition registry_inv ::
  "(nat \<Rightarrow> reading) \<Rightarrow> (SessionID \<rightharpoonup> exclusionRef) \<Rightarrow> (SessionID \<times> exclusionRef) set \<Rightarrow> WriterRegistry \<Rightarrow> bool" where
  "registry_inv clk bound activated c \<longleftrightarrow>
     (\<forall>(sid, ref) \<in> activated. bound sid = Some ref \<and> accounted clk c sid ref) \<and>
     distinct (map fst (wr_exclusions c)) \<and> (\<forall>(sid, ref) \<in> set (wr_exclusions c). bound sid = Some ref) \<and>
     (\<forall>ref. wr_exclusion c = Some ref \<longrightarrow> wr_owner c \<noteq> 0 \<and> bound (wr_owner c) = Some ref) \<and>
     (\<forall>sid ref. bound sid = Some ref \<longrightarrow> ref < wr_fresh c) \<and>
     (wr_restartStarted c \<and> \<not> wr_restartFailed c \<longrightarrow> grace_sampled clk c)"

lemma registry_invI:
  assumes "\<And>sid ref. (sid, ref) \<in> activated \<Longrightarrow> bound sid = Some ref"
    "\<And>sid ref. (sid, ref) \<in> activated \<Longrightarrow> accounted clk c sid ref"
    "distinct (map fst (wr_exclusions c))" "\<And>sid ref. (sid, ref) \<in> set (wr_exclusions c) \<Longrightarrow> bound sid = Some ref"
    "\<And>ref. wr_exclusion c = Some ref \<Longrightarrow> wr_owner c \<noteq> 0 \<and> bound (wr_owner c) = Some ref"
    "\<And>sid ref. bound sid = Some ref \<Longrightarrow> ref < wr_fresh c"
    "wr_restartStarted c \<Longrightarrow> \<not> wr_restartFailed c \<Longrightarrow> grace_sampled clk c"
  shows "registry_inv clk bound activated c"
  using assms unfolding registry_inv_def by blast

lemma registry_invD:
  assumes "registry_inv clk bound activated c"
  shows "(sid, ref) \<in> activated \<Longrightarrow> bound sid = Some ref"
    and "(sid, ref) \<in> activated \<Longrightarrow> accounted clk c sid ref"
    and "distinct (map fst (wr_exclusions c))" and "(sid, ref) \<in> set (wr_exclusions c) \<Longrightarrow> bound sid = Some ref"
    and "wr_exclusion c = Some ref \<Longrightarrow> wr_owner c \<noteq> 0 \<and> bound (wr_owner c) = Some ref"
    and "bound sid = Some ref \<Longrightarrow> ref < wr_fresh c"
    and "wr_restartStarted c \<Longrightarrow> \<not> wr_restartFailed c \<Longrightarrow> grace_sampled clk c"
  using assms unfolding registry_inv_def by blast+

lemma retained_fresh:
  assumes "registry_inv clk bound activated c"
  shows "\<forall>(sid, ref) \<in> set (wr_exclusions c). ref < wr_fresh c"
  using registry_invD(4,6) [OF assms] by blast

lemma grace_sampled_le:
  "grace_sampled clk c \<Longrightarrow> registry_le c c' \<Longrightarrow> wr_restartDeadline c' = wr_restartDeadline c \<Longrightarrow> grace_sampled clk c'"
  unfolding grace_sampled_def registry_le_def by (metis order_less_le_trans)

text \<open>A change of the registry keeps its books when it keeps the owner and drops only discharged entries.\<close>

lemma registry_inv_kept:
  assumes inv: "registry_inv clk bound activated c" and le: "registry_le c c'" and same: "same_owner c c'"
    and failed: "wr_restartFailed c \<longrightarrow> wr_restartFailed c'"
    and sub: "set (wr_exclusions c') \<subseteq> set (wr_exclusions c)" and dist: "distinct (map fst (wr_exclusions c'))"
    and dropped: "\<And>sid ref. (sid, ref) \<in> set (wr_exclusions c) \<Longrightarrow> (sid, ref) \<notin> set (wr_exclusions c') \<Longrightarrow> discharged clk c' ref"
  shows "registry_inv clk bound activated c'"
proof (rule registry_invI)
  fix sid ref
  assume act: "(sid, ref) \<in> activated"
  then show bound: "bound sid = Some ref"
    by (rule registry_invD(1) [OF inv])
  show "accounted clk c' sid ref"
    using registry_invD(2) [OF inv act] discharged_le [OF _ le registry_invD(6) [OF inv bound]] dropped same
    unfolding accounted_def same_owner_def by metis
next
  show "distinct (map fst (wr_exclusions c'))"
    by (rule dist)
  show "bound sid = Some ref" if "(sid, ref) \<in> set (wr_exclusions c')" for sid ref
    using sub that registry_invD(4) [OF inv] by blast
  show "wr_owner c' \<noteq> 0 \<and> bound (wr_owner c') = Some ref" if "wr_exclusion c' = Some ref" for ref
    using same that registry_invD(5) [OF inv, of ref] by (simp add: same_owner_def)
  show "ref < wr_fresh c'" if "bound sid = Some ref" for sid ref
    using same registry_invD(6) [OF inv that] by (simp add: same_owner_def)
  show "grace_sampled clk c'" if "wr_restartStarted c'" "\<not> wr_restartFailed c'"
    using same that failed grace_sampled_le [OF registry_invD(7) [OF inv] le] by (simp add: same_owner_def)
qed

lemma swept_inv: "registry_inv clk bound activated c \<Longrightarrow> swept clk c c' \<Longrightarrow> registry_inv clk bound activated c'"
  by (rule registry_inv_kept [of clk bound activated c c']) (auto simp: swept_def)

text \<open>A change of one object, with the clock.\<close>

lemma object_update:
  assumes "registry_inv clk bound activated c" "exclusion_le (wr_store c ref) e" "wr_clock c \<le> n"
  shows "registry_inv clk bound activated (c\<lparr>wr_clock := n, wr_store := (wr_store c)(ref := e)\<rparr>)"
    and "registry_le c (c\<lparr>wr_clock := n, wr_store := (wr_store c)(ref := e)\<rparr>)"
proof -
  show le: "registry_le c (c\<lparr>wr_clock := n, wr_store := (wr_store c)(ref := e)\<rparr>)"
    using assms by (simp add: registry_le_def)
  show "registry_inv clk bound activated (c\<lparr>wr_clock := n, wr_store := (wr_store c)(ref := e)\<rparr>)"
    by (rule registry_inv_kept [OF assms(1) le]) (use registry_invD(3) [OF assms(1)] in \<open>auto simp: same_owner_def\<close>)
qed

lemma prior_kept:
  assumes "registry_inv clk bound activated c" "priorWriterBlockedLocked clk c = (b, c')"
  shows "registry_inv clk bound activated c'" and "registry_le c c'" and "same_owner c c'"
    and "wr_exclusions c' = wr_exclusions c"
proof -
  have facts: "registry_le c c'" "same_owner c c'" "wr_restartFailed c \<longrightarrow> wr_restartFailed c'" "wr_exclusions c' = wr_exclusions c"
    using assms(2) by (auto simp: priorWriterBlockedLocked_def registry_le_def same_owner_def Let_def split: if_splits)
  then show "registry_le c c'" "same_owner c c'" "wr_exclusions c' = wr_exclusions c"
    by blast+
  show "registry_inv clk bound activated c'"
    by (rule registry_inv_kept [OF assms(1) facts(1-3)]) (use facts(4) registry_invD(3) [OF assms(1)] in auto)
qed

lemma check_kept:
  assumes inv: "registry_inv clk bound activated c" and check: "checkLocked clk source own c = (r, c')"
  shows "registry_inv clk bound activated c' \<and> registry_le c c' \<and> same_owner c c'"
proof (cases "wr_poisoned c")
  case (Some e)
  then show ?thesis
    using inv check by (simp add: checkLocked_def same_owner_def)
next
  case None
  obtain prior c1 where prior: "priorWriterBlockedLocked clk c = (prior, c1)"
    by fastforce
  obtain b c2 where ex: "excludedLocked clk source c1 = (b, c2)"
    by fastforce
  note kept = prior_kept [OF inv prior]
  note sw = excludedLocked_swept(1) [OF ex registry_invD(3) [OF kept(1)] retained_fresh [OF kept(1)]]
  have "c' = c1 \<or> c' = c2"
    using check by (auto simp: checkLocked_def None prior ex split: if_splits)
  then show ?thesis
    using kept swept_inv [OF kept(1) sw] sw registry_le_trans [OF kept(2)] unfolding swept_def same_owner_def by metis
qed

lemma set_update_same:
  assumes "\<And>w. (k, w) \<in> set xs \<Longrightarrow> w = v"
  shows "set (AList.update k v xs) = insert (k, v) (set xs)"
  using assms by (induction xs) auto

lemma retire_owner_kept:
  assumes inv: "registry_inv clk bound activated c" and ref: "wr_owner c = sid" "wr_exclusion c = Some ref"
    and d: "d = c\<lparr>wr_store := (wr_store c)(ref := exclusion_stop absent (wr_store c ref)),
        wr_exclusions := AList.update sid ref (wr_exclusions c), wr_owner := 0, wr_exclusion := None\<rparr>"
  shows "registry_inv clk bound activated d" and "registry_le c d"
proof -
  show le: "registry_le c d"
    by (simp add: d registry_le_def stop_le)
  have bound: "bound sid = Some ref"
    using registry_invD(5) [OF inv ref(2)] ref(1) by simp
  have old: "(sid, r) \<in> set (wr_exclusions c) \<Longrightarrow> r = ref" for r
    using registry_invD(4) [OF inv, of sid r] bound by simp
  have exs: "set (wr_exclusions d) = insert (sid, ref) (set (wr_exclusions c))"
    using set_update_same [OF old] by (simp add: d)
  show "registry_inv clk bound activated d"
  proof (rule registry_invI)
    fix s r
    assume act: "(s, r) \<in> activated"
    then show b: "bound s = Some r"
      by (rule registry_invD(1) [OF inv])
    show "accounted clk d s r"
      using registry_invD(2) [OF inv act] discharged_le [OF _ le registry_invD(6) [OF inv b]] ref exs
      unfolding accounted_def by fastforce
  next
    show "distinct (map fst (wr_exclusions d))"
      by (simp add: d distinct_update registry_invD(3) [OF inv])
    show "bound s = Some r" if "(s, r) \<in> set (wr_exclusions d)" for s r
      using that exs bound registry_invD(4) [OF inv, of s r] by auto
    show "wr_owner d \<noteq> 0 \<and> bound (wr_owner d) = Some r" if "wr_exclusion d = Some r" for r
      using that by (simp add: d)
    show "r < wr_fresh d" if "bound s = Some r" for s r
      using registry_invD(6) [OF inv that] by (simp add: d)
    show "grace_sampled clk d" if "wr_restartStarted d" "\<not> wr_restartFailed d"
      using that grace_sampled_le [OF registry_invD(7) [OF inv] le] by (simp add: d)
  qed
qed

lemma retire_kept:
  assumes inv: "registry_inv clk bound activated c"
  shows "registry_inv clk bound activated (retireLocked sid absent c)" and "registry_le c (retireLocked sid absent c)"
proof -
  have "retireLocked sid absent c = c \<or> wr_owner c = sid \<and> wr_exclusion c \<noteq> None"
    by (auto simp: retireLocked_def split: option.splits)
  then have both: "registry_inv clk bound activated (retireLocked sid absent c) \<and> registry_le c (retireLocked sid absent c)"
    using inv retire_owner_kept [OF inv] by (auto simp: retireLocked_def)
  then show "registry_inv clk bound activated (retireLocked sid absent c)" "registry_le c (retireLocked sid absent c)"
    by blast+
qed

lemma Remove_kept:
  assumes inv: "registry_inv clk bound activated c"
  shows "registry_inv clk bound activated (registry_Remove sid c)" and "registry_le c (registry_Remove sid c)"
proof -
  define d where "d = retireLocked sid True c"
  have d: "registry_inv clk bound activated d" "registry_le c d"
    unfolding d_def by (rule retire_kept [OF inv])+
  have "registry_inv clk bound activated (registry_Remove sid c) \<and> registry_le c (registry_Remove sid c)"
  proof (cases "map_of (wr_exclusions d) sid")
    case None
    then show ?thesis
      using d by (simp add: registry_Remove_def d_def)
  next
    case (Some ref)
    then have "registry_Remove sid c = d\<lparr>wr_clock := wr_clock d, wr_store := (wr_store d)(ref := exclusion_stop True (wr_store d ref))\<rparr>"
      by (simp add: registry_Remove_def d_def Let_def)
    then show ?thesis
      using object_update [OF d(1) stop_le order_refl] registry_le_trans [OF d(2)] by metis
  qed
  then show "registry_inv clk bound activated (registry_Remove sid c)" "registry_le c (registry_Remove sid c)"
    by blast+
qed

lemma Poison_kept:
  assumes "registry_inv clk bound activated c" "Poison cause c = (e, c')"
  shows "registry_inv clk bound activated c'" and "registry_le c c'"
proof -
  define d where "d = (if wr_poisoned c = None then c\<lparr>wr_poisoned := Some (ErrMutationPoisoned cause)\<rparr> else c)"
  have d: "registry_inv clk bound activated d" "registry_le c d"
    using assms(1) by (auto simp: d_def registry_inv_def accounted_def discharged_def grace_sampled_def registry_le_def)
  have "c' = (if wr_owner d \<noteq> 0 then retireLocked (wr_owner d) False d else d)"
    using assms(2) unfolding Poison_def d_def [symmetric] by (simp add: Let_def)
  then show "registry_inv clk bound activated c'" "registry_le c c'"
    using d retire_kept [OF d(1)] registry_le_trans [OF d(2)] by auto
qed

lemma StartWriterGrace_kept:
  assumes inv: "registry_inv clk bound activated c" and start: "StartWriterGrace clk c = (r, c')"
  shows "registry_inv clk bound activated c'" and "registry_le c c'"
proof -
  show le: "registry_le c c'"
    using start by (auto simp: StartWriterGrace_def registry_le_def Let_def split: if_splits)
  have same: "wr_exclusions c' = wr_exclusions c" "wr_owner c' = wr_owner c" "wr_exclusion c' = wr_exclusion c"
    "wr_fresh c' = wr_fresh c"
    using start by (auto simp: StartWriterGrace_def Let_def split: if_splits)
  have grace: "grace_sampled clk c'" if "wr_restartStarted c'" "\<not> wr_restartFailed c'"
    using start that registry_invD(7) [OF inv]
    by (auto simp: StartWriterGrace_def grace_sampled_def Let_def not_less split: if_splits)
  show "registry_inv clk bound activated c'"
  proof (rule registry_invI)
    fix s r
    assume act: "(s, r) \<in> activated"
    then show b: "bound s = Some r"
      by (rule registry_invD(1) [OF inv])
    show "accounted clk c' s r"
      using registry_invD(2) [OF inv act] discharged_le [OF _ le registry_invD(6) [OF inv b]] same
      unfolding accounted_def by metis
  qed (use registry_invD(3-6) [OF inv] same grace in \<open>simp_all\<close>)
qed

lemma Activate_kept:
  assumes inv: "registry_inv clk bound activated c" and bound: "bound sid = Some ref"
    and act: "Activate clk sid missing terminal (Some ref) prepare c = (r, c')"
  shows "registry_inv clk bound (if r = None then insert (sid, ref) activated else activated) c'" and "registry_le c c'"
proof -
  obtain r1 c1 where check: "checkLocked clk sid False c = (r1, c1)"
    by fastforce
  note kept = check_kept [OF inv check]
  have cases: "c' = c \<and> r \<noteq> None \<or> c' = c1 \<and> r \<noteq> None \<or>
      r = None \<and> sid \<noteq> 0 \<and> wr_owner c1 = 0 \<and> c' = c1\<lparr>wr_owner := sid, wr_exclusion := Some ref\<rparr>"
    using act by (auto simp: Activate_def check split: if_splits option.splits)
  have le: "registry_le c1 (c1\<lparr>wr_owner := sid, wr_exclusion := Some ref\<rparr>)"
    by (simp add: registry_le_def)
  have new: "registry_inv clk bound (insert (sid, ref) activated) (c1\<lparr>wr_owner := sid, wr_exclusion := Some ref\<rparr>)"
    if "wr_owner c1 = 0" "sid \<noteq> 0"
    using kept that bound unfolding registry_inv_def accounted_def discharged_def grace_sampled_def by auto
  show "registry_le c c'"
    using cases kept le registry_le_trans by blast
  show "registry_inv clk bound (if r = None then insert (sid, ref) activated else activated) c'"
    using cases inv kept new by auto
qed

end
