(* ===== verification/Writer_Properties.thy ===== *)
theory Writer_Properties
  imports Writer_Safety
begin

text \<open>
  The authority's sessions and its writer registry as one transition system, and what admission promises in each of its
  states: a foreign writer waits for the discharge of every activated session, a restarted authority waits out the
  grace, a poisoned registry admits nobody; and the topology gate with the holders it admitted.
\<close>

section \<open>Sessions and registry together\<close>

text \<open>
  Beside the table of the sessions and the registry, the state records the sessions ever opened, the exclusion each was
  given, the sessions ever activated and the proofs ever granted, each with the time it promises.
\<close>

record writerWorld =
  ww_sessions :: sessionTable
  ww_registry :: WriterRegistry
  ww_used :: "SessionID set"
  ww_bound :: "SessionID \<rightharpoonup> exclusionRef"
  ww_activated :: "(SessionID \<times> exclusionRef) set"
  ww_granted :: "(exclusionRef \<times> duration) set"

definition writer_init :: "bool \<Rightarrow> writerWorld" where
  "writer_init priorFenced =
     \<lparr>ww_sessions = (\<lambda>_. None), ww_registry = NewWriterRegistry priorFenced, ww_used = {}, ww_bound = (\<lambda>_. None),
      ww_activated = {}, ww_granted = {}\<rparr>"

text \<open>
  A proof is granted by the reading after the one of the lease. A session ends with its exclusion stopped; the drain of the
  last pin of an ended session may come at any time.
\<close>

inductive writer_step :: "(nat \<Rightarrow> reading) \<Rightarrow> writerWorld \<Rightarrow> writerWorld \<Rightarrow> bool" for clk where
  step_open: "sid \<notin> ww_used w \<Longrightarrow>
    writer_step clk w (w\<lparr>ww_sessions := (ww_sessions w)(sid \<mapsto> \<lparr>ws_fenced = False, ws_ending = False, ws_exclusion = None\<rparr>),
      ww_used := insert sid (ww_used w)\<rparr>)"
| step_bind: "Authority_WriterExclusion sid (ww_sessions w, ww_registry w) = (Inr ref, sessions, c) \<Longrightarrow>
    writer_step clk w (w\<lparr>ww_sessions := sessions, ww_registry := c, ww_bound := (ww_bound w)(sid \<mapsto> ref)\<rparr>)"
| step_fenced: "ww_sessions w sid = Some s \<Longrightarrow>
    writer_step clk w (w\<lparr>ww_sessions := (ww_sessions w)(sid \<mapsto> s\<lparr>ws_fenced := True\<rparr>)\<rparr>)"
| step_end: "ww_sessions w sid = Some s \<Longrightarrow> c = ww_registry w \<Longrightarrow>
    writer_step clk w (w\<lparr>ww_sessions := (ww_sessions w)(sid := None),
      ww_registry := (case ws_exclusion s of None \<Rightarrow> c
        | Some ref \<Rightarrow> c\<lparr>wr_store := (wr_store c)(ref := exclusion_stop False (wr_store c ref))\<rparr>)\<rparr>)"
| step_drain: "c = ww_registry w \<Longrightarrow>
    writer_step clk w (w\<lparr>ww_registry := c\<lparr>wr_store := (wr_store c)(ref := exclusion_drain (wr_store c ref))\<rparr>\<rparr>)"
| step_refused: "ww_sessions w sid = Some s \<Longrightarrow>
    RenewalProof clk live expires deadline lease now (ws_exclusion s) (ww_registry w) = (Inl err, c) \<Longrightarrow>
    writer_step clk w (w\<lparr>ww_registry := c\<rparr>)"
| step_granted: "ww_sessions w sid = Some s \<Longrightarrow> ws_exclusion s = Some ref \<Longrightarrow>
    RenewalProof clk live expires deadline lease now (Some ref) (ww_registry w) = (Inr proof_time, c) \<Longrightarrow>
    writer_step clk w (w\<lparr>ww_registry := c,
      ww_granted := insert (ref, rd_value (clk (Suc (wr_clock (ww_registry w)))) + proof_time) (ww_granted w)\<rparr>)"
| step_grace: "StartWriterGrace clk (ww_registry w) = (r, c) \<Longrightarrow> writer_step clk w (w\<lparr>ww_registry := c\<rparr>)"
| step_check: "checkLocked clk source own (ww_registry w) = (r, c) \<Longrightarrow> writer_step clk w (w\<lparr>ww_registry := c\<rparr>)"
| step_activate: "ww_bound w sid = Some ref \<Longrightarrow>
    Activate clk sid missing terminal (Some ref) prepare (ww_registry w) = (r, c) \<Longrightarrow>
    writer_step clk w (w\<lparr>ww_registry := c,
      ww_activated := (if r = None then insert (sid, ref) (ww_activated w) else ww_activated w)\<rparr>)"
| step_fence: "writer_step clk w (w\<lparr>ww_registry := registry_Fence sid (ww_registry w)\<rparr>)"
| step_remove: "writer_step clk w (w\<lparr>ww_registry := registry_Remove sid (ww_registry w)\<rparr>)"
| step_sweep: "writer_step clk w (w\<lparr>ww_registry := SweepExclusions clk (ww_registry w)\<rparr>)"
| step_poison: "Poison cause (ww_registry w) = (e, c) \<Longrightarrow> writer_step clk w (w\<lparr>ww_registry := c\<rparr>)"

definition writer_reach :: "(nat \<Rightarrow> reading) \<Rightarrow> writerWorld \<Rightarrow> bool" where
  "writer_reach clk w \<longleftrightarrow> (\<exists>priorFenced. (writer_step clk)\<^sup>*\<^sup>* (writer_init priorFenced) w)"

section \<open>One renewal\<close>

lemma grant_ok:
  assumes "grant p now e = (None, e')"
  shows "\<not> we_stopped e \<and> \<not> we_clockFailed e \<and> \<not> rd_failed now \<and> we_last e \<le> rd_value now \<and> rd_value now + p \<le> MaxInt64"
    and "rd_value now + p \<le> we_deadline e'" and "we_deadline e' = max (we_deadline e) (rd_value now + p)"
  using assms by (auto simp: grant_def split: if_splits)

lemma renewal_granted:
  assumes "RenewalProof clk live expires deadline lease now exclusion c = (Inr p, c')"
  obtains ref e remaining where "exclusion = Some ref" "live"
    "leaseRemaining expires deadline lease now (clk (wr_clock c)) = Some remaining" "p = proofRemaining lease remaining"
    "0 < p" "grant p (clk (Suc (wr_clock c))) (wr_store c ref) = (None, e)"
    "c' = c\<lparr>wr_clock := wr_clock c + 2, wr_store := (wr_store c)(ref := e)\<rparr>"
proof -
  obtain ref where ref: "exclusion = Some ref"
    using assms by (cases exclusion) (auto simp: RenewalProof_def)
  obtain remaining where remaining: "live" "leaseRemaining expires deadline lease now (clk (wr_clock c)) = Some remaining"
    using assms by (auto simp: RenewalProof_def ref Let_def split: if_splits option.splits)
  obtain r e where g: "grant (proofRemaining lease remaining) (clk (Suc (wr_clock c))) (wr_store c ref) = (r, e)"
    by fastforce
  have r: "r = None" and stopped: "\<not> we_stopped (wr_store c ref)"
    using assms g by (auto simp: RenewalProof_def ref Let_def remaining grant_def split: if_splits option.splits)
  have "p = proofRemaining lease remaining" "0 < p" "c' = c\<lparr>wr_clock := wr_clock c + 2, wr_store := (wr_store c)(ref := e)\<rparr>"
    using assms by (auto simp: RenewalProof_def ref Let_def remaining g r stopped split: if_splits)
  then show thesis
    using that [OF ref remaining] g r by simp
qed

lemma sdiv_Millisecond_eq: "x sdiv Millisecond = sgn x * (\<bar>x\<bar> div Millisecond)"
proof -
  have "sgn Millisecond = 1" "\<bar>Millisecond\<bar> = Millisecond" by (simp_all add: Millisecond_def)
  then show ?thesis by (simp add: signed_divide_int_def)
qed

lemma sdiv_Millisecond: "0 \<le> x \<Longrightarrow> x sdiv Millisecond = x div Millisecond"
  by (cases "x = 0") (simp_all add: sdiv_Millisecond_eq)

lemma sdiv_Millisecond_pos:
  assumes "0 < x sdiv Millisecond * Millisecond"
  shows "0 < x"
proof (rule ccontr)
  assume "\<not> 0 < x"
  then have "sgn x \<le> 0" by (simp add: sgn_if)
  moreover have "0 \<le> \<bar>x\<bar> div Millisecond" by (rule pos_imp_zdiv_nonneg_iff [THEN iffD2]) (simp_all add: Millisecond_def)
  ultimately have "x sdiv Millisecond \<le> 0" unfolding sdiv_Millisecond_eq by (rule mult_nonpos_nonneg)
  then have "x sdiv Millisecond * Millisecond \<le> 0" by (rule mult_nonpos_nonneg) (simp add: Millisecond_def)
  then show False using assms by (rule leD [THEN notE])
qed

lemma proofRemaining_bounds:
  assumes "p = proofRemaining lease remaining" "0 < p"
  shows "p \<le> remaining" and "p \<le> MaxCacheProof" and "p mod Millisecond = 0" and "p \<le> lease div Millisecond * Millisecond"
proof -
  define m where "m = min remaining (min (lease sdiv Millisecond * Millisecond) MaxCacheProof)"
  have s: "p = m sdiv Millisecond * Millisecond"
    using assms(1) by (simp add: proofRemaining_def m_def)
  then have "0 < m" using assms(2) by - (rule sdiv_Millisecond_pos, simp)
  then have p: "p = m div Millisecond * Millisecond" unfolding s by (simp add: sdiv_Millisecond)
  then have "p \<le> m"
    by (simp add: Millisecond_def)
  moreover have "0 < lease" using \<open>0 < m\<close> by - (rule sdiv_Millisecond_pos, simp add: m_def)
  ultimately show "p \<le> remaining" "p \<le> MaxCacheProof" "p \<le> lease div Millisecond * Millisecond"
    by (simp_all add: m_def sdiv_Millisecond)
  show "p mod Millisecond = 0"
    by (simp add: p)
qed

lemma renewal_kept:
  assumes inv: "registry_inv clk bound activated c"
    and renewal: "RenewalProof clk live expires deadline lease now exclusion c = (r, c')"
  shows "registry_inv clk bound activated c'" and "registry_le c c'"
proof -
  have "c' = c \<or> (\<exists>ref e n. c' = c\<lparr>wr_clock := n, wr_store := (wr_store c)(ref := e)\<rparr> \<and>
      exclusion_le (wr_store c ref) e \<and> wr_clock c \<le> n)"
  proof (cases exclusion)
    case (Some ref)
    have "c' = c \<or> c' = c\<lparr>wr_clock := wr_clock c + 1, wr_store := (wr_store c)(ref := (wr_store c ref)\<lparr>we_clockFailed := True\<rparr>)\<rparr> \<or>
        (\<exists>q. c' = c\<lparr>wr_clock := (if we_stopped (wr_store c ref) then wr_clock c + 1 else wr_clock c + 2),
           wr_store := (wr_store c)(ref := snd (grant q (clk (Suc (wr_clock c))) (wr_store c ref)))\<rparr>)"
      using renewal unfolding RenewalProof_def Some
      by (auto simp: Let_def case_prod_unfold split: if_splits option.splits)
    then show ?thesis
    proof (elim disjE exE)
      assume "c' = c\<lparr>wr_clock := wr_clock c + 1, wr_store := (wr_store c)(ref := (wr_store c ref)\<lparr>we_clockFailed := True\<rparr>)\<rparr>"
      then show ?thesis
        by (rule_tac disjI2, intro exI conjI) (assumption, rule clockFailed_le, simp)
    next
      fix q
      assume "c' = c\<lparr>wr_clock := (if we_stopped (wr_store c ref) then wr_clock c + 1 else wr_clock c + 2),
           wr_store := (wr_store c)(ref := snd (grant q (clk (Suc (wr_clock c))) (wr_store c ref)))\<rparr>"
      then show ?thesis
        by (rule_tac disjI2, intro exI conjI) (assumption, rule grant_le, simp)
    qed simp
  qed (use renewal in \<open>simp add: RenewalProof_def\<close>)
  then show "registry_inv clk bound activated c'" "registry_le c c'"
    using inv object_update [OF inv] by auto
qed

section \<open>The invariant of every reachable state\<close>

definition promised :: "(exclusionRef \<times> duration) set \<Rightarrow> WriterRegistry \<Rightarrow> bool" where
  "promised granted c \<longleftrightarrow> (\<forall>(ref, t) \<in> granted. ref < wr_fresh c \<and> t \<le> we_deadline (wr_store c ref))"

lemma promised_le: "promised granted c \<Longrightarrow> registry_le c c' \<Longrightarrow> promised granted c'"
  unfolding promised_def registry_le_def exclusion_le_def by (fastforce intro: order_trans)

definition writer_inv :: "(nat \<Rightarrow> reading) \<Rightarrow> writerWorld \<Rightarrow> bool" where
  "writer_inv clk w \<longleftrightarrow> registry_inv clk (ww_bound w) (ww_activated w) (ww_registry w) \<and> promised (ww_granted w) (ww_registry w) \<and>
     (\<forall>sid s. ww_sessions w sid = Some s \<longrightarrow> sid \<in> ww_used w \<and> ws_exclusion s = ww_bound w sid) \<and>
     (\<forall>sid. sid \<notin> ww_used w \<longrightarrow> ww_bound w sid = None)"

lemma writer_invI:
  assumes "registry_inv clk (ww_bound w) (ww_activated w) (ww_registry w)" "promised (ww_granted w) (ww_registry w)"
    "\<And>sid s. ww_sessions w sid = Some s \<Longrightarrow> sid \<in> ww_used w" "\<And>sid s. ww_sessions w sid = Some s \<Longrightarrow> ws_exclusion s = ww_bound w sid"
    "\<And>sid. sid \<notin> ww_used w \<Longrightarrow> ww_bound w sid = None"
  shows "writer_inv clk w"
  using assms unfolding writer_inv_def by blast

lemma writer_invD:
  assumes "writer_inv clk w"
  shows "registry_inv clk (ww_bound w) (ww_activated w) (ww_registry w)" and "promised (ww_granted w) (ww_registry w)"
    and "ww_sessions w sid = Some s \<Longrightarrow> sid \<in> ww_used w"
    and "ww_sessions w sid = Some s \<Longrightarrow> ws_exclusion s = ww_bound w sid"
    and "sid \<notin> ww_used w \<Longrightarrow> ww_bound w sid = None"
  using assms unfolding writer_inv_def by blast+

lemma writer_init_inv: "writer_inv clk (writer_init priorFenced)"
  by (simp add: writer_inv_def writer_init_def registry_inv_def NewWriterRegistry_def promised_def)

text \<open>Steps of the registry leave the sessions and their bindings.\<close>

lemma writer_inv_registry:
  assumes "writer_inv clk w" "registry_inv clk (ww_bound w) activated c" "registry_le (ww_registry w) c"
  shows "writer_inv clk (w\<lparr>ww_registry := c, ww_activated := activated\<rparr>)"
  using assms promised_le [OF _ assms(3)] unfolding writer_inv_def by simp

lemma writer_inv_registry':
  assumes "writer_inv clk w" "registry_inv clk (ww_bound w) (ww_activated w) c" "registry_le (ww_registry w) c"
  shows "writer_inv clk (w\<lparr>ww_registry := c\<rparr>)"
  using writer_inv_registry [OF assms] by simp

lemma writer_inv_change:
  assumes "writer_inv clk w"
    and "\<And>bound activated. registry_inv clk bound activated (ww_registry w) \<Longrightarrow> registry_inv clk bound activated c"
    and "\<And>bound activated. registry_inv clk bound activated (ww_registry w) \<Longrightarrow> registry_le (ww_registry w) c"
  shows "writer_inv clk (w\<lparr>ww_registry := c\<rparr>)"
proof -
  have "registry_inv clk (ww_bound w) (ww_activated w) (ww_registry w)"
    using assms(1) by (simp add: writer_inv_def)
  from writer_inv_registry' [OF assms(1) assms(2,3) [OF this]] show ?thesis .
qed

lemma writer_inv_object:
  assumes "writer_inv clk w" "exclusion_le (wr_store (ww_registry w) ref) e"
  shows "writer_inv clk (w\<lparr>ww_registry := (ww_registry w)\<lparr>wr_store := (wr_store (ww_registry w))(ref := e)\<rparr>\<rparr>)"
proof -
  have "registry_inv clk (ww_bound w) (ww_activated w) (ww_registry w)"
    using assms(1) by (simp add: writer_inv_def)
  from object_update [OF this assms(2) order_refl] show ?thesis
    using writer_inv_registry' [OF assms(1)] by simp
qed

lemma fresh_binding:
  assumes inv: "registry_inv clk bound activated c" and unbound: "bound sid = None" and ref: "ref = wr_fresh c"
    and d: "d = c\<lparr>wr_store := (wr_store c)(ref := newExclusion), wr_fresh := ref + 1\<rparr>"
  shows "registry_inv clk (bound(sid \<mapsto> ref)) activated d"
proof (rule registry_invI)
  have le: "registry_le c d"
    by (simp add: d ref registry_le_def)
  fix s r
  assume act: "(s, r) \<in> activated"
  have b: "bound s = Some r"
    by (rule registry_invD(1) [OF inv act])
  then show "(bound(sid \<mapsto> ref)) s = Some r"
    using unbound by auto
  show "accounted clk d s r"
    using registry_invD(2) [OF inv act] discharged_le [OF _ le registry_invD(6) [OF inv b]] by (auto simp: accounted_def d)
next
  show "distinct (map fst (wr_exclusions d))"
    using registry_invD(3) [OF inv] by (simp add: d)
  show "(bound(sid \<mapsto> ref)) s = Some r" if "(s, r) \<in> set (wr_exclusions d)" for s r
    using that registry_invD(4) [OF inv, of s r] unbound by (auto simp: d)
  show "wr_owner d \<noteq> 0 \<and> (bound(sid \<mapsto> ref)) (wr_owner d) = Some r" if "wr_exclusion d = Some r" for r
    using that registry_invD(5) [OF inv, of r] unbound by (auto simp: d)
  show "r < wr_fresh d" if "(bound(sid \<mapsto> ref)) s = Some r" for s r
    using that registry_invD(6) [OF inv, of s r] by (auto simp: d ref split: if_splits)
  show "grace_sampled clk d" if "wr_restartStarted d" "\<not> wr_restartFailed d"
    using that registry_invD(7) [OF inv] by (simp add: d grace_sampled_def)
qed

lemma sweep_kept:
  assumes inv: "registry_inv clk bound activated c"
  shows "registry_inv clk bound activated (SweepExclusions clk c)" and "registry_le c (SweepExclusions clk c)"
proof -
  obtain b c' where ex: "excludedLocked clk 0 c = (b, c')"
    by fastforce
  note sw = excludedLocked_swept(1) [OF ex registry_invD(3) [OF inv] retained_fresh [OF inv]]
  show "registry_inv clk bound activated (SweepExclusions clk c)"
    using swept_inv [OF inv sw] by (simp add: SweepExclusions_def ex)
  show "registry_le c (SweepExclusions clk c)"
    using sw unfolding swept_def by (simp add: SweepExclusions_def ex)
qed

lemma granted_deadline:
  assumes inv: "writer_inv clk w" and session: "ww_sessions w sid = Some s" "ws_exclusion s = Some ref"
    and renewal: "RenewalProof clk live expires deadline lease now (Some ref) (ww_registry w) = (Inr p, c)"
  shows "ref < wr_fresh c \<and> rd_value (clk (Suc (wr_clock (ww_registry w)))) + p \<le> we_deadline (wr_store c ref)"
proof -
  have bound: "ww_bound w sid = Some ref"
    using inv session unfolding writer_inv_def by metis
  have "registry_inv clk (ww_bound w) (ww_activated w) (ww_registry w)"
    using inv by (simp add: writer_inv_def)
  note fresh = registry_invD(6) [OF this bound]
  obtain r e where e: "Some ref = Some r" "grant p (clk (Suc (wr_clock (ww_registry w)))) (wr_store (ww_registry w) r) = (None, e)"
    and c: "c = (ww_registry w)\<lparr>wr_clock := wr_clock (ww_registry w) + 2, wr_store := (wr_store (ww_registry w))(r := e)\<rparr>"
    by (rule renewal_granted [OF renewal]) (rule that, assumption+)
  have r: "r = ref"
    using e(1) by simp
  show ?thesis
    using grant_ok(2) [OF e(2)] fresh unfolding c r by simp
qed

lemma bind_inv:
  assumes inv: "writer_inv clk w"
    and bind: "Authority_WriterExclusion sid (ww_sessions w, ww_registry w) = (Inr ref, sessions, c)"
  shows "writer_inv clk (w\<lparr>ww_sessions := sessions, ww_registry := c, ww_bound := (ww_bound w)(sid \<mapsto> ref)\<rparr>)"
proof -
  let ?c = "ww_registry w" and ?w = "w\<lparr>ww_sessions := sessions, ww_registry := c, ww_bound := (ww_bound w)(sid \<mapsto> ref)\<rparr>"
  obtain s where s: "ww_sessions w sid = Some s"
    using bind by (cases "ww_sessions w sid") (simp_all add: Authority_WriterExclusion_def)
  note same = writer_invD(4) [OF inv s]
  show ?thesis
  proof (cases "ws_exclusion s")
    case (Some r)
    then have "ref = r" "sessions = ww_sessions w" "c = ?c"
      using bind s by (simp_all add: Authority_WriterExclusion_def split: if_splits)
    then have "?w = w"
      using Some same by (simp add: map_upd_triv)
    then show ?thesis
      using inv by simp
  next
    case None
    then have new: "ref = wr_fresh ?c" "sessions = (ww_sessions w)(sid \<mapsto> s\<lparr>ws_exclusion := Some ref\<rparr>)"
      "c = ?c\<lparr>wr_store := (wr_store ?c)(ref := newExclusion), wr_fresh := ref + 1\<rparr>"
      using bind s by (auto simp: Authority_WriterExclusion_def Let_def split: if_splits)
    have le: "registry_le ?c c"
      by (simp add: new registry_le_def)
    have unbound: "ww_bound w sid = None"
      using None same by simp
    note rinv = fresh_binding [OF writer_invD(1) [OF inv] unbound new(1,3)]
    show ?thesis
    proof (rule writer_invI)
      fix x t
      assume t: "ww_sessions ?w x = Some t"
      show "x \<in> ww_used ?w"
        using t writer_invD(3) [OF inv] s by (cases "x = sid") (simp_all add: new(2))
      show "ws_exclusion t = ww_bound ?w x"
        using t writer_invD(4) [OF inv, of x t] by (cases "x = sid") (auto simp: new(2))
    next
      show "ww_bound ?w x = None" if "x \<notin> ww_used ?w" for x
        using that writer_invD(5) [OF inv, of x] writer_invD(3) [OF inv s] by auto
    qed (use rinv promised_le [OF writer_invD(2) [OF inv] le] in simp_all)
  qed
qed

lemma writer_inv_sessions:
  assumes inv: "writer_inv clk w" and "ww_used w \<subseteq> used"
    and "\<And>x t. sessions x = Some t \<Longrightarrow> x \<in> used \<and> ws_exclusion t = ww_bound w x"
  shows "writer_inv clk (w\<lparr>ww_sessions := sessions, ww_used := used\<rparr>)"
proof (rule writer_invI)
  show "ww_bound (w\<lparr>ww_sessions := sessions, ww_used := used\<rparr>) x = None" if "x \<notin> ww_used (w\<lparr>ww_sessions := sessions, ww_used := used\<rparr>)" for x
    using that assms(2) writer_invD(5) [OF inv, of x] by auto
qed (use writer_invD(1,2) [OF inv] assms(3) in simp_all)

lemma writer_inv_session:
  assumes inv: "writer_inv clk w" and "ww_sessions w sid = Some s" and "\<And>t. entry = Some t \<Longrightarrow> ws_exclusion t = ws_exclusion s"
  shows "writer_inv clk (w\<lparr>ww_sessions := (ww_sessions w)(sid := entry)\<rparr>)"
proof -
  have "writer_inv clk (w\<lparr>ww_sessions := (ww_sessions w)(sid := entry), ww_used := ww_used w\<rparr>)"
  proof (rule writer_inv_sessions [OF inv order_refl])
    fix x t
    assume t: "((ww_sessions w)(sid := entry)) x = Some t"
    show "x \<in> ww_used w \<and> ws_exclusion t = ww_bound w x"
    proof (cases "x = sid")
      case True
      then show ?thesis
        using t assms(3) [of t] writer_invD(3,4) [OF inv assms(2)] by simp
    next
      case False
      then show ?thesis
        using t writer_invD(3,4) [OF inv, of x t] by simp
    qed
  qed
  then show ?thesis
    by simp
qed

lemma open_inv:
  assumes inv: "writer_inv clk w" and new: "sid \<notin> ww_used w" "ws_exclusion s = None"
  shows "writer_inv clk (w\<lparr>ww_sessions := (ww_sessions w)(sid \<mapsto> s), ww_used := insert sid (ww_used w)\<rparr>)"
proof (rule writer_inv_sessions [OF inv])
  fix x t
  assume t: "((ww_sessions w)(sid \<mapsto> s)) x = Some t"
  show "x \<in> insert sid (ww_used w) \<and> ws_exclusion t = ww_bound w x"
  proof (cases "x = sid")
    case True
    then show ?thesis
      using t new writer_invD(5) [OF inv new(1)] by auto
  next
    case False
    then show ?thesis
      using t writer_invD(3,4) [OF inv, of x t] by simp
  qed
qed auto

lemma end_inv:
  assumes inv: "writer_inv clk w" and s: "ww_sessions w sid = Some s" and c: "c = ww_registry w"
  shows "writer_inv clk (w\<lparr>ww_sessions := (ww_sessions w)(sid := None),
      ww_registry := (case ws_exclusion s of None \<Rightarrow> c
        | Some ref \<Rightarrow> c\<lparr>wr_store := (wr_store c)(ref := exclusion_stop False (wr_store c ref))\<rparr>)\<rparr>)"
proof -
  have gone: "writer_inv clk (w\<lparr>ww_sessions := (ww_sessions w)(sid := None)\<rparr>)"
    by (rule writer_inv_session [OF inv s]) simp
  show ?thesis
    using gone writer_inv_object [OF gone stop_le] by (cases "ws_exclusion s") (simp_all add: c)
qed

lemma writer_inv_granted:
  "writer_inv clk w \<Longrightarrow> promised granted (ww_registry w) \<Longrightarrow> writer_inv clk (w\<lparr>ww_granted := granted\<rparr>)"
  unfolding writer_inv_def by (simp (no_asm)) blast

lemma granted_inv:
  assumes inv: "writer_inv clk w" and session: "ww_sessions w sid = Some s" "ws_exclusion s = Some ref"
    and renewal: "RenewalProof clk live expires deadline lease now (Some ref) (ww_registry w) = (Inr p, c)"
  shows "writer_inv clk (w\<lparr>ww_registry := c,
      ww_granted := insert (ref, rd_value (clk (Suc (wr_clock (ww_registry w)))) + p) (ww_granted w)\<rparr>)"
proof -
  note kept = renewal_kept [OF writer_invD(1) [OF inv] renewal]
  have "promised (insert (ref, rd_value (clk (Suc (wr_clock (ww_registry w)))) + p) (ww_granted w)) c"
    using granted_deadline [OF inv session renewal] promised_le [OF writer_invD(2) [OF inv] kept(2)]
    by (simp add: promised_def)
  then show ?thesis
    using writer_inv_granted [OF writer_inv_registry' [OF inv kept]] by simp
qed

lemma step_inv: "writer_step clk w w' \<Longrightarrow> writer_inv clk w \<Longrightarrow> writer_inv clk w'"
proof (induction rule: writer_step.induct)
  case (step_open sid w)
  from step_open.prems step_open.hyps show ?case
    by (rule open_inv) simp
next
  case (step_bind sid w ref sessions c)
  from step_bind.prems step_bind.hyps show ?case
    by (rule bind_inv)
next
  case (step_fenced w sid s)
  from step_fenced.prems step_fenced.hyps show ?case
    by (rule writer_inv_session) auto
next
  case (step_end w sid s c)
  from step_end.prems step_end.hyps show ?case
    by (rule end_inv)
next
  case (step_drain c w ref)
  show ?case
    using writer_inv_object [OF step_drain.prems drain_le] by (simp add: step_drain.hyps)
next
  case (step_refused w sid s live expires deadline lease now err c)
  from step_refused.prems show ?case
    by (rule writer_inv_change) (blast intro: renewal_kept [OF _ step_refused.hyps(2)])+
next
  case (step_granted w sid s ref live expires deadline lease now p c)
  from granted_inv [OF step_granted.prems step_granted.hyps] show ?case
    by simp
next
  case (step_grace w r c)
  from step_grace.prems show ?case
    by (rule writer_inv_change) (blast intro: StartWriterGrace_kept [OF _ step_grace.hyps])+
next
  case (step_check source own w r c)
  from step_check.prems show ?case
    by (rule writer_inv_change) (blast intro: check_kept [OF _ step_check.hyps, THEN conjunct1] check_kept [OF _ step_check.hyps, THEN conjunct2, THEN conjunct1])+
next
  case (step_activate w sid ref missing terminal prepare r c)
  from Activate_kept [OF writer_invD(1) [OF step_activate.prems] step_activate.hyps] show ?case
    by (rule writer_inv_registry [OF step_activate.prems])
next
  case (step_fence w sid)
  from step_fence.prems show ?case
    unfolding registry_Fence_def by (rule writer_inv_change) (blast intro: retire_kept)+
next
  case (step_remove w sid)
  from step_remove.prems show ?case
    by (rule writer_inv_change) (blast intro: Remove_kept)+
next
  case (step_sweep w)
  from step_sweep.prems show ?case
    by (rule writer_inv_change) (blast intro: sweep_kept)+
next
  case (step_poison cause w e c)
  from step_poison.prems show ?case
    by (rule writer_inv_change) (blast intro: Poison_kept [OF _ step_poison.hyps])+
qed

lemma writer_reach_inv: "writer_reach clk w \<Longrightarrow> writer_inv clk w"
  unfolding writer_reach_def
proof (elim exE)
  fix priorFenced
  assume "(writer_step clk)\<^sup>*\<^sup>* (writer_init priorFenced) w"
  then show "writer_inv clk w"
  proof (induction rule: rtranclp_induct)
    case base
    show ?case
      by (rule writer_init_inv)
  next
    case (step w w')
    from step.hyps(2) step.IH show ?case
      by (rule step_inv)
  qed
qed

section \<open>Poison stays\<close>

lemma retire_poisoned [simp]: "wr_poisoned (retireLocked sid absent c) = wr_poisoned c"
  by (simp add: retireLocked_def split: option.splits)

lemma Poison_poisoned: "Poison cause c = (e, d) \<Longrightarrow> wr_poisoned d = Some e"
  by (auto simp: Poison_def Let_def split: if_splits option.splits)

lemma excluded_poisoned: "wr_poisoned (snd (fold (excluded_step clk source) xs bc)) = wr_poisoned (snd bc)"
proof (induction xs arbitrary: bc)
  case (Cons x xs)
  have "wr_poisoned (snd (excluded_step clk source x bc)) = wr_poisoned (snd bc)"
    by (simp add: excluded_step_def Let_def case_prod_unfold)
  then show ?case
    by (simp add: Cons.IH)
qed simp

lemma sweep_poisoned: "wr_poisoned (SweepExclusions clk c) = wr_poisoned c"
  by (simp add: SweepExclusions_def excludedLocked_def excluded_poisoned)

lemma renewal_poisoned: "wr_poisoned (snd (RenewalProof clk live expires deadline lease now exclusion c)) = wr_poisoned c"
  by (simp add: RenewalProof_def Let_def case_prod_unfold split: option.splits)

lemma step_poisoned: "writer_step clk v v' \<Longrightarrow> wr_poisoned (ww_registry v) = Some e \<Longrightarrow> wr_poisoned (ww_registry v') = Some e"
proof (induction rule: writer_step.induct)
  case (step_bind sid w ref sessions c)
  then show ?case
    by (auto simp: Authority_WriterExclusion_def Let_def split: option.splits if_splits)
next
  case (step_refused w sid s live expires deadline lease now err c)
  then show ?case
    using renewal_poisoned [of clk live expires deadline lease now "ws_exclusion s" "ww_registry w"] by simp
next
  case (step_granted w sid s ref live expires deadline lease now p c)
  then show ?case
    using renewal_poisoned [of clk live expires deadline lease now "Some ref" "ww_registry w"] by simp
next
  case (step_grace w r c)
  then show ?case
    by (auto simp: StartWriterGrace_def Let_def split: if_splits)
next
  case (step_check source own w r c)
  then show ?case
    by (auto simp: checkLocked_def)
next
  case (step_activate w sid ref missing terminal prepare r c)
  then show ?case
    by (auto simp: Activate_def checkLocked_def split: if_splits)
next
  case (step_poison cause w e' c)
  then show ?case
    by (auto simp: Poison_def Let_def split: if_splits)
qed (simp_all add: registry_Fence_def registry_Remove_def sweep_poisoned Let_def split: option.splits)

section \<open>Admission of a foreign writer\<close>

text \<open>What a check that succeeds has passed.\<close>

lemma check_passed:
  assumes "checkLocked clk source False c = (None, c')"
  obtains c1 where "priorWriterBlockedLocked clk c = (False, c1)" "excludedLocked clk source c1 = (False, c')"
    "wr_owner c' = 0 \<or> wr_owner c' = source"
proof -
  obtain b c1 where prior: "priorWriterBlockedLocked clk c = (b, c1)"
    by fastforce
  obtain x c2 where ex: "excludedLocked clk source c1 = (x, c2)"
    by fastforce
  have "wr_poisoned c = None"
    using assms by (cases "wr_poisoned c") (simp_all add: checkLocked_def)
  then have "\<not> b" "\<not> x" "c' = c2" "wr_owner c2 = 0 \<or> wr_owner c2 = source"
    using assms by (auto simp: checkLocked_def prior ex split: if_splits)
  then show thesis
    using that prior ex by simp
qed

lemma admitted_discharged:
  assumes inv: "registry_inv clk bound activated c" and check: "checkLocked clk source False c = (None, c')"
    and act: "(sid, ref) \<in> activated" and foreign: "sid \<noteq> source"
  shows "discharged clk c' ref \<and> registry_le c c'"
proof -
  obtain c1 where prior: "priorWriterBlockedLocked clk c = (False, c1)" and ex: "excludedLocked clk source c1 = (False, c')"
    and owner: "wr_owner c' = 0 \<or> wr_owner c' = source"
    by (rule check_passed [OF check]) (rule that, assumption+)
  note inv1 = prior_kept(1) [OF inv prior]
  note sweep = excludedLocked_swept [OF ex registry_invD(3) [OF inv1] retained_fresh [OF inv1]]
  note inv2 = swept_inv [OF inv1 sweep(1)]
  have "\<not> (wr_owner c' = sid \<and> wr_exclusion c' = Some ref)"
    using owner foreign registry_invD(5) [OF inv2, of ref] by auto
  then have "discharged clk c' ref"
    using registry_invD(2) [OF inv2 act] sweep(2) [of sid ref] foreign by (auto simp: accounted_def)
  moreover have "registry_le c c'"
    using check_kept [OF inv check] by simp
  ultimately show ?thesis
    by simp
qed

text \<open>
  C35. In every reachable state, a writer is admitted only when every other session that was ever activated as a
  writer is stopped and its admitted work has drained, and unless its mount is known to be absent, a reading of the
  continuous clock that did not fail has passed the time of every proof it was granted.
\<close>

theorem foreign_writer_waits:
  assumes "writer_reach clk w" and "CheckWriter clk source (ww_registry w) = (None, c)"
    and "(sid, ref) \<in> ww_activated w" and "sid \<noteq> source"
  shows "we_stopped (wr_store c ref) \<and> we_drained (wr_store c ref) \<and>
    (we_absent (wr_store c ref) \<or>
     (\<exists>n < wr_clock c. \<not> rd_failed (clk n) \<and> (\<forall>t. (ref, t) \<in> ww_granted w \<longrightarrow> t \<le> rd_value (clk n))))"
proof -
  note inv = writer_reach_inv [OF assms(1)]
  have passed: "discharged clk c ref" "registry_le (ww_registry w) c"
    using admitted_discharged [OF writer_invD(1) [OF inv] assms(2) [unfolded CheckWriter_def] assms(3,4)] by simp_all
  have promised: "promised (ww_granted w) c"
    by (rule promised_le [OF writer_invD(2) [OF inv] passed(2)])
  have "t \<le> we_deadline (wr_store c ref)" if "(ref, t) \<in> ww_granted w" for t
    using promised that unfolding promised_def by blast
  then show ?thesis
    using passed(1) unfolding discharged_def by (meson order_trans)
qed

text \<open>
  C36. An authority that cannot prove its predecessor's writers fenced admits a writer only at a reading that is at
  least the restart grace past the reading it took over at, both readings good and the second taken later.
\<close>

theorem restart_waits_grace:
  assumes "writer_reach clk w" and "\<not> wr_startupReady (ww_registry w)"
    and "CheckWriter clk source (ww_registry w) = (None, c)"
  shows "\<exists>k n. k < n \<and> n < wr_clock c \<and> \<not> rd_failed (clk k) \<and> \<not> rd_failed (clk n) \<and>
    rd_value (clk k) + WriterRestartGrace \<le> rd_value (clk n)"
proof -
  let ?c = "ww_registry w"
  note inv = writer_invD(1) [OF writer_reach_inv [OF assms(1)]]
  obtain c1 where prior: "priorWriterBlockedLocked clk ?c = (False, c1)" and ex: "excludedLocked clk source c1 = (False, c)"
    by (rule check_passed [OF assms(3) [unfolded CheckWriter_def]]) (rule that, assumption+)
  have started: "wr_restartStarted ?c" "\<not> wr_restartFailed ?c" "\<not> rd_failed (clk (wr_clock ?c))"
    "wr_restartDeadline ?c \<le> rd_value (clk (wr_clock ?c))" "wr_clock c1 = Suc (wr_clock ?c)"
    using prior assms(2) by (auto simp: priorWriterBlockedLocked_def Let_def split: if_splits)
  note inv1 = prior_kept(1) [OF inv prior]
  have "wr_clock c1 \<le> wr_clock c"
    using excludedLocked_swept(1) [OF ex registry_invD(3) [OF inv1] retained_fresh [OF inv1]]
    by (simp add: swept_def registry_le_def)
  then show ?thesis
    using registry_invD(7) [OF inv started(1,2)] started(3-5) unfolding grace_sampled_def by (metis Suc_le_lessD)
qed

text \<open>
  C37. A renewal proof is granted only to a live session: it is positive, in whole milliseconds, at most the protocol's
  ceiling, the session lease, the time left of the lease and the time left of the authorization; the exclusion
  was open, its clock had not gone back, and its deadline covers the proof without leaving 64 bits.
\<close>

theorem renewal_proof_covered:
  assumes "RenewalProof clk live expires deadline lease now exclusion c = (Inr p, c')"
  shows "\<exists>ref. exclusion = Some ref \<and> live \<and> 0 < p \<and> p mod Millisecond = 0 \<and> p \<le> MaxCacheProof \<and> p \<le> lease \<and>
    p \<le> expires - rd_value (clk (wr_clock c)) \<and> p \<le> deadline - now \<and>
    \<not> we_stopped (wr_store c ref) \<and> \<not> we_clockFailed (wr_store c ref) \<and> we_last (wr_store c ref) \<le> rd_value (clk (Suc (wr_clock c))) \<and>
    rd_value (clk (Suc (wr_clock c))) + p \<le> MaxInt64 \<and>
    we_deadline (wr_store c' ref) = max (we_deadline (wr_store c ref)) (rd_value (clk (Suc (wr_clock c))) + p)"
proof -
  obtain ref e remaining where ref: "exclusion = Some ref" "live"
    and lease: "leaseRemaining expires deadline lease now (clk (wr_clock c)) = Some remaining"
    and p: "p = proofRemaining lease remaining" "0 < p"
    and g: "grant p (clk (Suc (wr_clock c))) (wr_store c ref) = (None, e)"
    and c': "c' = c\<lparr>wr_clock := wr_clock c + 2, wr_store := (wr_store c)(ref := e)\<rparr>"
    by (rule renewal_granted [OF assms]) (rule that, assumption+)
  have bounds: "p \<le> remaining" "p \<le> MaxCacheProof" "p mod Millisecond = 0" "p \<le> lease div Millisecond * Millisecond"
    using proofRemaining_bounds [OF p] by simp_all
  have "p \<le> expires - rd_value (clk (wr_clock c))" "p \<le> deadline - now" "p \<le> lease"
    using lease bounds(1) p(2) by (auto simp: leaseRemaining_def split: if_splits)
  then show ?thesis
    using ref p(2) bounds grant_ok(1,3) [OF g] by (simp add: c')
qed

text \<open>
  C38. Once the registry was poisoned, every later check, whatever happened in between, answers the error that
  poisoned it first, and no activation succeeds.
\<close>

theorem poison_final:
  assumes "Poison cause c = (e, d)" and "(writer_step clk)\<^sup>*\<^sup>* (w\<lparr>ww_registry := d\<rparr>) w'"
  shows "fst (CheckWriter clk source (ww_registry w')) = Some e \<and> fst (CheckOwner clk source (ww_registry w')) = Some e \<and>
    fst (Activate clk source missing terminal exclusion prepare (ww_registry w')) \<noteq> None"
proof -
  have "wr_poisoned (ww_registry w') = Some e"
    using assms(2)
  proof (induction rule: rtranclp_induct)
    case base
    show ?case
      using Poison_poisoned [OF assms(1)] by simp
  next
    case (step v v')
    from step.hyps(2) step.IH show ?case
      by (rule step_poisoned)
  qed
  then show ?thesis
    by (simp add: CheckWriter_def CheckOwner_def Activate_def checkLocked_def)
qed

section \<open>A run with one writer\<close>

text \<open>
  The clock advances by a hundred seconds with every reading. A session is opened, activated, granted a proof, fenced
  and drained; the next writer is then admitted.
\<close>

definition exClock :: "nat \<Rightarrow> reading" where
  "exClock n = \<lparr>rd_value = int n * 100 * Second, rd_failed = False\<rparr>"

definition exExclusion :: "bool \<Rightarrow> bool \<Rightarrow> WriterExclusion" where
  "exExclusion stopped drained =
     \<lparr>we_deadline = 160 * Second, we_last = 100 * Second, we_clockFailed = False, we_stopped = stopped, we_drained = drained, we_absent = False\<rparr>"

definition exRegistry :: "SessionID \<Rightarrow> exclusionRef option \<Rightarrow> (SessionID \<times> exclusionRef) list \<Rightarrow> WriterExclusion \<Rightarrow> nat \<Rightarrow> nat \<Rightarrow> WriterRegistry" where
  "exRegistry owner exclusion retained e fresh n =
     (NewWriterRegistry True)\<lparr>wr_owner := owner, wr_exclusion := exclusion, wr_exclusions := retained,
        wr_store := (\<lambda>_. newExclusion)(0 := e), wr_fresh := fresh, wr_clock := n\<rparr>"

definition exWorld :: "WriterRegistry \<Rightarrow> (exclusionRef \<times> duration) set \<Rightarrow> writerWorld" where
  "exWorld c granted =
     \<lparr>ww_sessions = [1 \<mapsto> \<lparr>ws_fenced = False, ws_ending = False, ws_exclusion = Some 0\<rparr>], ww_registry = c, ww_used = {1},
      ww_bound = [1 \<mapsto> 0], ww_activated = {(1, 0)}, ww_granted = granted\<rparr>"

lemma ex_activated: "(writer_step exClock)\<^sup>*\<^sup>* (writer_init True) (exWorld (exRegistry 1 (Some 0) [] newExclusion 1 0) {})"
proof -
  let ?w0 = "writer_init True"
  let ?s = "\<lparr>ws_fenced = False, ws_ending = False, ws_exclusion = None\<rparr>"
  let ?w1 = "?w0\<lparr>ww_sessions := (ww_sessions ?w0)(1 \<mapsto> ?s), ww_used := insert 1 (ww_used ?w0)\<rparr>"
  let ?w2 = "(exWorld (exRegistry 0 None [] newExclusion 1 0) {})\<lparr>ww_activated := {}\<rparr>"
  have "writer_step exClock ?w0 ?w1"
    by (rule step_open) (simp add: writer_init_def)
  moreover have "writer_step exClock ?w1 ?w2"
    using step_bind [of 1 ?w1 0 "ww_sessions ?w2" "ww_registry ?w2"]
    by (simp add: Authority_WriterExclusion_def exWorld_def exRegistry_def writer_init_def NewWriterRegistry_def fun_upd_triv)
  moreover have "writer_step exClock ?w2 (exWorld (exRegistry 1 (Some 0) [] newExclusion 1 0) {})"
    using step_activate [of ?w2 1 0 exClock False False None None "exRegistry 1 (Some 0) [] newExclusion 1 0"]
    by (simp add: Activate_def checkLocked_def priorWriterBlockedLocked_def excludedLocked_def exclusion_closed_def exWorld_def
        exRegistry_def NewWriterRegistry_def newExclusion_def)
  ultimately show ?thesis
    by (meson rtranclp.rtrancl_refl rtranclp.rtrancl_into_rtrancl)
qed

lemma ex_granted:
  "writer_step exClock (exWorld (exRegistry 1 (Some 0) [] newExclusion 1 0) {})
     (exWorld (exRegistry 1 (Some 0) [] (exExclusion False False) 1 2) {(0, 160 * Second)})"
  using step_granted [of "exWorld (exRegistry 1 (Some 0) [] newExclusion 1 0) {}" 1
      "\<lparr>ws_fenced = False, ws_ending = False, ws_exclusion = Some 0\<rparr>" 0 exClock True "200 * Second" "200 * Second" "60 * Second" 0
      "60 * Second" "exRegistry 1 (Some 0) [] (exExclusion False False) 1 2"]
  by (simp add: RenewalProof_def leaseRemaining_def proofRemaining_def sdiv_Millisecond grant_def exClock_def exWorld_def exRegistry_def NewWriterRegistry_def
      newExclusion_def exExclusion_def MaxCacheProof_def Second_def Millisecond_def)

lemma ex_retired:
  "(writer_step exClock)\<^sup>*\<^sup>* (exWorld (exRegistry 1 (Some 0) [] (exExclusion False False) 1 2) G)
     (exWorld (exRegistry 0 None [(1, 0)] (exExclusion True True) 1 2) G)"
proof -
  let ?w3 = "exWorld (exRegistry 1 (Some 0) [] (exExclusion False False) 1 2) G"
  let ?w4 = "exWorld (exRegistry 0 None [(1, 0)] (exExclusion True False) 1 2) G"
  have "writer_step exClock ?w3 ?w4"
    using step_fence [of exClock ?w3 1]
    by (simp add: registry_Fence_def retireLocked_def exclusion_stop_def exExclusion_def exWorld_def exRegistry_def NewWriterRegistry_def)
  moreover have "writer_step exClock ?w4 (exWorld (exRegistry 0 None [(1, 0)] (exExclusion True True) 1 2) G)"
    using step_drain [of "ww_registry ?w4" ?w4 exClock 0]
    by (simp add: exclusion_drain_def exExclusion_def exWorld_def exRegistry_def NewWriterRegistry_def)
  ultimately show ?thesis
    by (meson rtranclp.rtrancl_refl rtranclp.rtrancl_into_rtrancl)
qed

lemma ex_writer_reach: "writer_reach exClock (exWorld (exRegistry 0 None [(1, 0)] (exExclusion True True) 1 2) {(0, 160 * Second)})"
  unfolding writer_reach_def
  using rtranclp_trans [OF rtranclp.rtrancl_into_rtrancl [OF ex_activated ex_granted] ex_retired] by blast

lemma ex_check:
  "CheckWriter exClock 2 (exRegistry 0 None [(1, 0)] (exExclusion True True) 1 2) =
     (None, exRegistry 0 None [] ((exExclusion True True)\<lparr>we_last := 200 * Second\<rparr>) 1 3)"
  by (simp add: CheckWriter_def checkLocked_def priorWriterBlockedLocked_def excludedLocked_def excluded_step_def outstanding_def
      samples_clock_def exExclusion_def exRegistry_def NewWriterRegistry_def exClock_def Second_def Millisecond_def)

theorem foreign_writer_waits_witness:
  "\<exists>n < 3. \<not> rd_failed (exClock n) \<and> 160 * Second \<le> rd_value (exClock n)"
proof -
  let ?w = "exWorld (exRegistry 0 None [(1, 0)] (exExclusion True True) 1 2) {(0, 160 * Second)}"
  let ?c = "exRegistry 0 None [] ((exExclusion True True)\<lparr>we_last := 200 * Second\<rparr>) 1 3"
  have "CheckWriter exClock 2 (ww_registry ?w) = (None, ?c)" "(1, 0) \<in> ww_activated ?w"
    using ex_check by (simp_all add: exWorld_def)
  from foreign_writer_waits [OF ex_writer_reach this] show ?thesis
    by (auto simp: exWorld_def exRegistry_def exExclusion_def NewWriterRegistry_def)
qed

theorem restart_waits_grace_witness:
  "\<exists>k n. k < n \<and> n < (2::nat) \<and> \<not> rd_failed (exClock k) \<and> \<not> rd_failed (exClock n) \<and>
     rd_value (exClock k) + WriterRestartGrace \<le> rd_value (exClock n)"
proof -
  let ?w = "writer_init False"
  let ?c = "(NewWriterRegistry False)\<lparr>wr_restartStarted := True, wr_restartDeadline := WriterRestartGrace, wr_clock := 1\<rparr>"
  have "StartWriterGrace exClock (ww_registry ?w) = (None, ?c)"
    by (simp add: StartWriterGrace_def writer_init_def NewWriterRegistry_def exClock_def WriterRestartGrace_def MaxCacheProof_def
        Second_def Millisecond_def)
  then have reach: "writer_reach exClock (?w\<lparr>ww_registry := ?c\<rparr>)"
    unfolding writer_reach_def using step_grace [of exClock ?w None ?c] by (metis r_into_rtranclp)
  have "CheckWriter exClock 2 ?c = (None, ?c\<lparr>wr_restartLast := 100 * Second, wr_clock := 2\<rparr>)"
    by (simp add: CheckWriter_def checkLocked_def priorWriterBlockedLocked_def excludedLocked_def NewWriterRegistry_def exClock_def
        WriterRestartGrace_def MaxCacheProof_def Second_def Millisecond_def)
  then show ?thesis
    using restart_waits_grace [OF reach, of 2] by (simp add: NewWriterRegistry_def)
qed

theorem renewal_proof_covered_witness:
  "we_deadline (wr_store (exRegistry 1 (Some 0) [] (exExclusion False False) 1 2) 0) = 160 * Second"
proof -
  have "RenewalProof exClock True (200 * Second) (200 * Second) (60 * Second) 0 (Some 0) (exRegistry 1 (Some 0) [] newExclusion 1 0) =
      (Inr (60 * Second), exRegistry 1 (Some 0) [] (exExclusion False False) 1 2)"
    by (simp add: RenewalProof_def leaseRemaining_def proofRemaining_def sdiv_Millisecond grant_def exClock_def exRegistry_def NewWriterRegistry_def
        newExclusion_def exExclusion_def MaxCacheProof_def Second_def Millisecond_def)
  from renewal_proof_covered [OF this] show ?thesis
    by (simp add: exClock_def exRegistry_def NewWriterRegistry_def newExclusion_def Second_def Millisecond_def)
qed

theorem poison_final_witness:
  "fst (CheckWriter exClock 2 (registry_Fence 1 (snd (Poison 7 (NewWriterRegistry True))))) = Some (ErrMutationPoisoned 7)"
proof -
  let ?d = "snd (Poison 7 (NewWriterRegistry True))"
  have poison: "Poison 7 (NewWriterRegistry True) = (ErrMutationPoisoned 7, ?d)"
    by (simp add: Poison_def NewWriterRegistry_def)
  have "(writer_step exClock)\<^sup>*\<^sup>* ((writer_init True)\<lparr>ww_registry := ?d\<rparr>) ((writer_init True)\<lparr>ww_registry := registry_Fence 1 ?d\<rparr>)"
    using step_fence [of exClock "(writer_init True)\<lparr>ww_registry := ?d\<rparr>" 1] by simp
  from poison_final [OF poison this, of 2] show ?thesis
    by simp
qed

section \<open>The holders of the topology gate\<close>

text \<open>
  The gate with the number of readers and writers it admitted and that have not released it; only a holder
  releases.
\<close>

inductive gate_reach :: "topologyGate \<Rightarrow> nat \<Rightarrow> nat \<Rightarrow> bool" where
  gate_new: "gate_reach \<lparr>tg_readers = 0, tg_writer = False, tg_changed = False\<rparr> 0 0"
| gate_read: "gate_reach g r w \<Longrightarrow> gate_acquire contextDone False g = (Admitted, g') \<Longrightarrow> gate_reach g' (Suc r) w"
| gate_write: "gate_reach g r w \<Longrightarrow> gate_acquire contextDone True g = (Admitted, g') \<Longrightarrow> gate_reach g' r (Suc w)"
| gate_refused: "gate_reach g r w \<Longrightarrow> gate_acquire contextDone exclusive g = (a, g') \<Longrightarrow> a \<noteq> Admitted \<Longrightarrow> gate_reach g' r w"
| gate_unread: "gate_reach g (Suc r) w \<Longrightarrow> gate_release False g = Some g' \<Longrightarrow> gate_reach g' r w"
| gate_unwrite: "gate_reach g r (Suc w) \<Longrightarrow> gate_release True g = Some g' \<Longrightarrow> gate_reach g' r w"

definition gate_inv :: "topologyGate \<Rightarrow> nat \<Rightarrow> nat \<Rightarrow> bool" where
  "gate_inv g r w \<longleftrightarrow> unat (tg_readers g) = r \<and> w = (if tg_writer g then 1 else 0) \<and> (tg_writer g \<longrightarrow> tg_readers g = 0) \<and>
     (tg_changed g \<longrightarrow> tg_writer g \<or> tg_readers g \<noteq> 0)"

lemma gate_acquire_inv:
  assumes "gate_inv g r w" and "gate_acquire contextDone exclusive g = (a, g')"
  shows "gate_inv g' (if a = Admitted \<and> \<not> exclusive then Suc r else r) (if a = Admitted \<and> exclusive then Suc w else w)"
proof -
  have "unat (tg_readers g + 1) = Suc (unat (tg_readers g))" "tg_readers g + 1 \<noteq> 0" if "tg_readers g \<noteq> MaxUint64"
    using that by (metis add.commute unatSuc add_eq_0_iff neg_eq_iff_add_eq_0)+
  then show ?thesis
    using assms by (auto simp: gate_inv_def gate_acquire_def split: if_splits)
qed

lemma gate_release_inv:
  assumes "gate_inv g r w" and "gate_release exclusive g = Some g'"
  shows "gate_inv g' (if exclusive then r else r - 1) (if exclusive then w - 1 else w)"
proof -
  have "unat (tg_readers g - 1) = unat (tg_readers g) - 1" if "tg_readers g \<noteq> 0"
    using that by (metis unat_minus_one)
  then show ?thesis
    using assms by (auto simp: gate_inv_def gate_release_def Let_def split: if_splits)
qed

lemma gate_reach_inv: "gate_reach g r w \<Longrightarrow> gate_inv g r w"
proof (induction rule: gate_reach.induct)
  case gate_new
  show ?case
    by (simp add: gate_inv_def)
next
  case (gate_read g r w contextDone g')
  then show ?case
    using gate_acquire_inv [OF gate_read.IH gate_read.hyps(2)] by simp
next
  case (gate_write g r w contextDone g')
  then show ?case
    using gate_acquire_inv [OF gate_write.IH gate_write.hyps(2)] by simp
next
  case (gate_refused g r w contextDone exclusive a g')
  then show ?case
    using gate_acquire_inv [OF gate_refused.IH gate_refused.hyps(2)] by simp
next
  case (gate_unread g r w g')
  then show ?case
    using gate_release_inv [OF gate_unread.IH gate_unread.hyps(2)] by simp
next
  case (gate_unwrite g r w g')
  then show ?case
    using gate_release_inv [OF gate_unwrite.IH gate_unwrite.hyps(2)] by simp
qed

text \<open>
  C39. The topology gate admits at most one writer and never a writer beside a reader, its count of
  readers is exact at its width, whoever waits waits for a holder, and a holder's release never panics.
\<close>

theorem topology_exclusion:
  assumes "gate_reach g r w"
  shows "w \<le> 1 \<and> (w = 0 \<or> r = 0) \<and> unat (tg_readers g) = r \<and> (tg_changed g \<longrightarrow> 0 < r + w) \<and>
    (0 < r \<longrightarrow> gate_release False g \<noteq> None) \<and> (0 < w \<longrightarrow> gate_release True g \<noteq> None)"
  using gate_reach_inv [OF assms] by (auto simp: gate_inv_def gate_release_def Let_def unat_gt_0 split: if_splits)

theorem topology_exclusion_witness:
  "gate_release False \<lparr>tg_readers = 1, tg_writer = False, tg_changed = True\<rparr> \<noteq> None"
proof -
  have "gate_reach \<lparr>tg_readers = 1, tg_writer = False, tg_changed = False\<rparr> 1 0"
    using gate_read [OF gate_new, of False] by (simp add: gate_acquire_def)
  from gate_refused [OF this, of False True Waits] have "gate_reach \<lparr>tg_readers = 1, tg_writer = False, tg_changed = True\<rparr> 1 0"
    by (simp add: gate_acquire_def)
  from topology_exclusion [OF this] show ?thesis
    by simp
qed

end
