(* ===== verification/Spec2Isabelle.thy ===== *)
theory Spec2Isabelle
  imports Lock_Properties Writeback_Properties Writeback_Waves Mutation_Properties Route_Properties Writer_Properties
begin

text \<open>
  \<^bold>\<open>PortableFS: the coordination core of a shared volume.\<close>

  A PortableFS volume is served by one authority process. Client mounts hold sessions with it; they buffer writes,
  lock byte ranges, and mutate the tree through the authority, which orders what they do. Rules of the volume keep some
  directories local to each machine. This library models the parts of that core that decide something, as executable
  functions on explicit states, and proves what the rest of the program relies on.

  \<^bold>\<open>The parts and how they meet.\<close> An operation of a mount first asks the route rules whether its path is local to the machine.
  A path of the volume goes to the authority. There the topology gate admits it beside a route change, the writer registry
  checks that no other exclusive writer still has a promise or work outstanding, the sequencer takes the keys of
  everything the mutation touches, and validation compares what was completed with what was prepared. Byte-range
  locks stand beside this path. On the client, the write-back buffer answers a write once it is recorded, lays it over later
  reads and sends it in waves.

  \<^bold>\<open>Byte-range locks\<close>, \<^verbatim>\<open>src/vcs/internal/volumeserver/locks.go\<close>.
    \<^item> \<^verbatim>\<open>Lock_Range\<close>: owners, inclusive ranges of 64-bit offsets and their operations, read as sets of bytes.
    \<^item> \<^verbatim>\<open>Interval_Tree\<close>: the augmented treap with the pruned overlap walk; the locale \<open>interval_index\<close> is its contract, interpreted
      on the treap.
    \<^item> \<^verbatim>\<open>Lock_Plan\<close>: conflict queries and the plans of acquisition and release.
    \<^item> \<^verbatim>\<open>Lock_Table\<close>: the record \<open>LockTable\<close> and every exported method (\<open>RegisterSession\<close>, \<open>Renew\<close>, \<open>ReleaseSession\<close>, \<open>Get\<close>, \<open>Set\<close>, \<open>BeginWait\<close>,
      \<open>Await\<close>, \<open>InterruptWaiters\<close>, \<open>Unlock\<close>) as a state transformer.
    \<^item> \<^verbatim>\<open>Lock_Safety\<close>, \<^verbatim>\<open>Lock_Operations\<close>, \<^verbatim>\<open>Lock_Reach\<close>: the invariant, its preservation by every operation, the reachable tables.
    \<^item> \<^verbatim>\<open>Lock_Properties\<close>: mutual exclusion, refinement of the POSIX byte map by \<open>Set\<close> and \<open>Unlock\<close>, no trace of a released
      session, fair queueing, exact deadlock search, admission bounds, decisions of waiters, end of the wake cascade.

  \<^bold>\<open>Write-back buffer\<close>, \<^verbatim>\<open>src/vcs/internal/writeback\<close>.
    \<^item> \<^verbatim>\<open>Extents\<close> (\<^verbatim>\<open>extents.go\<close>): the balanced interval map with its node arena and owner lists, which refines a function on
      offsets.
    \<^item> \<^verbatim>\<open>Record_Heap\<close> (\<^verbatim>\<open>heap.go\<close>): the indexed heap; the locale \<open>min_queue\<close> is its contract, interpreted on the heap.
    \<^item> \<^verbatim>\<open>Writeback_Types\<close>, \<^verbatim>\<open>Writeback_Buffer\<close>, \<^verbatim>\<open>Writeback_Flush\<close> (\<^verbatim>\<open>types.go\<close>, \<^verbatim>\<open>buffer.go\<close>, \<^verbatim>\<open>wave.go\<close>, \<^verbatim>\<open>flush.go\<close>, \<^verbatim>\<open>read.go\<close>): the record
      \<open>Buffer\<close> with admission, loss, barriers, waves, rounds of a flush, acknowledgements, retirement and reads.
    \<^item> \<^verbatim>\<open>Writeback_Properties\<close>: the extent map refines its function under writes and retirement, its height is bounded, the heap keeps its
      order under removal anywhere.
    \<^item> \<^verbatim>\<open>Writeback_Waves\<close>: a wave of writes carries exactly the next accepted bytes, in order and in place, and makes progress.

  \<^bold>\<open>Mutations\<close>, \<^verbatim>\<open>src/vcs/internal/volumeserver\<close>.
    \<^item> \<^verbatim>\<open>Mutation_Targets\<close> (\<^verbatim>\<open>mutation_targets.go\<close>, \<^verbatim>\<open>mutation_validation.go\<close>): targets, keys, validation and canonical dependency sets.
    \<^item> \<^verbatim>\<open>Mutation_Sequencer\<close> (\<^verbatim>\<open>mutation_sequencer.go\<close>, \<^verbatim>\<open>storage_sequencer.go\<close>): queues and claims, grants, requeueing, versions,
      declarations, expansion of a held set.
    \<^item> \<^verbatim>\<open>Mutation_Order\<close>, \<^verbatim>\<open>Mutation_Operations\<close>, \<^verbatim>\<open>Mutation_Reach\<close>: the invariant, its preservation, the reachable states.
    \<^item> \<^verbatim>\<open>Mutation_Properties\<close>: exclusion, order of arrival, every waiter is served once holders release, declarations notice exactly the
      published changes, isolation of accepted mutations, exact validation.

  \<^bold>\<open>Writer admission\<close>, \<^verbatim>\<open>src/vcs/internal/volumeserver\<close>.
    \<^item> \<^verbatim>\<open>Writer_Registry\<close> (\<^verbatim>\<open>topology_gate.go\<close>, \<^verbatim>\<open>writer_exclusion.go\<close>, \<^verbatim>\<open>writer_registry.go\<close>, \<^verbatim>\<open>coherence_admission.go\<close>): the gate, the
      exclusion of a session, proofs of renewal, the registry, its poison and its restart grace.
    \<^item> \<^verbatim>\<open>Writer_Safety\<close>: exclusions only move toward their discharge, and every activated session is the owner, retained or discharged.
    \<^item> \<^verbatim>\<open>Writer_Properties\<close>: sessions and registry as one transition system; a foreign writer waits for every promise and all
      admitted work, a restart waits out its grace, proofs are covered, poison is final, the gate excludes.

  \<^bold>\<open>Machine-local routes\<close>, \<^verbatim>\<open>src/vcs/internal/localroutes/localroutes.go\<close>.
    \<^item> \<^verbatim>\<open>Local_Routes\<close>: parsing, compilation, subsumption, lookup tables, routing, subtree keys.
    \<^item> \<^verbatim>\<open>Route_Rules\<close>, \<^verbatim>\<open>Route_Index\<close>, \<^verbatim>\<open>Route_Subsumption\<close>: the meaning of patterns, the lookup tables, the rules dropped as redundant.
    \<^item> \<^verbatim>\<open>Route_Properties\<close>: the greedy scans decide the meaning of patterns, the tables decide the shortest routed prefix, dropping
      redundant rules changes no route, parsed declarations are well formed.

  \<^verbatim>\<open>Prelude\<close> has what the components share.

  \<^bold>\<open>Conventions.\<close> A critical section of a mutex is one step. A call that waits is split at its wait, and any other step may come
  between. A panic is \<open>None\<close>, an error a value. Integers keep their width where the code can reach it: byte offsets,
  ordinals, versions and reader counts are 64-bit words; durations and file sizes are integers with the bounds of the
  code written out; counters that only number objects are natural numbers. Clocks are streams of readings, so that
  successive readings are independent. A Go map is a function or an association list whose order is the order of iteration.

  \<^bold>\<open>Bounds and fuel.\<close> Most loops are structural or have a termination proof. Three take a number of rounds. The drain of wake
  requests gets the length of the queue plus the pending requests, and the wake cascade is proved to end with none
  pending. The update of a range of the extent map gets one round per interval, and its refinement theorem shows that it
  returns. A flush gets one round per byte and record still accepted, since every round that continues applies at
  least one of them; running out is \<open>None\<close>. That progress is proved for waves of writes (\<open>wave_exact\<close>); a flush as a whole has no theorem.

  \<^bold>\<open>Not modelled.\<close>
    \<^item> Sessions and the durable mount set (\<^verbatim>\<open>session.go\<close>, \<^verbatim>\<open>mount_*.go\<close>) are driven by credentials, wall clocks and a file; what locks,
      mutations and writer admission need of a session is in those components. Delegations and subscriptions
      (\<^verbatim>\<open>delegation*.go\<close>, \<^verbatim>\<open>subscription.go\<close>) are exchanges with concurrent clients.
    \<^item> The theorems on the write-back buffer are about its extent map, its heaps and its waves; admission, barriers, loss,
      acknowledgements and reads are executable definitions without theorems of their own. The pool of flush workers visits its targets
      one after the other, and the background goroutine is the function that picks its next file.
    \<^item> The digest of a rule set is a parameter; \<^verbatim>\<open>gitindex.go\<close> reads repositories.
    \<^item> The protocol handlers, the FUSE client, the XFS store, archives, cells, workspaces, the local daemon, the account
      services and the commands are system calls, network exchanges and generated messages around the modelled core.
\<close>

end
